(* ===== verification/Prelude.thy ===== *)
theory Prelude
  imports "HOL-Library.Word" "HOL-Library.Signed_Division"
begin

text \<open>
  Shared vocabulary of the development: the integer types of
  \<^verbatim>\<open>lib/cfa/include/u.h\<close>, the ways a C function of this program
  can stop without returning, the sequencing of such functions, and generic facts on
  machine words that the component theories use.
\<close>

unbundle bit_operations_syntax

text \<open>
  The collections that the component theories fill: the numbers of the system calls, the sizes of
  the structures in memory, and what the writers of text append.
\<close>

named_theorems syscall_numbers "the numbers of the system calls"
named_theorems layout_defs "the sizes of the structures in memory"
named_theorems text_built "what a writer of text appends to a built string"

section \<open>The integer types of u.h\<close>

type_synonym u8 = "8 word"
type_synonym u16 = "16 word"
type_synonym u32 = "32 word"
type_synonym u64 = "64 word"

text \<open>An unbounded integer stored in a signed 32-bit C value.\<close>

definition s32 :: "int \<Rightarrow> int" where
  "s32 x = signed_take_bit 31 x"

lemma s32_id: "- (2 ^ 31) \<le> x \<Longrightarrow> x < 2 ^ 31 \<Longrightarrow> s32 x = x"
  by (simp add: s32_def signed_take_bit_int_eq_self)

section \<open>String literals\<close>

text \<open>
  The bytes of a string literal. Where the linker puts a literal is not in the sources: the
  functions that use the address of a literal take the map from literals to addresses as an
  argument.
\<close>

type_synonym literals = "string \<Rightarrow> u64"

definition bytes_of :: "string \<Rightarrow> u8 list" where
  "bytes_of s = map of_char s"

lemma bytes_of_simps [simp]:
  "bytes_of [] = []"
  "bytes_of (c # s) = of_char c # bytes_of s"
  by (simp_all add: bytes_of_def)

lemma length_bytes_of [simp]: "length (bytes_of s) = length s"
  by (simp add: bytes_of_def)

section \<open>Functions that may not return\<close>

text \<open>
  A failed \<^verbatim>\<open>assert\<close> or a call of \<^verbatim>\<open>panic\<close> ends the process with the
  breakpoint trap; \<^verbatim>\<open>sys_exit\<close> ends it with a code; undefined behaviour of C is
  a branch of its own; a loop driven by the kernel that has used up its iteration bound is
  \<open>Out_of_fuel\<close>.
\<close>

datatype halt =
    Assert_failed string nat
  | Panicked string
  | Exited int
  | Undefined
  | Out_of_fuel

definition andthen :: "'e + 'a \<Rightarrow> ('a \<Rightarrow> 'e + 'b) \<Rightarrow> 'e + 'b" where
  "andthen r f = (case r of Inl e \<Rightarrow> Inl e | Inr a \<Rightarrow> f a)"

lemma andthen_simps [simp]:
  "andthen (Inl e) f = Inl e"
  "andthen (Inr a) f = f a"
  by (simp_all add: andthen_def)

lemma andthen_Inr_iff: "andthen r f = Inr b \<longleftrightarrow> (\<exists>a. r = Inr a \<and> f a = Inr b)"
  by (cases r) auto

lemma andthen_Inr_elim:
  assumes "andthen r f = Inr b"
  obtains a where "r = Inr a" and "f a = Inr b"
  using assms by (auto simp: andthen_Inr_iff)

lemma andthen_assoc: "andthen (andthen r f) g = andthen r (\<lambda>a. andthen (f a) g)"
  by (cases r) auto

section \<open>Offsets from a base address\<close>

text \<open>
  The memory is indexed by 64-bit addresses, and a region is the set of addresses at an
  offset below its length from its base. The offset of an address is a word subtraction,
  so no side condition on wrap-around is needed to talk about regions.
\<close>

lemma unat_plus_less: "unat (x :: u64) + unat y < 2 ^ 64 \<Longrightarrow> unat (x + y) = unat x + unat y"
  by (simp add: unat_word_ariths)

lemma unat_mult_less: "unat (x :: u64) * unat y < 2 ^ 64 \<Longrightarrow> unat (x * y) = unat x * unat y"
  by (simp add: unat_word_ariths)

lemma unat_minus_of_le: "(x :: u64) \<le> y \<Longrightarrow> unat (y - x) = unat y - unat x"
  by (simp add: unat_sub word_le_nat_alt)

lemma unat_minus_wrap:
  assumes "(x :: u64) < y"
  shows "unat (x - y) = 2 ^ 64 + unat x - unat y"
proof -
  have lt: "uint x < uint y" using assms by (simp add: word_less_def)
  have b: "0 \<le> uint x" "uint y < 2 ^ 64" by (simp, use uint_bounded[of y] in simp)
  have "(uint x - uint y) mod 2 ^ 64 = (uint x - uint y + 2 ^ 64) mod 2 ^ 64" by simp
  also have "\<dots> = uint x - uint y + 2 ^ 64"
    by (rule mod_pos_pos_trivial) (use lt b in linarith)+
  finally have "uint (x - y) = uint x - uint y + 2 ^ 64" by (simp add: uint_word_ariths)
  then have "int (unat (x - y)) = int (unat x) - int (unat y) + 18446744073709551616" by simp
  then have "unat (x - y) + unat y = unat x + 18446744073709551616" by linarith
  then show ?thesis by simp
qed

lemma unat_minus_add_wrap: "(x :: u64) < y \<Longrightarrow> unat (x - y) + unat y = 2 ^ 64 + unat x"
  using unat_minus_wrap[of x y] unsigned_less[of y, where ?'a = nat] by simp

lemma unat_minus_add_le: "(x :: u64) \<le> y \<Longrightarrow> unat (y - x) + unat x = unat y"
  using unat_minus_of_le[of x y] by (simp add: word_le_nat_alt)

lemma unat_pred: "(x :: u64) \<noteq> 0 \<Longrightarrow> unat (x - 1) = unat x - 1"
  by (simp add: unat_minus_one)

lemma unat_of_nat_less: "n < 2 ^ 64 \<Longrightarrow> unat (of_nat n :: u64) = n"
  by (simp add: unat_of_nat take_bit_nat_eq_self)

lemma unat_lt64 [simp]: "unat (x :: u64) < 18446744073709551616"
  using unsigned_less[of x, where ?'a = nat] by simp

lemma unat_lt_2p64: "unat (x :: u64) < 2 ^ 64"
  by simp

text \<open>A small count in a 32-bit \<^verbatim>\<open>int\<close>, and its conversion to a 64-bit word.\<close>

lemma sint_of_nat32: "n < 2 ^ 31 \<Longrightarrow> sint (of_nat n :: u32) = int n"
  by (simp add: signed_of_nat signed_take_bit_int_eq_self)

lemma unat_of_nat32: "n < 2 ^ 32 \<Longrightarrow> unat (of_nat n :: u32) = n"
  by (simp add: unat_of_nat take_bit_nat_eq_self)

lemma of_nat32_eq_0: "n < 2 ^ 32 \<Longrightarrow> (of_nat n :: u32) = 0 \<longleftrightarrow> n = 0"
  using unat_of_nat32[of n] unat_eq_zero[of "of_nat n :: u32"] by auto

lemma word_of_sint: "0 \<le> sint (x :: u32) \<Longrightarrow> x = of_nat (nat (sint x))"
  by simp

lemma nat_sint_less: "nat (sint (x :: u32)) < 2 ^ 31"
  using sint_lt[of x] by simp

lemma scast_of_nat32: "n < 2 ^ 31 \<Longrightarrow> (scast (of_nat n :: u32) :: u64) = of_nat n"
  unfolding scast_eq sint_of_nat32 by simp

lemma takeWhile_stops: "\<exists>x \<in> set xs. \<not> Q x \<Longrightarrow> length (takeWhile Q xs) < length xs"
  by (induction xs) auto

end
