(* ===== verification/Memory.thy ===== *)
theory Memory
  imports Prelude
begin

text \<open>
  The byte memory of the process: a total function from 64-bit addresses to bytes, with
  little-endian 32-bit and 64-bit cells (x86-64), regions and their disjointness, what a
  write may change, and linked lists threaded through the memory. The locale \<open>cell\<close>
  is the contract of a typed load and store; it is interpreted for the two cell widths the
  program uses.
\<close>

section \<open>Bytes\<close>

type_synonym mem = "u64 \<Rightarrow> u8"

definition ld_bytes :: "mem \<Rightarrow> u64 \<Rightarrow> nat \<Rightarrow> u8 list" where
  "ld_bytes m a n = map (\<lambda>i. m (a + of_nat i)) [0..<n]"

definition st_bytes :: "mem \<Rightarrow> u64 \<Rightarrow> u8 list \<Rightarrow> mem" where
  "st_bytes m a bs = (\<lambda>x. if unat (x - a) < length bs then bs ! unat (x - a) else m x)"

lemma length_ld_bytes [simp]: "length (ld_bytes m a n) = n"
  by (simp add: ld_bytes_def)

lemma nth_ld_bytes [simp]: "i < n \<Longrightarrow> ld_bytes m a n ! i = m (a + of_nat i)"
  by (simp add: ld_bytes_def)

lemma ld_bytes_0 [simp]: "ld_bytes m a 0 = []"
  by (simp add: ld_bytes_def)

lemma ld_bytes_Suc: "ld_bytes m a (Suc n) = m a # ld_bytes m (a + 1) n"
  by (simp add: ld_bytes_def upt_conv_Cons map_Suc_upt [symmetric] add.assoc del: upt_Suc)

lemma ld_bytes_add: "ld_bytes m a (n + k) = ld_bytes m a n @ ld_bytes m (a + of_nat n) k"
  by (induction n arbitrary: a) (simp_all add: ld_bytes_Suc add.assoc)

lemma take_ld_bytes [simp]: "take k (ld_bytes m a n) = ld_bytes m a (min k n)"
  by (simp add: ld_bytes_def take_map min_def)

lemma st_bytes_Nil [simp]: "st_bytes m a [] = m"
  by (simp add: st_bytes_def)

lemma st_bytes_ld_bytes_same: "st_bytes m a (ld_bytes m a n) = m"
  by (rule ext) (simp add: st_bytes_def)

lemma ld_bytes_cong:
  assumes "\<And>x. unat (x - a) < n \<Longrightarrow> m x = m' x" and "n \<le> 2 ^ 64"
  shows "ld_bytes m a n = ld_bytes m' a n"
proof (rule nth_equalityI)
  fix i assume i: "i < length (ld_bytes m a n)"
  then have "unat (a + of_nat i - a) < n"
    using assms(2) by (simp add: unat_of_nat_less)
  from assms(1)[OF this] i show "ld_bytes m a n ! i = ld_bytes m' a n ! i" by simp
qed simp

lemma ld_bytes_st_bytes_same:
  assumes "length bs \<le> 2 ^ 64"
  shows "ld_bytes (st_bytes m a bs) a (length bs) = bs"
proof (rule nth_equalityI)
  fix i assume "i < length (ld_bytes (st_bytes m a bs) a (length bs))"
  then show "ld_bytes (st_bytes m a bs) a (length bs) ! i = bs ! i"
    using assms by (simp add: st_bytes_def unat_of_nat_less)
qed simp

lemma st_bytes_append:
  assumes "length xs + length ys \<le> 2 ^ 64"
  shows "st_bytes (st_bytes m a xs) (a + of_nat (length xs)) ys = st_bytes m a (xs @ ys)"
proof (rule ext)
  fix x
  define y where "y = x - a"
  have x: "x - (a + of_nat (length xs)) = y - of_nat (length xs)" by (simp add: y_def)
  have lt: "unat y < 2 ^ 64" by simp
  show "st_bytes (st_bytes m a xs) (a + of_nat (length xs)) ys x = st_bytes m a (xs @ ys) x"
  proof (cases "length ys = 0 \<or> length xs = 2 ^ 64")
    case True
    then show ?thesis using assms lt by (auto simp: st_bytes_def y_def)
  next
    case False
    then have k: "unat (of_nat (length xs) :: u64) = length xs"
      using assms by (intro unat_of_nat_less) (cases ys, auto)
    show ?thesis
    proof (cases "unat y < length xs")
      case True
      then have "y < of_nat (length xs)" using k by (simp add: word_less_nat_alt)
      from unat_minus_wrap[OF this] k
      have "unat (y - of_nat (length xs)) = 2 ^ 64 + unat y - length xs" by simp
      then have "\<not> unat (y - of_nat (length xs)) < length ys" using assms by simp
      then show ?thesis using True
        by (simp add: st_bytes_def x y_def[symmetric] nth_append)
    next
      case ge: False
      then have "of_nat (length xs) \<le> y" using k by (simp add: word_le_nat_alt)
      from unat_minus_of_le[OF this] k
      have "unat (y - of_nat (length xs)) = unat y - length xs" by simp
      then show ?thesis using ge
        by (auto simp add: st_bytes_def x y_def[symmetric] nth_append)
    qed
  qed
qed

section \<open>Little-endian cells\<close>

fun le_bytes :: "nat \<Rightarrow> nat \<Rightarrow> u8 list" where
  "le_bytes 0 v = []"
| "le_bytes (Suc n) v = of_nat (v mod 256) # le_bytes n (v div 256)"

fun le_val :: "u8 list \<Rightarrow> nat" where
  "le_val [] = 0"
| "le_val (b # bs) = unat b + 256 * le_val bs"

lemma length_le_bytes [simp]: "length (le_bytes n v) = n"
  by (induction n arbitrary: v) auto

lemma le_val_le_bytes: "le_val (le_bytes n v) = v mod 256 ^ n"
proof (induction n arbitrary: v)
  case (Suc n)
  have "v mod 256 ^ Suc n = v mod 256 + 256 * (v div 256 mod 256 ^ n)"
    by (simp add: mod_mult2_eq)
  then show ?case
    using Suc by (simp add: unat_of_nat take_bit_eq_mod)
qed simp

lemma le_bytes_le_val: "le_bytes (length bs) (le_val bs) = bs"
proof (induction bs)
  case (Cons b bs)
  have "unat b < 256" using unsigned_less[of b, where ?'a = nat] by simp
  then show ?case using Cons by simp
qed simp

lemma le_val_bound: "le_val bs < 256 ^ length bs"
proof (induction bs)
  case (Cons b bs)
  have "unat b < 256" using unsigned_less[of b, where ?'a = nat] by simp
  moreover have "Suc (le_val bs) * 256 \<le> 256 ^ length bs * 256"
    using Cons by (intro mult_right_mono) auto
  ultimately show ?case by simp
qed simp

definition ld32 :: "mem \<Rightarrow> u64 \<Rightarrow> u32" where
  "ld32 m a = of_nat (le_val (ld_bytes m a 4))"

definition st32 :: "mem \<Rightarrow> u64 \<Rightarrow> u32 \<Rightarrow> mem" where
  "st32 m a v = st_bytes m a (le_bytes 4 (unat v))"

definition ld64 :: "mem \<Rightarrow> u64 \<Rightarrow> u64" where
  "ld64 m a = of_nat (le_val (ld_bytes m a 8))"

definition st64 :: "mem \<Rightarrow> u64 \<Rightarrow> u64 \<Rightarrow> mem" where
  "st64 m a v = st_bytes m a (le_bytes 8 (unat v))"

text \<open>Copying a word through a register copies its eight bytes.\<close>

lemma st64_ld64: "st64 m d (ld64 m' s) = st_bytes m d (ld_bytes m' s 8)"
proof -
  have "le_val (ld_bytes m' s 8) < 2 ^ 64"
    using le_val_bound[of "ld_bytes m' s 8"] by simp
  then have "unat (ld64 m' s) = le_val (ld_bytes m' s 8)"
    by (simp add: ld64_def unat_of_nat_less)
  then show ?thesis
    using le_bytes_le_val[of "ld_bytes m' s 8"] by (simp add: st64_def)
qed

section \<open>Regions\<close>

definition span :: "u64 \<Rightarrow> nat \<Rightarrow> u64 set" where
  "span a n = {x. unat (x - a) < n}"

definition disj :: "u64 \<Rightarrow> nat \<Rightarrow> u64 \<Rightarrow> nat \<Rightarrow> bool" where
  "disj a n b k \<longleftrightarrow> n \<le> unat (b - a) \<and> k \<le> unat (a - b)"

lemma in_span_iff: "x \<in> span a n \<longleftrightarrow> unat (x - a) < n"
  by (simp add: span_def)

lemma disj_sym: "disj a n b k \<longleftrightarrow> disj b k a n"
  by (auto simp: disj_def)

lemma unat_diff_swap: "a \<noteq> (b :: u64) \<Longrightarrow> unat (a - b) + unat (b - a) = 2 ^ 64"
proof (cases "a < b")
  case True
  then have "a \<le> b" by simp
  from unat_minus_add_wrap[OF True] unat_minus_add_le[OF this] show ?thesis by linarith
next
  case False
  assume "a \<noteq> b"
  with False have "b < a" and "b \<le> a" by simp_all
  from unat_minus_add_wrap[OF this(1)] unat_minus_add_le[OF this(2)] show ?thesis by linarith
qed

lemma disj_spans:
  assumes "disj a n b k"
  shows "span a n \<inter> span b k = {}"
proof -
  have False if "unat (x - a) < n" and "unat (x - b) < k" for x
  proof -
    have "x - a < b - a"
      using that(1) assms by (auto simp: disj_def word_less_nat_alt)
    from unat_minus_wrap[OF this]
    have *: "unat (x - b) = 2 ^ 64 + unat (x - a) - unat (b - a)" by simp
    have "a \<noteq> b" using that assms by (auto simp: disj_def)
    from unat_diff_swap[OF this] have "unat (a - b) + unat (b - a) = 2 ^ 64" .
    with * have "unat (x - b) = unat (x - a) + unat (a - b)" by simp
    with that(2) assms show False by (simp add: disj_def)
  qed
  then show ?thesis by (auto simp: span_def)
qed

lemma span_mono: "n \<le> k \<Longrightarrow> span a n \<subseteq> span a k"
  by (auto simp: span_def)

lemma span_sub:
  assumes "unat off + n \<le> k" and "k \<le> 2 ^ 64"
  shows "span (a + off) n \<subseteq> span a k"
proof
  fix x assume "x \<in> span (a + off) n"
  then have lt: "unat (x - a - off) < n" by (simp add: span_def algebra_simps)
  have "unat (x - a - off + off) = unat (x - a - off) + unat off"
    using lt assms by (intro unat_plus_less) simp
  with lt assms show "x \<in> span a k" by (simp add: span_def)
qed

text \<open>A region that does not wrap is an interval of addresses.\<close>

lemma span_nowrap:
  assumes "unat a + n \<le> 2 ^ 64"
  shows "x \<in> span a n \<longleftrightarrow> unat a \<le> unat x \<and> unat x < unat a + n"
proof (cases "a \<le> x")
  case True
  from unat_minus_add_le[OF this] True show ?thesis
    unfolding span_def word_le_nat_alt by (auto simp del: unat_sub)
next
  case False
  then have lt: "x < a" by simp
  from unat_minus_add_wrap[OF this] assms have "\<not> unat (x - a) < n" by linarith
  with lt show ?thesis by (simp add: span_def word_less_nat_alt)
qed

section \<open>What a write changes\<close>

text \<open>\<open>only S m m'\<close>: the memories differ at most inside \<open>S\<close>.\<close>

definition only :: "u64 set \<Rightarrow> mem \<Rightarrow> mem \<Rightarrow> bool" where
  "only S m m' \<longleftrightarrow> (\<forall>x. x \<notin> S \<longrightarrow> m' x = m x)"

lemma only_refl [simp]: "only S m m"
  by (simp add: only_def)

lemma only_mono: "only S m m' \<Longrightarrow> S \<subseteq> T \<Longrightarrow> only T m m'"
  by (auto simp: only_def)

lemma only_trans: "only S m m' \<Longrightarrow> only S m' m'' \<Longrightarrow> only S m m''"
  by (simp add: only_def)

lemma only_st_bytes: "only (span a (length bs)) m (st_bytes m a bs)"
  by (simp add: only_def st_bytes_def span_def)

lemma only_ld_bytes:
  assumes "only S m m'" and "span a n \<inter> S = {}" and "n \<le> 2 ^ 64"
  shows "ld_bytes m' a n = ld_bytes m a n"
  by (rule ld_bytes_cong) (use assms in \<open>auto simp: only_def span_def\<close>)

lemma in_span_of_nat: "l < n \<Longrightarrow> n \<le> 2 ^ 64 \<Longrightarrow> a + of_nat l \<in> span a n"
  by (simp add: span_def unat_of_nat_less)

lemma only_upd: "only S m m' \<Longrightarrow> x \<in> S \<Longrightarrow> only S m (m'(x := b))"
  by (auto simp: only_def)

lemma only_st_bytes_in: "only S m m' \<Longrightarrow> span a (length bs) \<subseteq> S \<Longrightarrow> only S m (st_bytes m' a bs)"
  using only_st_bytes[of a bs m'] by (auto simp: only_def)

section \<open>The contract of a typed cell\<close>

locale cell =
  fixes ld :: "mem \<Rightarrow> u64 \<Rightarrow> 'a"
    and st :: "mem \<Rightarrow> u64 \<Rightarrow> 'a \<Rightarrow> mem"
    and width :: nat
  assumes ld_st_same: "ld (st m a v) a = v"
    and ld_local: "(\<And>x. x \<in> span a width \<Longrightarrow> m' x = m x) \<Longrightarrow> ld m' a = ld m a"
    and st_outside: "x \<notin> span a width \<Longrightarrow> st m a v x = m x"
begin

lemma only_st: "only (span a width) m (st m a v)"
  by (simp add: only_def st_outside)

lemma only_ld: "only S m m' \<Longrightarrow> span a width \<inter> S = {} \<Longrightarrow> ld m' a = ld m a"
  by (rule ld_local) (auto simp: only_def)

lemma ld_st_disj: "disj a width b width \<Longrightarrow> ld (st m b v) a = ld m a"
  by (rule only_ld[OF only_st]) (rule disj_spans)

lemma only_st_in: "only S m m' \<Longrightarrow> span a width \<subseteq> S \<Longrightarrow> only S m (st m' a v)"
  by (auto simp: only_def intro: st_outside[THEN trans])

lemma ld_st_bytes_disj: "disj a width b (length bs) \<Longrightarrow> ld (st_bytes m b bs) a = ld m a"
  by (rule only_ld[OF only_st_bytes]) (rule disj_spans)

lemma ld_bytes_st_disj:
  "disj a n b width \<Longrightarrow> n \<le> 2 ^ 64 \<Longrightarrow> ld_bytes (st m b v) a n = ld_bytes m a n"
  by (rule only_ld_bytes[OF only_st]) (auto dest: disj_spans)

end

interpretation c32: cell ld32 st32 4
proof
  fix m a v
  show "ld32 (st32 m a v) a = v"
    using ld_bytes_st_bytes_same[of "le_bytes 4 (unat v)" m a]
      unsigned_less[of v, where ?'a = nat]
    by (simp add: ld32_def st32_def le_val_le_bytes)
next
  fix a and m m' :: mem
  assume "\<And>x. x \<in> span a 4 \<Longrightarrow> m' x = m x"
  then have "ld_bytes m' a 4 = ld_bytes m a 4"
    by (intro ld_bytes_cong) (auto simp: span_def)
  then show "ld32 m' a = ld32 m a" by (simp add: ld32_def)
next
  fix x a m v
  assume "x \<notin> span a 4"
  then show "st32 m a v x = m x" by (simp add: st32_def st_bytes_def span_def)
qed

interpretation c64: cell ld64 st64 8
proof
  fix m a v
  show "ld64 (st64 m a v) a = v"
    using ld_bytes_st_bytes_same[of "le_bytes 8 (unat v)" m a]
    by (simp add: ld64_def st64_def le_val_le_bytes)
next
  fix a and m m' :: mem
  assume "\<And>x. x \<in> span a 8 \<Longrightarrow> m' x = m x"
  then have "ld_bytes m' a 8 = ld_bytes m a 8"
    by (intro ld_bytes_cong) (auto simp: span_def)
  then show "ld64 m' a = ld64 m a" by (simp add: ld64_def)
next
  fix x a m v
  assume "x \<notin> span a 8"
  then show "st64 m a v x = m x" by (simp add: st64_def st_bytes_def span_def)
qed

lemmas ld_st_same = c32.ld_st_same c64.ld_st_same

section \<open>Linked lists\<close>

text \<open>
  \<open>chain nxt p xs\<close>: following \<open>nxt\<close> from \<open>p\<close> visits exactly the nodes
  \<open>xs\<close> and ends at the null pointer.
\<close>

fun chain :: "(u64 \<Rightarrow> u64) \<Rightarrow> u64 \<Rightarrow> u64 list \<Rightarrow> bool" where
  "chain nxt p [] \<longleftrightarrow> p = 0"
| "chain nxt p (x # xs) \<longleftrightarrow> p = x \<and> x \<noteq> 0 \<and> chain nxt (nxt x) xs"

lemma chain_cong: "(\<And>x. x \<in> set xs \<Longrightarrow> f x = g x) \<Longrightarrow> chain f p xs = chain g p xs"
  by (induction xs arbitrary: p) auto

lemma chain_null [simp]: "chain nxt 0 xs \<longleftrightarrow> xs = []"
  by (cases xs) auto

lemma chain_unique: "chain nxt p xs \<Longrightarrow> chain nxt p ys \<Longrightarrow> xs = ys"
proof (induction xs arbitrary: p ys)
  case (Cons x xs)
  then show ?case by (cases ys) auto
qed simp

lemma chain_nonnull: "chain nxt p xs \<Longrightarrow> x \<in> set xs \<Longrightarrow> x \<noteq> 0"
  by (induction xs arbitrary: p) auto

lemma chain_link:
  "chain nxt p (xs @ y # ys) \<Longrightarrow> (if xs = [] then p else nxt (last xs)) = y"
proof (induction xs arbitrary: p)
  case (Cons x xs)
  then show ?case by (cases "xs = []") auto
qed simp

text \<open>Redirecting the link before a node to its successor removes it from the list.\<close>

lemma chain_remove:
  assumes "chain nxt p (xs @ y # ys)" and "distinct (xs @ y # ys)"
  shows "if xs = [] then chain nxt (nxt y) ys
         else chain (nxt(last xs := nxt y)) p (xs @ ys)"
  using assms
proof (induction xs arbitrary: p)
  case (Cons x xs)
  show ?case
  proof (cases "xs = []")
    case True
    have "chain (nxt(x := nxt y)) (nxt y) ys = chain nxt (nxt y) ys"
      by (rule chain_cong) (use Cons.prems in auto)
    then show ?thesis using Cons.prems True by auto
  next
    case False
    then have "x \<noteq> last xs" using Cons.prems(2) last_in_set[OF False] by auto
    then show ?thesis using Cons False by simp
  qed
qed simp

end
