(* ===== verification/Memcpy.thy ===== *)
theory Memcpy
  imports Memory
begin

text \<open>
  \<^verbatim>\<open>memcpy\<close>, \<^verbatim>\<open>memmove\<close> and \<^verbatim>\<open>memequal\<close> of
  \<^verbatim>\<open>lib/cfa/src/builtin.c\<close>. The copy runs upwards or downwards, byte by byte
  until the operands are aligned, then in eight-byte words, then byte by byte again; the
  reference definition \<open>moved\<close> is the simultaneous move of the whole block.
\<close>

section \<open>The loops\<close>

text \<open>
  The state of the loops is the memory with the two running pointers. A
  \<^verbatim>\<open>do ... while (t)\<close> loop that decrements \<open>t\<close> in its body runs once more than
  the wrapped value of \<open>t - 1\<close>.
\<close>

type_synonym copy_state = "mem \<times> u64 \<times> u64"

definition wsize :: u64 where "wsize = 8"
definition wmask :: u64 where "wmask = wsize - 1"

definition do_while_count :: "u64 \<Rightarrow> nat" where
  "do_while_count t = Suc (unat (t - 1))"

fun copy_bytes_up :: "nat \<Rightarrow> copy_state \<Rightarrow> copy_state" where
  "copy_bytes_up 0 st = st"
| "copy_bytes_up (Suc n) (m, dst, src) = copy_bytes_up n (m(dst := m src), dst + 1, src + 1)"

fun copy_words_up :: "nat \<Rightarrow> copy_state \<Rightarrow> copy_state" where
  "copy_words_up 0 st = st"
| "copy_words_up (Suc n) (m, dst, src) =
     copy_words_up n (st64 m dst (ld64 m src), dst + wsize, src + wsize)"

fun copy_bytes_down :: "nat \<Rightarrow> copy_state \<Rightarrow> copy_state" where
  "copy_bytes_down 0 st = st"
| "copy_bytes_down (Suc n) (m, dst, src) =
     copy_bytes_down n (m(dst - 1 := m (src - 1)), dst - 1, src - 1)"

fun copy_words_down :: "nat \<Rightarrow> copy_state \<Rightarrow> copy_state" where
  "copy_words_down 0 st = st"
| "copy_words_down (Suc n) (m, dst, src) =
     copy_words_down n (st64 m (dst - wsize) (ld64 m (src - wsize)), dst - wsize, src - wsize)"

text \<open>
  The two branches of the function: the alignment loop, then whole words and the trailing
  bytes. The value of \<open>memcpy\<close> is the returned pointer with the memory.
\<close>

definition copy_rest_up :: "u64 \<Rightarrow> copy_state \<Rightarrow> copy_state" where
  "copy_rest_up len st =
    (let t = len div wsize;
         st = (if t \<noteq> 0 then copy_words_up (do_while_count t) st else st);
         t = len AND wmask
     in if t \<noteq> 0 then copy_bytes_up (do_while_count t) st else st)"

definition memcpy_up :: "mem \<Rightarrow> u64 \<Rightarrow> u64 \<Rightarrow> u64 \<Rightarrow> copy_state" where
  "memcpy_up m dst src len =
    (let t = src in
     if (t OR dst) AND wmask \<noteq> 0
     then let t = (if (t XOR dst) AND wmask \<noteq> 0 \<or> len < wsize then len
                   else wsize - (t AND wmask))
          in copy_rest_up (len - t) (copy_bytes_up (do_while_count t) (m, dst, src))
     else copy_rest_up len (m, dst, src))"

definition copy_rest_down :: "u64 \<Rightarrow> copy_state \<Rightarrow> copy_state" where
  "copy_rest_down len st =
    (let t = len div wsize;
         st = (if t \<noteq> 0 then copy_words_down (do_while_count t) st else st);
         t = len AND wmask
     in if t \<noteq> 0 then copy_bytes_down (do_while_count t) st else st)"

definition memcpy_down :: "mem \<Rightarrow> u64 \<Rightarrow> u64 \<Rightarrow> u64 \<Rightarrow> copy_state" where
  "memcpy_down m dst src len =
    (let src = src + len; dst = dst + len; t = src in
     if (t OR dst) AND wmask \<noteq> 0
     then let t = (if (t XOR dst) AND wmask \<noteq> 0 \<or> len \<le> wsize then len
                   else t AND wmask)
          in copy_rest_down (len - t) (copy_bytes_down (do_while_count t) (m, dst, src))
     else copy_rest_down len (m, dst, src))"

definition memcpy :: "mem \<Rightarrow> u64 \<Rightarrow> u64 \<Rightarrow> u64 \<Rightarrow> u64 \<times> mem" where
  "memcpy m dst0 src0 len =
    (if len = 0 \<or> dst0 = src0 then (dst0, m)
     else let (m', dst, src) = (if dst0 < src0 then memcpy_up m dst0 src0 len
                                else memcpy_down m dst0 src0 len)
          in (dst, m'))"

definition memmove :: "mem \<Rightarrow> u64 \<Rightarrow> u64 \<Rightarrow> u64 \<Rightarrow> u64 \<times> mem" where
  "memmove m dst src len = memcpy m dst src len"

fun memequal_loop :: "nat \<Rightarrow> mem \<Rightarrow> u64 \<Rightarrow> u64 \<Rightarrow> int" where
  "memequal_loop 0 m d s = 1"
| "memequal_loop (Suc len) m d s =
     (if m d \<noteq> m s then 0 else memequal_loop len m (d + 1) (s + 1))"

definition memequal :: "mem \<Rightarrow> u64 \<Rightarrow> u64 \<Rightarrow> u64 \<Rightarrow> int" where
  "memequal m dst src len = memequal_loop (unat len) m dst src"

section \<open>The reference: a simultaneous move\<close>

definition moved :: "mem \<Rightarrow> u64 \<Rightarrow> u64 \<Rightarrow> nat \<Rightarrow> mem" where
  "moved m d s n = (\<lambda>x. if unat (x - d) < n then m (s + (x - d)) else m x)"

lemma moved_0 [simp]: "moved m d s 0 = m"
  by (simp add: moved_def)

lemma moved_eq_st_bytes: "n \<le> 2 ^ 64 \<Longrightarrow> moved m d s n = st_bytes m d (ld_bytes m s n)"
  by (rule ext) (simp add: moved_def st_bytes_def)

lemma moved_byte: "m(d := m s) = moved m d s 1"
  by (rule ext) (auto simp: moved_def unat_eq_zero)

lemma moved_word: "st64 m d (ld64 m s) = moved m d s 8"
  by (simp add: st64_ld64 moved_eq_st_bytes)

text \<open>
  Splitting a move: the lower part may go first when the destination of the lower part
  does not reach the source of the upper part, and symmetrically.
\<close>

lemma moved_lower_first:
  assumes "a + b \<le> unat (d - s)"
  shows "moved (moved m d s a) (d + of_nat a) (s + of_nat a) b = moved m d s (a + b)"
proof (rule ext)
  fix x
  define y where "y = x - d"
  have lt: "unat (d - s) < 2 ^ 64" "unat y < 2 ^ 64" by simp_all
  have a: "unat (of_nat a :: u64) = a" using assms lt by (intro unat_of_nat_less) linarith
  have x: "x = d + y" "x - (d + of_nat a) = y - of_nat a" by (simp_all add: y_def)
  have src: "unat y < a + b \<Longrightarrow> a \<le> unat y \<Longrightarrow> \<not> unat (s + y - d) < a"
  proof
    assume y: "unat y < a + b" "a \<le> unat y" and "unat (s + y - d) < a"
    have "y < d - s" using y assms by (simp add: word_less_nat_alt)
    from unat_minus_add_wrap[OF this] have "unat (y - (d - s)) + unat (d - s) = 2 ^ 64 + unat y" .
    moreover have "y - (d - s) = s + y - d" by simp
    ultimately have "unat (s + y - d) + unat (d - s) = 2 ^ 64 + unat y" by simp
    with \<open>unat (s + y - d) < a\<close> y lt assms show False by linarith
  qed
  show "moved (moved m d s a) (d + of_nat a) (s + of_nat a) b x = moved m d s (a + b) x"
  proof (cases "unat y < a")
    case True
    then have "y < of_nat a" using a by (simp add: word_less_nat_alt)
    from unat_minus_add_wrap[OF this] have "unat (y - of_nat a) + a = 2 ^ 64 + unat y"
      by (simp add: a)
    with lt assms have "\<not> unat (y - of_nat a) < b" by linarith
    then show ?thesis using True
      by (simp add: moved_def x(2) y_def[symmetric])
  next
    case False
    then have "of_nat a \<le> y" using a by (simp add: word_le_nat_alt)
    from unat_minus_add_le[OF this] a have "unat (y - of_nat a) + a = unat y" by simp
    then show ?thesis using False src
      by (auto simp: moved_def x(2) y_def[symmetric])
  qed
qed

lemma moved_upper_first:
  assumes "a + b \<le> unat (s - d)"
  shows "moved (moved m (d + of_nat a) (s + of_nat a) b) d s a = moved m d s (a + b)"
proof (rule ext)
  fix x
  define y where "y = x - d"
  have lt: "unat (s - d) < 2 ^ 64" "unat y < 2 ^ 64" by simp_all
  have a: "unat (of_nat a :: u64) = a" using assms lt by (intro unat_of_nat_less) linarith
  have x: "x - (d + of_nat a) = y - of_nat a" "x - d = y" by (simp_all add: y_def)
  show "moved (moved m (d + of_nat a) (s + of_nat a) b) d s a x = moved m d s (a + b) x"
  proof (cases "unat y < a")
    case True
    define z where "z = s - d"
    have e: "s + y - (d + of_nat a) = y + (z - of_nat a)" by (simp add: z_def)
    have "of_nat a \<le> z" using a assms by (simp add: word_le_nat_alt z_def)
    from unat_minus_add_le[OF this] a have za: "unat (z - of_nat a) + a = unat z" by simp
    have "unat (y + (z - of_nat a)) = unat y + unat (z - of_nat a)"
      by (intro unat_plus_less) (use True za lt(1) in \<open>unfold z_def[symmetric], linarith\<close>)
    then have "\<not> unat (s + y - (d + of_nat a)) < b"
      using za assms by (simp add: e z_def)
    then show ?thesis using True by (simp add: moved_def x)
  next
    case False
    then have "of_nat a \<le> y" using a by (simp add: word_le_nat_alt)
    from unat_minus_add_le[OF this] a have "unat (y - of_nat a) + a = unat y" by simp
    then show ?thesis using False by (auto simp: moved_def x)
  qed
qed

section \<open>Each loop is a move\<close>

lemma copy_bytes_up_moved:
  "n \<le> unat (d - s) \<Longrightarrow> copy_bytes_up n (m, d, s) = (moved m d s n, d + of_nat n, s + of_nat n)"
proof (induction n arbitrary: m d s)
  case (Suc n)
  have "copy_bytes_up n (moved m d s 1, d + 1, s + 1) =
      (moved (moved m d s 1) (d + 1) (s + 1) n, d + 1 + of_nat n, s + 1 + of_nat n)"
    using Suc.prems by (intro Suc.IH) simp
  then show ?case
    using moved_lower_first[of 1 n d s m] Suc.prems by (simp add: moved_byte add.assoc)
qed simp

lemma copy_words_up_moved:
  "8 * n \<le> unat (d - s) \<Longrightarrow>
   copy_words_up n (m, d, s) = (moved m d s (8 * n), d + of_nat (8 * n), s + of_nat (8 * n))"
proof (induction n arbitrary: m d s)
  case (Suc n)
  have "copy_words_up n (moved m d s 8, d + 8, s + 8) =
      (moved (moved m d s 8) (d + 8) (s + 8) (8 * n), d + 8 + of_nat (8 * n), s + 8 + of_nat (8 * n))"
    using Suc.prems by (intro Suc.IH) simp
  then show ?case
    using moved_lower_first[of 8 "8 * n" d s m] Suc.prems
    by (simp add: moved_word wsize_def add.assoc)
qed simp

lemma copy_bytes_down_moved:
  "n \<le> unat (s - d) \<Longrightarrow>
   copy_bytes_down n (m, d + of_nat n, s + of_nat n) = (moved m d s n, d, s)"
proof (induction n arbitrary: m)
  case (Suc n)
  have "copy_bytes_down n (moved m (d + of_nat n) (s + of_nat n) 1, d + of_nat n, s + of_nat n) =
      (moved (moved m (d + of_nat n) (s + of_nat n) 1) d s n, d, s)"
    using Suc.prems by (intro Suc.IH) simp
  then show ?case
    using moved_upper_first[of n 1 s d m] Suc.prems
    by (simp add: moved_byte add.commute)
qed simp

lemma copy_words_down_moved:
  "8 * n \<le> unat (s - d) \<Longrightarrow>
   copy_words_down n (m, d + of_nat (8 * n), s + of_nat (8 * n)) = (moved m d s (8 * n), d, s)"
proof (induction n arbitrary: m)
  case (Suc n)
  let ?k = "of_nat (8 * n) :: u64"
  have "copy_words_down n (moved m (d + ?k) (s + ?k) 8, d + ?k, s + ?k) =
      (moved (moved m (d + ?k) (s + ?k) 8) d s (8 * n), d, s)"
    using Suc.prems by (intro Suc.IH) simp
  then show ?case
    using moved_upper_first[of "8 * n" 8 s d m] Suc.prems
    by (simp add: moved_word wsize_def algebra_simps)
qed simp

section \<open>The whole copy\<close>

lemma unat_and_wmask: "unat (x AND wmask) = unat x mod 8"
proof -
  have "x AND wmask = take_bit 3 x"
    by (simp add: wmask_def wsize_def take_bit_eq_mask mask_eq_exp_minus_1)
  then show ?thesis by (simp add: take_bit_eq_mod unat_mod_distrib)
qed

lemma unat_div_wsize: "unat (x div wsize) = unat x div 8"
  by (simp add: wsize_def unat_div_distrib)

lemma do_while_count_pos: "t \<noteq> 0 \<Longrightarrow> do_while_count t = unat t"
  by (simp add: do_while_count_def unat_pred Suc_diff_1 unat_gt_0)

lemma copy_rest_up_moved:
  assumes "unat len \<le> unat (d - s)"
  shows "copy_rest_up len (m, d, s) = (moved m d s (unat len), d + len, s + len)"
proof -
  let ?w = "unat len div 8" and ?r = "unat len mod 8"
  let ?k = "of_nat (8 * ?w) :: u64"
  have sum: "8 * ?w + ?r = unat len" by simp
  have words: "(if len div wsize \<noteq> 0 then copy_words_up (do_while_count (len div wsize)) (m, d, s)
      else (m, d, s)) = (moved m d s (8 * ?w), d + ?k, s + ?k)"
  proof (cases "len div wsize = 0")
    case True
    then have "?w = 0" using unat_div_wsize[of len] by simp
    then show ?thesis using True by simp
  next
    case False
    have "8 * ?w \<le> unat (d - s)" using sum assms by linarith
    then show ?thesis
      using False by (simp add: do_while_count_pos unat_div_wsize copy_words_up_moved)
  qed
  have len: "len = ?k + of_nat ?r"
    by (simp only: of_nat_add[symmetric] sum) simp
  show ?thesis
  proof (cases "len AND wmask = 0")
    case True
    then have "?r = 0" using unat_and_wmask[of len] by simp
    with sum have "8 * ?w = unat len" by linarith
    then show ?thesis
      by (simp only: copy_rest_up_def Let_def words True) simp
  next
    case False
    have c: "do_while_count (len AND wmask) = ?r"
      using False by (simp add: do_while_count_pos unat_and_wmask)
    have "?r \<le> unat (d + ?k - (s + ?k))" using assms by simp
    from copy_bytes_up_moved[OF this]
    have "copy_bytes_up ?r (moved m d s (8 * ?w), d + ?k, s + ?k) =
      (moved (moved m d s (8 * ?w)) (d + ?k) (s + ?k) ?r, d + ?k + of_nat ?r, s + ?k + of_nat ?r)" .
    also have "\<dots> = (moved m d s (unat len), d + len, s + len)"
      using moved_lower_first[of "8 * ?w" ?r d s m] assms
      by (simp only: sum add.assoc len[symmetric])
    finally show ?thesis
      using False by (simp only: copy_rest_up_def Let_def words c) simp
  qed
qed

lemma copy_rest_down_moved:
  assumes "unat len \<le> unat (s - d)"
  shows "copy_rest_down len (m, d + len, s + len) = (moved m d s (unat len), d, s)"
proof -
  let ?w = "unat len div 8" and ?r = "unat len mod 8"
  let ?q = "of_nat ?r :: u64"
  have sum: "?r + 8 * ?w = unat len" by simp
  have len: "len = ?q + of_nat (8 * ?w)"
    by (simp only: of_nat_add[symmetric] sum) simp
  have ends: "d + len = d + ?q + of_nat (8 * ?w)" "s + len = s + ?q + of_nat (8 * ?w)"
    by (simp_all only: add.assoc len[symmetric])
  have words: "(if len div wsize \<noteq> 0
      then copy_words_down (do_while_count (len div wsize)) (m, d + len, s + len)
      else (m, d + len, s + len)) = (moved m (d + ?q) (s + ?q) (8 * ?w), d + ?q, s + ?q)"
  proof (cases "len div wsize = 0")
    case True
    then have "?w = 0" using unat_div_wsize[of len] by simp
    then show ?thesis using True ends by simp
  next
    case False
    have "8 * ?w \<le> unat (s + ?q - (d + ?q))" using assms by simp
    from copy_words_down_moved[OF this]
    have "copy_words_down ?w (m, d + len, s + len) = (moved m (d + ?q) (s + ?q) (8 * ?w), d + ?q, s + ?q)"
      by (simp only: ends)
    moreover have "do_while_count (len div wsize) = ?w"
      using False by (simp add: do_while_count_pos unat_div_wsize)
    ultimately show ?thesis using False by simp
  qed
  show ?thesis
  proof (cases "len AND wmask = 0")
    case True
    then have "?r = 0" using unat_and_wmask[of len] by simp
    with sum have "8 * ?w = unat len" by linarith
    then show ?thesis
      using \<open>?r = 0\<close> by (simp only: copy_rest_down_def Let_def words True) simp
  next
    case False
    have c: "do_while_count (len AND wmask) = ?r"
      using False by (simp add: do_while_count_pos unat_and_wmask)
    have "?r \<le> unat (s - d)" using assms sum by linarith
    from copy_bytes_down_moved[OF this]
    have "copy_bytes_down ?r (moved m (d + ?q) (s + ?q) (8 * ?w), d + ?q, s + ?q) =
      (moved (moved m (d + ?q) (s + ?q) (8 * ?w)) d s ?r, d, s)" .
    also have "\<dots> = (moved m d s (unat len), d, s)"
      using moved_upper_first[of ?r "8 * ?w" s d m] assms by (simp only: sum)
    finally show ?thesis
      using False by (simp only: copy_rest_down_def Let_def words c) simp
  qed
qed

lemma unat_len_minus: "(t :: u64) \<le> len \<Longrightarrow> unat (len - t) = unat len - unat t"
  by (rule unat_minus_of_le)

lemma memcpy_up_moved:
  assumes "len \<noteq> 0" and "unat len \<le> unat (dst - src)"
  shows "memcpy_up m dst src len = (moved m dst src (unat len), dst + len, src + len)"
proof (cases "(src OR dst) AND wmask = 0")
  case True
  then show ?thesis using copy_rest_up_moved[OF assms(2)] by (simp add: memcpy_up_def)
next
  case False
  define t where "t = (if (src XOR dst) AND wmask \<noteq> 0 \<or> len < wsize then len
                   else wsize - (src AND wmask))"
  have r: "unat (src AND wmask) \<le> 7" by (simp add: unat_and_wmask)
  then have "unat (8 - (src AND wmask)) = 8 - unat (src AND wmask)"
    by (subst unat_minus_of_le) (simp_all add: word_le_nat_alt)
  then have t: "t \<noteq> 0" "t \<le> len"
    using assms(1) r
    by (auto simp: t_def wsize_def word_le_nat_alt word_less_nat_alt simp flip: unat_eq_zero)
  let ?l = "len - t"
  have l: "unat ?l + unat t = unat len" using t(2) by (rule unat_minus_add_le)
  have "copy_bytes_up (do_while_count t) (m, dst, src) = (moved m dst src (unat t), dst + t, src + t)"
    using copy_bytes_up_moved[of "unat t" dst src m] l assms(2) t(1)
    by (simp add: do_while_count_pos)
  moreover have "copy_rest_up ?l (moved m dst src (unat t), dst + t, src + t) =
      (moved (moved m dst src (unat t)) (dst + t) (src + t) (unat ?l), dst + len, src + len)"
    using copy_rest_up_moved[of ?l "dst + t" "src + t"] l assms(2) by (simp add: algebra_simps)
  moreover have "moved (moved m dst src (unat t)) (dst + t) (src + t) (unat ?l) = moved m dst src (unat len)"
    using moved_lower_first[of "unat t" "unat ?l" dst src m] l assms(2) by (simp add: add.commute)
  ultimately show ?thesis
    using False by (simp only: memcpy_up_def Let_def t_def[symmetric]) simp
qed

lemma low_bits_match:
  assumes "(a XOR b) AND w = 0" and "a AND w = 0"
  shows "(a OR b) AND w = (0 :: u64)"
  using assms by (simp add: bit.conj_xor_distrib2 bit.conj_disj_distrib2)

lemma memcpy_down_moved:
  assumes "len \<noteq> 0" and "unat len \<le> unat (src - dst)"
  shows "memcpy_down m dst src len = (moved m dst src (unat len), dst, src)"
proof (cases "((src + len) OR (dst + len)) AND wmask = 0")
  case True
  then show ?thesis using copy_rest_down_moved[OF assms(2)] by (simp add: memcpy_down_def)
next
  case False
  define t where "t = (if ((src + len) XOR (dst + len)) AND wmask \<noteq> 0 \<or> len \<le> wsize then len
                   else (src + len) AND wmask)"
  have "unat ((src + len) AND wmask) \<le> 7" by (simp add: unat_and_wmask)
  then have t: "t \<noteq> 0" "t \<le> len"
    using assms(1) False low_bits_match[of "src + len" "dst + len" wmask]
    by (auto simp: t_def wsize_def word_le_nat_alt)
  let ?l = "len - t"
  have l: "unat ?l + unat t = unat len" using t(2) by (rule unat_minus_add_le)
  let ?m = "moved m (dst + ?l) (src + ?l) (unat t)"
  have "copy_bytes_down (do_while_count t) (m, dst + len, src + len) = (?m, dst + ?l, src + ?l)"
    using copy_bytes_down_moved[of "unat t" "src + ?l" "dst + ?l" m] l assms(2) t(1)
    by (simp add: do_while_count_pos)
  moreover have "copy_rest_down ?l (?m, dst + ?l, src + ?l) = (moved ?m dst src (unat ?l), dst, src)"
    using copy_rest_down_moved[of ?l src dst ?m] l assms(2) by simp
  moreover have "moved ?m dst src (unat ?l) = moved m dst src (unat len)"
    using moved_upper_first[of "unat ?l" "unat t" src dst m] l assms(2) by simp
  ultimately show ?thesis
    using False by (simp only: memcpy_down_def Let_def t_def[symmetric]) simp
qed

text \<open>
  The copy is a move of the block, whether the regions overlap or not, as long as neither
  region wraps around the end of the address space.
\<close>

lemma memcpy_block_move:
  assumes "unat dst + unat len \<le> 2 ^ 64" and "unat src + unat len \<le> 2 ^ 64"
  shows "memcpy m dst src len =
    (if dst < src then dst + len else dst, st_bytes m dst (ld_bytes m src (unat len)))"
proof -
  have "unat len \<le> 2 ^ 64" using assms by linarith
  then have mv: "st_bytes m dst (ld_bytes m src (unat len)) = moved m dst src (unat len)"
    by (simp add: moved_eq_st_bytes)
  consider "len = 0" | "dst = src" | "len \<noteq> 0" "dst < src" | "len \<noteq> 0" "src < dst"
    by (meson linorder_less_linear)
  then show ?thesis
  proof cases
    case 3
    from unat_minus_add_wrap[OF 3(2)] assms(2) have "unat len \<le> unat (dst - src)" by linarith
    from memcpy_up_moved[OF 3(1) this] 3 show ?thesis by (simp add: memcpy_def mv)
  next
    case 4
    from unat_minus_add_wrap[OF 4(2)] assms(1) have "unat len \<le> unat (src - dst)" by linarith
    from memcpy_down_moved[OF 4(1) this] have
      "memcpy_down m dst src len = (moved m dst src (unat len), dst, src)" .
    moreover have "\<not> dst < src" "dst \<noteq> src" using 4(2) by auto
    ultimately show ?thesis using 4(1) by (simp add: memcpy_def mv)
  qed (simp_all add: memcpy_def st_bytes_ld_bytes_same)
qed

lemma memequal_loop_iff: "memequal_loop n m d s = (if ld_bytes m d n = ld_bytes m s n then 1 else 0)"
  by (induction n arbitrary: d s) (simp_all add: ld_bytes_Suc)

section \<open>Properties\<close>

text \<open>
  C22: a block move is a simultaneous move, for overlapping blocks too: afterwards the destination
  holds what the source held before, and no byte outside the destination has changed.
\<close>

theorem memmove_simultaneous:
  assumes "unat dst + unat len \<le> 2 ^ 64" and "unat src + unat len \<le> 2 ^ 64"
  shows "ld_bytes (snd (memmove m dst src len)) dst (unat len) = ld_bytes m src (unat len) \<and>
    only (span dst (unat len)) m (snd (memmove m dst src len))"
proof -
  have mv: "snd (memmove m dst src len) = st_bytes m dst (ld_bytes m src (unat len))"
    using assms by (simp add: memmove_def memcpy_block_move)
  show ?thesis
    unfolding mv
    using ld_bytes_st_bytes_same[of "ld_bytes m src (unat len)" m dst]
      only_st_bytes[of dst "ld_bytes m src (unat len)" m] less_imp_le[OF unat_lt_2p64[of len]] by simp
qed

theorem memmove_simultaneous_witness:
  "ld_bytes (snd (memmove (\<lambda>a. ucast a) 3 1 11)) 3 11 = ld_bytes (\<lambda>a. ucast a) 1 11 \<and>
   only (span 3 11) (\<lambda>a. ucast a) (snd (memmove (\<lambda>a. ucast a) 3 1 11))"
  using memmove_simultaneous[of 3 11 1 "\<lambda>a. ucast a"] by simp

text \<open>
  The comparison returns 1 when the two blocks hold the same bytes and 0 otherwise.
\<close>

theorem memequal_decides:
  "memequal m dst src len = (if ld_bytes m dst (unat len) = ld_bytes m src (unat len) then 1 else 0)"
  by (simp add: memequal_def memequal_loop_iff)

end
