(* ===== verification/Builtin.thy ===== *)
theory Builtin
  imports Memcpy
begin

text \<open>
  Slices, strings and their conversions: the part of \<^verbatim>\<open>lib/cfa/src/builtin.c\<close> that
  allocates no memory, and \<^verbatim>\<open>lib/cfa/src/iovec.c\<close>. A slice and a string are
  records of words; what they point to is in the byte memory. Functions that write into a
  slice return the number of bytes written with the new memory.
\<close>

section \<open>Slices and strings\<close>

record slice =
  sl_base :: u64
  sl_len :: u64
  sl_cap :: u64

record str =
  str_base :: u64
  str_len :: u64

record iovec =
  iov_base :: u64
  iov_len :: u64

definition get_slice :: "str \<Rightarrow> slice" where
  "get_slice s = \<lparr>sl_base = str_base s, sl_len = str_len s, sl_cap = str_len s\<rparr>"

definition unsafe_slice :: "u64 \<Rightarrow> u64 \<Rightarrow> slice" where
  "unsafe_slice buf len = \<lparr>sl_base = buf, sl_len = len, sl_cap = len\<rparr>"

definition slice_left :: "slice \<Rightarrow> u64 \<Rightarrow> slice" where
  "slice_left s lbytes =
    \<lparr>sl_base = sl_base s + lbytes, sl_len = sl_len s - lbytes, sl_cap = sl_cap s - lbytes\<rparr>"

definition slice_right :: "slice \<Rightarrow> u64 \<Rightarrow> halt + slice" where
  "slice_right s rbytes =
    (if rbytes \<le> sl_cap s
     then Inr \<lparr>sl_base = sl_base s, sl_len = rbytes, sl_cap = sl_cap s\<rparr>
     else Inl (Assert_failed ''builtin.c'' 158))"

definition slice_left_right :: "slice \<Rightarrow> u64 \<Rightarrow> u64 \<Rightarrow> halt + slice" where
  "slice_left_right s lbytes rbytes =
    (if rbytes \<le> sl_cap s
     then Inr \<lparr>sl_base = sl_base s + lbytes, sl_len = rbytes - lbytes, sl_cap = sl_cap s - lbytes\<rparr>
     else Inl (Assert_failed ''builtin.c'' 171))"

definition get_string :: "slice \<Rightarrow> str" where
  "get_string s = \<lparr>str_base = sl_base s, str_len = sl_len s\<rparr>"

definition unsafe_string :: "u64 \<Rightarrow> u64 \<Rightarrow> str" where
  "unsafe_string buf len = \<lparr>str_base = buf, str_len = len\<rparr>"

definition string_left :: "str \<Rightarrow> u64 \<Rightarrow> str" where
  "string_left s lbytes = \<lparr>str_base = str_base s + lbytes, str_len = str_len s - lbytes\<rparr>"

definition string_right :: "str \<Rightarrow> u64 \<Rightarrow> str" where
  "string_right s rbytes = \<lparr>str_base = str_base s, str_len = rbytes\<rparr>"

definition string_left_right :: "str \<Rightarrow> u64 \<Rightarrow> u64 \<Rightarrow> str" where
  "string_left_right s lbytes rbytes =
    \<lparr>str_base = str_base s + lbytes, str_len = rbytes - lbytes\<rparr>"

text \<open>
  The index of \<^verbatim>\<open>c_strlen\<close> is an \<^verbatim>\<open>int\<close>: a string with no terminator in
  its first \<open>2 ^ 31\<close> bytes makes it overflow.
\<close>

function c_strlen_loop :: "mem \<Rightarrow> u64 \<Rightarrow> nat \<Rightarrow> halt + nat" where
  "c_strlen_loop m s i =
    (if 2 ^ 31 \<le> i then Inl Undefined
     else if m (s + of_nat i) = 0 then Inr i
     else c_strlen_loop m s (Suc i))"
  by pat_completeness auto
termination
  by (relation "measure (\<lambda>(m, s, i). 2 ^ 31 - i)") auto

declare c_strlen_loop.simps [simp del]

definition c_strlen :: "mem \<Rightarrow> u64 \<Rightarrow> halt + u64" where
  "c_strlen m s = (if s = 0 then Inr 0 else andthen (c_strlen_loop m s 0) (\<lambda>i. Inr (of_nat i)))"

definition unsafe_c_string :: "mem \<Rightarrow> u64 \<Rightarrow> halt + str" where
  "unsafe_c_string m c_str = andthen (c_strlen m c_str) (\<lambda>n. Inr (unsafe_string c_str n))"

definition copy_slice :: "mem \<Rightarrow> slice \<Rightarrow> slice \<Rightarrow> u64 \<times> mem" where
  "copy_slice m dst src =
    (let l = (if sl_len dst > sl_len src then sl_len src else sl_len dst)
     in (l, snd (memcpy m (sl_base dst) (sl_base src) l)))"

definition string_in_slice :: "mem \<Rightarrow> slice \<Rightarrow> str \<Rightarrow> u64 \<times> mem" where
  "string_in_slice m sl s =
    (let l = (if sl_len sl > str_len s then str_len s else sl_len sl)
     in (l, snd (memcpy m (sl_base sl) (str_base s) l)))"

definition c_string_in_slice :: "mem \<Rightarrow> slice \<Rightarrow> u64 \<Rightarrow> halt + u64 \<times> mem" where
  "c_string_in_slice m s c_str =
    andthen (unsafe_c_string m c_str) (\<lambda>str. Inr (string_in_slice m s str))"

definition c_nstring_in_slice :: "mem \<Rightarrow> slice \<Rightarrow> u64 \<Rightarrow> u64 \<Rightarrow> u64 \<times> mem" where
  "c_nstring_in_slice m s c_str len = string_in_slice m s (unsafe_string c_str len)"

text \<open>
  \<^verbatim>\<open>c_strncpy\<close>: the copy stops at the terminator or after \<open>len - 1\<close> bytes, and
  always writes a terminator.
\<close>

fun c_strncpy_loop :: "nat \<Rightarrow> mem \<Rightarrow> u64 \<Rightarrow> u64 \<Rightarrow> nat \<Rightarrow> nat \<times> mem" where
  "c_strncpy_loop 0 m dest src i = (i, m)"
| "c_strncpy_loop (Suc k) m dest src i =
     (if m (src + of_nat i) \<noteq> 0
      then c_strncpy_loop k (m(dest + of_nat i := m (src + of_nat i))) dest src (Suc i)
      else (i, m))"

definition c_strncpy :: "mem \<Rightarrow> u64 \<Rightarrow> u64 \<Rightarrow> int \<Rightarrow> int \<times> mem" where
  "c_strncpy m dest src len =
    (if dest = 0 \<or> src = 0 \<or> len \<le> 0 then (0, m)
     else let (i, m) = c_strncpy_loop (nat (len - 1)) m dest src 0
          in (int i, m(dest + of_nat i := 0)))"

section \<open>Decimal numbers\<close>

text \<open>
  \<^verbatim>\<open>int_in_slice\<close> reverses the digits into \<open>rx\<close> and writes them from there.
  Its argument is an \<^verbatim>\<open>int64\<close>. The negation of a negative number is undefined for
  the least value of the type, which has no opposite: \<open>int_chars\<close> is the function on all other
  values, and \<open>int_in_slice\<close> adds that case. A slice without room returns before the sign is
  looked at.
\<close>

function reverse_digits :: "int \<Rightarrow> u64 \<Rightarrow> nat \<Rightarrow> u64 \<times> nat" where
  "reverse_digits x rx n_digits =
    (if x > 0 then reverse_digits (x div 10) (10 * rx + of_int (x mod 10)) (n_digits + 1)
     else (rx, n_digits))"
  by pat_completeness auto
termination
  by (relation "measure (\<lambda>(x, rx, n). nat x)") auto

declare reverse_digits.simps [simp del]

fun write_digits :: "nat \<Rightarrow> mem \<Rightarrow> u64 \<Rightarrow> u64 \<Rightarrow> u64 \<Rightarrow> u64 \<Rightarrow> u64 \<times> mem" where
  "write_digits 0 m buf bound rx i = (i, m)"
| "write_digits (Suc n_digits) m buf bound rx i =
     (if bound - i \<noteq> 0
      then write_digits n_digits (m(buf + i := ucast (rx mod 10 + 48))) buf bound (rx div 10) (i + 1)
      else (i, m))"

definition int_chars :: "mem \<Rightarrow> slice \<Rightarrow> int \<Rightarrow> u64 \<times> mem" where
  "int_chars m s x =
    (let buf = sl_base s; bound = sl_cap s in
     if bound = 0 then (0, m)
     else if x = 0 then (1, m(buf := 48))
     else let (x, i, m) = (if x < 0 then (- x, 1, m(buf := 45)) else (x, 0, m));
              (rx, n_digits) = reverse_digits x 0 0
          in write_digits n_digits m buf bound rx i)"

definition int_in_slice :: "mem \<Rightarrow> slice \<Rightarrow> int \<Rightarrow> halt + u64 \<times> mem" where
  "int_in_slice m s x =
    (if sl_cap s \<noteq> 0 \<and> x = - (2 ^ 63) then Inl Undefined else Inr (int_chars m s x))"

text \<open>The callers that print the fields of a time pass an \<^verbatim>\<open>int\<close> of 32 bits.\<close>

lemma int_in_slice_int: "- (2 ^ 31) \<le> x \<Longrightarrow> int_in_slice m s x = Inr (int_chars m s x)"
  by (simp add: int_in_slice_def)

section \<open>I/O vectors\<close>

definition iovec_from_byte_slice :: "slice \<Rightarrow> iovec" where
  "iovec_from_byte_slice s = \<lparr>iov_base = sl_base s, iov_len = sl_len s\<rparr>"

definition iovec_from_string :: "str \<Rightarrow> iovec" where
  "iovec_from_string s = \<lparr>iov_base = str_base s, iov_len = str_len s\<rparr>"

definition iovec_from_c_string :: "mem \<Rightarrow> u64 \<Rightarrow> halt + iovec" where
  "iovec_from_c_string m c_str =
    andthen (unsafe_c_string m c_str) (\<lambda>s. Inr (iovec_from_string s))"

section \<open>C strings\<close>

text \<open>\<open>cstr_at m a bs\<close>: a terminated string with contents \<open>bs\<close> is stored at \<open>a\<close>.\<close>

definition cstr_at :: "mem \<Rightarrow> u64 \<Rightarrow> u8 list \<Rightarrow> bool" where
  "cstr_at m a bs \<longleftrightarrow> a \<noteq> 0 \<and> length bs < 2 ^ 31 \<and> ld_bytes m a (length bs) = bs \<and>
     0 \<notin> set bs \<and> m (a + of_nat (length bs)) = 0"

lemma ld_bytes_eqD: "ld_bytes m a n = bs \<Longrightarrow> i < n \<Longrightarrow> m (a + of_nat i) = bs ! i"
  by (metis nth_ld_bytes)

lemma c_strlen_loop_spec:
  assumes "k \<le> n" and "n < 2 ^ 31" and "m (s + of_nat n) = 0"
    and "\<And>j. k \<le> j \<Longrightarrow> j < n \<Longrightarrow> m (s + of_nat j) \<noteq> 0"
  shows "c_strlen_loop m s k = Inr n"
  using assms(1,4)
proof (induction k rule: inc_induct)
  case base
  then show ?case using assms(2,3) by (simp add: c_strlen_loop.simps[of m s n])
next
  case (step k)
  then show ?case
    using assms(2) by (simp add: c_strlen_loop.simps[of m s k])
qed

lemma cstr_at_nth:
  assumes "cstr_at m s bs" and "j < length bs"
  shows "m (s + of_nat j) = bs ! j" and "m (s + of_nat j) \<noteq> 0"
proof -
  show *: "m (s + of_nat j) = bs ! j"
    using assms ld_bytes_eqD[of m s "length bs" bs j] by (simp add: cstr_at_def)
  have "bs ! j \<in> set bs" using assms(2) by simp
  then show "m (s + of_nat j) \<noteq> 0" using assms(1) unfolding * cstr_at_def by metis
qed

lemma cstr_at_only:
  assumes "cstr_at m a bs" and "only S m m'" and "span a (Suc (length bs)) \<inter> S = {}"
  shows "cstr_at m' a bs"
proof -
  have n: "Suc (length bs) \<le> 2 ^ 64" using assms(1) by (simp add: cstr_at_def)
  have "span a (length bs) \<inter> S = {}" using assms(3) span_mono[of "length bs" "Suc (length bs)" a] by auto
  then have "ld_bytes m' a (length bs) = ld_bytes m a (length bs)"
    using assms(2) n by (intro only_ld_bytes) auto
  moreover have "a + of_nat (length bs) \<notin> S"
    using in_span_of_nat[OF _ n, of "length bs" a] assms(3) by auto
  then have "m' (a + of_nat (length bs)) = m (a + of_nat (length bs))"
    using assms(2) by (simp add: only_def)
  ultimately show ?thesis using assms(1) by (simp add: cstr_at_def)
qed

lemma cstr_at_st_bytes:
  assumes "a \<noteq> 0" and "length bs < 2 ^ 31" and "0 \<notin> set bs" and "m (a + of_nat (length bs)) = 0"
  shows "cstr_at (st_bytes m a bs) a bs"
proof -
  have "unat (of_nat (length bs) :: u64) = length bs" using assms(2) by (intro unat_of_nat_less) simp
  then have "st_bytes m a bs (a + of_nat (length bs)) = 0" using assms(4) by (simp add: st_bytes_def)
  then show ?thesis using assms by (simp add: cstr_at_def ld_bytes_st_bytes_same)
qed

lemma c_strlen_cstr_at:
  assumes "cstr_at m s bs"
  shows "c_strlen m s = Inr (of_nat (length bs))"
proof -
  have "c_strlen_loop m s 0 = Inr (length bs)"
    by (intro c_strlen_loop_spec) (use assms cstr_at_nth[OF assms] in \<open>auto simp: cstr_at_def\<close>)
  then show ?thesis using assms by (simp add: c_strlen_def cstr_at_def)
qed

lemma string_in_slice_spec:
  assumes "unat (sl_base sl) + min (unat (sl_len sl)) (unat (str_len s)) \<le> 2 ^ 64"
    and "unat (str_base s) + min (unat (sl_len sl)) (unat (str_len s)) \<le> 2 ^ 64"
  shows "string_in_slice m sl s = (min (sl_len sl) (str_len s),
    st_bytes m (sl_base sl) (ld_bytes m (str_base s) (min (unat (sl_len sl)) (unat (str_len s)))))"
proof -
  let ?l = "if sl_len sl > str_len s then str_len s else sl_len sl"
  have l: "?l = min (sl_len sl) (str_len s)" by (auto simp add: min_def not_less)
  have u: "unat (min (sl_len sl) (str_len s)) = min (unat (sl_len sl)) (unat (str_len s))"
    by (simp add: min_def word_le_nat_alt)
  show ?thesis
    using assms by (simp only: string_in_slice_def Let_def l) (simp add: memcpy_block_move u)
qed

section \<open>Parts of a slice\<close>

text \<open>A slice is well formed when its length is within its capacity and it does not wrap.\<close>

definition slice_ok :: "slice \<Rightarrow> bool" where
  "slice_ok s \<longleftrightarrow> sl_len s \<le> sl_cap s \<and> unat (sl_base s) + unat (sl_cap s) \<le> 2 ^ 64"

definition slice_bytes :: "mem \<Rightarrow> slice \<Rightarrow> u8 list" where
  "slice_bytes m s = ld_bytes m (sl_base s) (unat (sl_len s))"

lemma ld_bytes_sub:
  "l + n \<le> k \<Longrightarrow> ld_bytes m (a + of_nat l) n = take n (drop l (ld_bytes m a k))"
proof -
  assume "l + n \<le> k"
  then obtain j where k: "k = l + (n + j)" by (auto simp: le_iff_add add.assoc)
  show ?thesis unfolding k ld_bytes_add by simp
qed

lemma slice_left_right_ok:
  assumes s: "slice_ok s" and l: "l \<le> r" and r: "r \<le> sl_cap s"
  defines "t \<equiv> \<lparr>sl_base = sl_base s + l, sl_len = r - l, sl_cap = sl_cap s - l\<rparr>"
  shows "slice_ok t"
    and "slice_bytes m t =
      drop (unat l) (take (unat r) (ld_bytes m (sl_base s) (unat (sl_cap s))))"
proof -
  have le: "unat l \<le> unat r" "unat r \<le> unat (sl_cap s)" using l r by (simp_all add: word_le_nat_alt)
  have u: "unat (r - l) = unat r - unat l" "unat (sl_cap s - l) = unat (sl_cap s) - unat l"
    using l order_trans[OF l r] by (simp_all add: unat_minus_of_le)
  have w: "unat (sl_base s) + unat (sl_cap s) \<le> 2 ^ 64" using s by (simp add: slice_ok_def)
  have "unat (sl_base s + l) + (unat (sl_cap s) - unat l) \<le> 2 ^ 64"
  proof (cases "unat (sl_base s) + unat l < 2 ^ 64")
    case True
    then show ?thesis using w le by (subst unat_plus_less) simp_all
  next
    case False
    then have "unat (sl_cap s) - unat l = 0" using w le by linarith
    then show ?thesis using less_imp_le[OF unat_lt_2p64[of "sl_base s + l"]] by linarith
  qed
  then show "slice_ok t" using u le by (simp add: slice_ok_def t_def word_le_nat_alt)
  have "ld_bytes m (sl_base s + of_nat (unat l)) (unat r - unat l) =
      take (unat r - unat l) (drop (unat l) (ld_bytes m (sl_base s) (unat (sl_cap s))))"
    by (rule ld_bytes_sub) (use le in linarith)
  then show "slice_bytes m t = drop (unat l) (take (unat r) (ld_bytes m (sl_base s) (unat (sl_cap s))))"
    by (simp only: slice_bytes_def t_def slice.simps u drop_take) simp
qed

section \<open>Properties\<close>

text \<open>
  Cutting a slice on both sides gives a well-formed slice with exactly the bytes between
  the two bounds, when the bounds are in order; a right bound beyond the capacity fails the
  assertion. The bounds may reach into the capacity beyond the length.
\<close>

theorem slice_left_right_part:
  assumes "slice_ok s" and "l \<le> r"
  shows "slice_left_right s l r =
      (if r \<le> sl_cap s
       then Inr \<lparr>sl_base = sl_base s + l, sl_len = r - l, sl_cap = sl_cap s - l\<rparr>
       else Inl (Assert_failed ''builtin.c'' 171)) \<and>
    (\<forall>t. slice_left_right s l r = Inr t \<longrightarrow> slice_ok t \<and>
       slice_bytes m t = drop (unat l) (take (unat r) (ld_bytes m (sl_base s) (unat (sl_cap s)))))"
  using slice_left_right_ok[OF assms] by (auto simp: slice_left_right_def)

theorem slice_left_right_part_witness:
  "slice_left_right \<lparr>sl_base = 100, sl_len = 4, sl_cap = 8\<rparr> 2 6 =
     Inr \<lparr>sl_base = 102, sl_len = 4, sl_cap = 6\<rparr> \<and>
   slice_bytes (\<lambda>a. ucast a) \<lparr>sl_base = 102, sl_len = 4, sl_cap = 6\<rparr> =
     drop 2 (take 6 (ld_bytes (\<lambda>a. ucast a) 100 8))"
  using slice_left_right_part[of "\<lparr>sl_base = 100, sl_len = 4, sl_cap = 8\<rparr>" 2 6 "\<lambda>a. ucast a"]
  by (simp add: slice_ok_def)

text \<open>
  Writing a terminated string into a slice copies the bytes before the terminator, as many as
  the length of the slice has room for, and returns their number; the string may overlap the
  slice.
\<close>

theorem c_string_in_slice_copies:
  assumes "cstr_at m p bs" and "slice_ok s" and "unat p + length bs \<le> 2 ^ 64"
  defines "out \<equiv> take (unat (sl_len s)) bs"
  shows "c_string_in_slice m s p = Inr (of_nat (length out), st_bytes m (sl_base s) out)"
proof -
  let ?n = "of_nat (length bs) :: u64"
  have n: "unat ?n = length bs" using assms(1) by (intro unat_of_nat_less) (simp add: cstr_at_def)
  have len: "length out = min (unat (sl_len s)) (length bs)" by (simp add: out_def)
  have "unat (min (sl_len s) ?n) = length out" using n len by (simp add: min_def word_le_nat_alt)
  then have w: "min (sl_len s) ?n = of_nat (length out)" by (simp flip: \<open>unat (min (sl_len s) ?n) = length out\<close>)
  have "bs = ld_bytes m p (length bs)" using assms(1) by (simp add: cstr_at_def)
  then have "ld_bytes m p (min (unat (sl_len s)) (length bs)) = out"
    using ld_bytes_sub[of 0 "min (unat (sl_len s)) (length bs)" "length bs" m p]
    by (simp add: out_def min_def split: if_splits)
  moreover have "unat (sl_base s) + min (unat (sl_len s)) (length bs) \<le> 2 ^ 64"
    "unat p + min (unat (sl_len s)) (length bs) \<le> 2 ^ 64"
    using assms(2,3) by (simp_all add: slice_ok_def word_le_nat_alt min_def)
  ultimately have "string_in_slice m s (unsafe_string p ?n) = (of_nat (length out), st_bytes m (sl_base s) out)"
    using string_in_slice_spec[of s "unsafe_string p ?n" m] by (simp add: unsafe_string_def n w)
  then show ?thesis
    by (simp add: c_string_in_slice_def unsafe_c_string_def c_strlen_cstr_at[OF assms(1)])
qed

theorem c_string_in_slice_copies_witness:
  "c_string_in_slice (\<lambda>a. if a = 102 then 0 else 7) \<lparr>sl_base = 200, sl_len = 1, sl_cap = 8\<rparr> 100 =
   Inr (1, st_bytes (\<lambda>a. if a = 102 then 0 else 7) 200 [7])"
  using c_string_in_slice_copies[of "\<lambda>a. if a = 102 then 0 else 7" 100 "[7, 7]"
      "\<lparr>sl_base = 200, sl_len = 1, sl_cap = 8\<rparr>"]
  by (simp add: cstr_at_def slice_ok_def ld_bytes_def)

text \<open>A slice inside another: well formed, and its capacity is memory of the other.\<close>

definition slice_within :: "slice \<Rightarrow> slice \<Rightarrow> bool" where
  "slice_within t s \<longleftrightarrow> slice_ok t \<and> span (sl_base t) (unat (sl_cap t)) \<subseteq> span (sl_base s) (unat (sl_cap s))"

lemma slice_left_span:
  assumes "l \<le> sl_cap s"
  shows "span (sl_base s + l) (unat (sl_cap s - l)) \<subseteq> span (sl_base s) (unat (sl_cap s))"
proof (rule span_sub)
  show "unat l + unat (sl_cap s - l) \<le> unat (sl_cap s)" using unat_minus_add_le[OF assms] by simp
  show "unat (sl_cap s) \<le> 2 ^ 64" by (rule less_imp_le[OF unat_lt_2p64])
qed

lemma slice_left_cases:
  assumes s: "slice_ok s" and l: "l \<le> sl_cap s"
  shows "slice_ok (slice_left s l) \<longleftrightarrow> l \<le> sl_len s"
    and "l \<le> sl_len s \<Longrightarrow> slice_within (slice_left s l) s"
proof -
  have u: "unat l + unat (sl_cap s - l) = unat (sl_cap s)" using unat_minus_add_le[OF l] by simp
  have ok: "slice_ok (slice_left s l)" if le: "l \<le> sl_len s"
    using slice_left_right_ok(1)[OF s le] s le by (simp add: slice_left_def slice_ok_def)
  moreover have "\<not> slice_ok (slice_left s l)" if lt: "\<not> l \<le> sl_len s"
  proof -
    have "sl_len s < l" using lt by simp
    from unat_minus_add_wrap[OF this] u unat_lt_2p64[of "sl_cap s"]
    have "unat (sl_cap s - l) < unat (sl_len s - l)" by linarith
    then show ?thesis by (simp add: slice_ok_def slice_left_def word_le_nat_alt)
  qed
  ultimately show "slice_ok (slice_left s l) \<longleftrightarrow> l \<le> sl_len s" by blast
  from slice_left_span[OF l] show "slice_within (slice_left s l) s" if "l \<le> sl_len s"
    using ok[OF that] by (simp add: slice_within_def slice_left_def)
qed

text \<open>
  C28: Well-formedness of slices is a type that the operations keep: whatever a cut on the left, on
  the right or on both sides returns for bounds in order is well formed and stays in the memory of
  the slice it was cut from, and so does the way over a string and back. The one unchecked case is
  a cut on the left beyond the length: its result is not well formed, and nothing is asserted.
\<close>

theorem slices_well_formed:
  assumes "slice_ok s" and "l \<le> sl_cap s"
  shows "(if l \<le> sl_len s then slice_within (slice_left s l) s else \<not> slice_ok (slice_left s l)) \<and>
    (case slice_right s r of Inl h \<Rightarrow> sl_cap s < r | Inr t \<Rightarrow> slice_within t s \<and> sl_len t = r) \<and>
    (l \<le> r \<longrightarrow> (case slice_left_right s l r of Inl h \<Rightarrow> sl_cap s < r
       | Inr t \<Rightarrow> slice_within t s \<and> sl_len t = r - l)) \<and>
    slice_within (get_slice (get_string s)) s"
proof (intro conjI impI)
  show "if l \<le> sl_len s then slice_within (slice_left s l) s else \<not> slice_ok (slice_left s l)"
    using slice_left_cases[OF assms] by simp
  show "case slice_right s r of Inl h \<Rightarrow> sl_cap s < r | Inr t \<Rightarrow> slice_within t s \<and> sl_len t = r"
    using assms(1) by (auto simp: slice_right_def slice_within_def slice_ok_def)
  have "span (sl_base s) (unat (sl_len s)) \<subseteq> span (sl_base s) (unat (sl_cap s))"
    using assms(1) by (intro span_mono) (simp add: slice_ok_def word_le_nat_alt)
  then show "slice_within (get_slice (get_string s)) s"
    using assms(1) by (auto simp: slice_within_def get_slice_def get_string_def slice_ok_def word_le_nat_alt)
  assume "l \<le> r"
  show "case slice_left_right s l r of Inl h \<Rightarrow> sl_cap s < r | Inr t \<Rightarrow> slice_within t s \<and> sl_len t = r - l"
  proof (cases "r \<le> sl_cap s")
    case True
    from slice_left_span[OF assms(2)] True slice_left_right_ok(1)[OF assms(1) \<open>l \<le> r\<close>] show ?thesis
      by (simp add: slice_left_right_def slice_within_def)
  qed (simp add: slice_left_right_def)
qed

theorem slices_well_formed_witness:
  "slice_within (slice_left \<lparr>sl_base = 100, sl_len = 4, sl_cap = 8\<rparr> 3) \<lparr>sl_base = 100, sl_len = 4, sl_cap = 8\<rparr> \<and>
   \<not> slice_ok (slice_left \<lparr>sl_base = 100, sl_len = 4, sl_cap = 8\<rparr> 5)"
  using slices_well_formed[of "\<lparr>sl_base = 100, sl_len = 4, sl_cap = 8\<rparr>" 3 6]
    slices_well_formed[of "\<lparr>sl_base = 100, sl_len = 4, sl_cap = 8\<rparr>" 5 6]
  by (simp add: slice_ok_def)

end
