(* ===== verification/Decimal.thy ===== *)
theory Decimal
  imports Builtin
begin

text \<open>
  What \<^verbatim>\<open>int_in_slice\<close> and \<^verbatim>\<open>c_strncpy\<close> write: the decimal numeral of the
  argument, cut off at the capacity of the slice; the source string, cut off before the end
  of the destination. The locale \<open>writer\<close> is the contract that all the functions
  writing into a slice share, and the way the program composes them.
\<close>

section \<open>Decimal numerals\<close>

fun digits10 :: "nat \<Rightarrow> nat list" where
  "digits10 n = (if n < 10 then [n] else digits10 (n div 10) @ [n mod 10])"

declare digits10.simps [simp del]

definition char_digit :: "nat \<Rightarrow> u8" where
  "char_digit d = of_nat d + 48"

definition dec_nat :: "nat \<Rightarrow> u8 list" where
  "dec_nat n = map char_digit (digits10 n)"

definition dec_int :: "int \<Rightarrow> u8 list" where
  "dec_int x = (if x < 0 then 45 # dec_nat (nat (- x)) else dec_nat (nat x))"

text \<open>Digits with the least significant one first.\<close>

fun lsd :: "nat \<Rightarrow> nat list" where
  "lsd n = (if n = 0 then [] else n mod 10 # lsd (n div 10))"

declare lsd.simps [simp del]

lemma lsd_0 [simp]: "lsd 0 = []"
  by (simp add: lsd.simps)

lemma digits10_lsd: "0 < n \<Longrightarrow> digits10 n = rev (lsd n)"
proof (induction n rule: digits10.induct)
  case (1 n)
  then show ?case
    by (cases "n < 10") (simp_all add: digits10.simps[of n] lsd.simps[of n])
qed

lemma length_lsd_le: "n < 10 ^ k \<Longrightarrow> length (lsd n) \<le> k"
proof (induction k arbitrary: n)
  case (Suc k)
  have "n div 10 < 10 ^ k" using Suc.prems by (simp add: less_mult_imp_div_less mult.commute)
  then show ?case using Suc.IH by (simp add: lsd.simps[of n])
qed simp

lemma lsd_digits: "\<forall>d \<in> set (lsd n). d < 10"
  by (induction n rule: lsd.induct) (subst lsd.simps, auto)

definition horner :: "nat \<Rightarrow> nat list \<Rightarrow> nat" where
  "horner r ds = foldl (\<lambda>r d. 10 * r + d) r ds"

lemma horner_snoc: "horner r (ds @ [d]) = 10 * horner r ds + d"
  by (simp add: horner_def)

lemma horner_bound: "\<forall>d \<in> set ds. d < 10 \<Longrightarrow> horner 0 ds < 10 ^ length ds"
proof (induction ds rule: rev_induct)
  case (snoc d ds)
  then have "horner 0 ds < 10 ^ length ds" "d < 10" by auto
  then show ?case by (simp add: horner_snoc)
qed (simp add: horner_def)

lemma reverse_digits_horner:
  "reverse_digits (int n) (of_nat r) k = (of_nat (horner r (lsd n)), k + length (lsd n))"
proof (induction n arbitrary: r k rule: lsd.induct)
  case (1 n)
  show ?case
  proof (cases "n = 0")
    case True
    then show ?thesis by (simp add: reverse_digits.simps[of 0] horner_def)
  next
    case False
    have "10 * of_nat r + of_int (int n mod 10) = (of_nat (10 * r + n mod 10) :: u64)"
      by (simp add: zmod_int[of n 10, simplified, symmetric])
    then have "reverse_digits (int n) (of_nat r) k =
        reverse_digits (int (n div 10)) (of_nat (10 * r + n mod 10)) (k + 1)"
      using False by (simp add: reverse_digits.simps[of "int n"] zdiv_int)
    then show ?thesis
      using "1.IH"[OF False, of "10 * r + n mod 10" "k + 1"] False
      by (simp add: lsd.simps[of n] horner_def)
  qed
qed

fun emitted :: "nat \<Rightarrow> nat \<Rightarrow> nat list" where
  "emitted 0 r = []"
| "emitted (Suc n) r = r mod 10 # emitted n (r div 10)"

lemma emitted_horner: "\<forall>d \<in> set ds. d < 10 \<Longrightarrow> emitted (length ds) (horner 0 ds) = rev ds"
  by (induction ds rule: rev_induct) (auto simp: horner_snoc)

lemma length_emitted [simp]: "length (emitted n r) = n"
  by (induction n arbitrary: r) auto

section \<open>Writing them\<close>

lemma st_bytes_Cons:
  assumes "length bs < 2 ^ 64"
  shows "st_bytes (m(a := b)) (a + 1) bs = st_bytes m a (b # bs)"
proof -
  have "m(a := b) = st_bytes m a [b]"
    by (rule ext) (auto simp: st_bytes_def unat_eq_zero)
  then show ?thesis using st_bytes_append[of "[b]" bs m a] assms by simp
qed

lemma char_of_word:
  assumes "r < 2 ^ 64"
  shows "(ucast ((of_nat r :: u64) mod 10 + 48) :: u8) = char_digit (r mod 10)"
proof -
  have "(of_nat r :: u64) mod 10 = of_nat (r mod 10)"
    using assms by (simp add: word_unat_eq_iff unat_mod_distrib unat_of_nat_less)
  then have "(of_nat r :: u64) mod 10 + 48 = of_nat (r mod 10 + 48)" by simp
  moreover have "take_bit 64 (r mod 10 + 48) = r mod 10 + 48"
    by (rule take_bit_nat_eq_self) (rule less_trans[of _ 58], simp_all)
  ultimately have "ucast ((of_nat r :: u64) mod 10 + 48) = (of_nat (r mod 10 + 48) :: u8)"
    by (simp only: unsigned_of_nat) simp
  then show ?thesis by (simp add: char_digit_def)
qed

lemma div_word10: "r < 2 ^ 64 \<Longrightarrow> (of_nat r :: u64) div 10 = of_nat (r div 10)"
  by (simp add: word_unat_eq_iff unat_div_distrib unat_of_nat_less div_le_dividend le_less_trans)

lemma write_digits_spec:
  assumes "i \<le> bound" and "r < 2 ^ 64"
  shows "write_digits n m buf bound (of_nat r) i =
    (let k = min n (unat (bound - i))
     in (i + of_nat k, st_bytes m (buf + i) (take k (map char_digit (emitted n r)))))"
  using assms
proof (induction n arbitrary: m i r)
  case (Suc n)
  show ?case
  proof (cases "bound - i = 0")
    case False
    let ?j = "unat (bound - (i + 1))"
    have b: "unat (bound - i) = Suc ?j"
      using unat_pred[OF False] unat_gt_0[of "bound - i"] False by (simp add: algebra_simps)
    have i: "i + 1 \<le> bound"
      using Suc.prems(1) False by (metis eq_iff_diff_eq_0 inc_le order_le_less)
    let ?k = "min n ?j"
    have "?k < 2 ^ 64" by (rule le_less_trans[of _ ?j]) simp_all
    then have st: "st_bytes (m(buf + i := c)) (buf + (i + 1)) (take ?k (map char_digit (emitted n r'))) =
       st_bytes m (buf + i) (c # take ?k (map char_digit (emitted n r')))" for c r'
      using st_bytes_Cons[of "take ?k (map char_digit (emitted n r'))" m "buf + i" c]
      by (simp add: add.assoc)
    have r: "r div 10 < 2 ^ 64" using Suc.prems(2) by simp
    show ?thesis
      using Suc.IH[OF i r] Suc.prems(2) False
      by (simp add: Let_def b char_of_word div_word10 st add.assoc)
  qed simp
qed simp

text \<open>The digits of a 64-bit value, reversed, still fit into 64 bits.\<close>

lemma horner_lsd_fits:
  assumes "n < 2 ^ 63"
  shows "horner 0 (lsd n) < 2 ^ 64" and "length (lsd n) \<le> 19"
proof -
  show l: "length (lsd n) \<le> 19" using assms by (intro length_lsd_le) simp
  have "horner 0 (lsd n) < 10 ^ length (lsd n)" by (rule horner_bound[OF lsd_digits])
  also have "\<dots> \<le> 10 ^ 19" using l by (rule power_increasing) simp
  finally show "horner 0 (lsd n) < 2 ^ 64" by simp
qed

lemma write_number:
  assumes "0 < n" and "n < 2 ^ 63" and "i \<le> bound"
  shows "(case reverse_digits (int n) 0 0 of (rx, k) \<Rightarrow> write_digits k m buf bound rx i) =
    (let bs = take (unat (bound - i)) (dec_nat n)
     in (i + of_nat (length bs), st_bytes m (buf + i) bs))"
proof -
  have len: "length (dec_nat n) = length (lsd n)"
    by (simp add: dec_nat_def digits10_lsd[OF assms(1)])
  have e: "map char_digit (emitted (length (lsd n)) (horner 0 (lsd n))) = dec_nat n"
    by (simp add: emitted_horner[OF lsd_digits] dec_nat_def digits10_lsd[OF assms(1)])
  have tk: "take (min (length (lsd n)) j) (dec_nat n) = take j (dec_nat n)" for j
    using len by (simp add: min_def)
  show ?thesis
    using reverse_digits_horner[of n 0 0]
      write_digits_spec[OF assms(3) horner_lsd_fits(1)[OF assms(2)], of "length (lsd n)" m buf]
    by (simp add: e tk len Let_def)
qed

lemma int_chars_spec:
  assumes "- (2 ^ 63) < x" and "x < 2 ^ 63"
  shows "int_chars m s x =
    (let bs = take (unat (sl_cap s)) (dec_int x) in (of_nat (length bs), st_bytes m (sl_base s) bs))"
proof -
  consider "sl_cap s = 0" | "sl_cap s \<noteq> 0" "x = 0" | "sl_cap s \<noteq> 0" "x > 0" | "sl_cap s \<noteq> 0" "x < 0"
    by linarith
  then show ?thesis
  proof cases
    case 2
    then have "unat (sl_cap s) = Suc (unat (sl_cap s) - 1)" using unat_gt_0[of "sl_cap s"] by linarith
    moreover have "dec_int 0 = [48]"
      by (simp add: dec_int_def dec_nat_def digits10.simps[of 0] char_digit_def)
    ultimately have "take (unat (sl_cap s)) (dec_int 0) = [48]" by (metis take_Suc_Cons take_Nil)
    moreover have "m(sl_base s := 48) = st_bytes m (sl_base s) [48]"
      using st_bytes_Cons[of "[]" m "sl_base s" 48] by simp
    ultimately show ?thesis using 2 by (simp add: int_chars_def)
  next
    case 3
    then have "int (nat x) = x" "0 < nat x" "nat x < 2 ^ 63" using assms by auto
    with write_number[of "nat x" 0 "sl_cap s" m "sl_base s"] 3 show ?thesis
      by (simp add: int_chars_def dec_int_def Let_def)
  next
    case 4
    let ?n = "nat (- x)" and ?m = "m(sl_base s := 45)"
    have n: "int ?n = - x" "0 < ?n" "?n < 2 ^ 63" using assms 4 by auto
    have one: "1 \<le> sl_cap s" using 4(1) by (metis inc_le le_numeral_extra(4) word_neq_0_conv add_0)
    have u: "unat (sl_cap s) = Suc (unat (sl_cap s - 1))"
      using unat_pred[OF 4(1)] unat_gt_0[of "sl_cap s"] 4(1) by simp
    let ?bs = "take (unat (sl_cap s - 1)) (dec_nat ?n)"
    have "length ?bs < 2 ^ 64" by (rule le_less_trans[of _ "unat (sl_cap s - 1)"]) simp_all
    from st_bytes_Cons[OF this] have "st_bytes ?m (sl_base s + 1) ?bs = st_bytes m (sl_base s) (45 # ?bs)" .
    with write_number[OF n(2,3) one, of ?m "sl_base s"] 4 n(1) u show ?thesis
      by (simp add: int_chars_def dec_int_def Let_def add.commute)
  qed (simp add: int_chars_def)
qed

section \<open>Composing writers\<close>

text \<open>
  The program builds its messages with the idiom
  \<^verbatim>\<open>n += f(slice_left(s, n), ...)\<close> and \<^verbatim>\<open>buf[n++] = c\<close>: the state is the
  count of the bytes written so far with the memory. \<open>built m base bs\<close> is that state
  when exactly \<open>bs\<close> has been written at \<open>base\<close>.
\<close>

definition put_char :: "u64 \<Rightarrow> u8 \<Rightarrow> u64 \<times> mem \<Rightarrow> u64 \<times> mem" where
  "put_char buf c = (\<lambda>(n, m). (n + 1, m(buf + n := c)))"

definition append_write ::
  "('a \<Rightarrow> mem \<Rightarrow> slice \<Rightarrow> u64 \<times> mem) \<Rightarrow> slice \<Rightarrow> 'a \<Rightarrow> u64 \<times> mem \<Rightarrow> u64 \<times> mem" where
  "append_write wr s x = (\<lambda>(n, m). let (k, m) = wr x m (slice_left s n) in (n + k, m))"

text \<open>
  A number appended to a message is a field of a time, an \<^verbatim>\<open>int\<close>, for which
  \<^verbatim>\<open>int_in_slice\<close> always returns (\<open>int_in_slice_int\<close>).
\<close>

definition write_int :: "int \<Rightarrow> mem \<Rightarrow> slice \<Rightarrow> u64 \<times> mem" where
  "write_int x m s = int_chars m s x"

definition write_nstring :: "u64 \<times> u64 \<Rightarrow> mem \<Rightarrow> slice \<Rightarrow> u64 \<times> mem" where
  "write_nstring = (\<lambda>(p, len) m s. c_nstring_in_slice m s p len)"

definition built :: "mem \<Rightarrow> u64 \<Rightarrow> u8 list \<Rightarrow> u64 \<times> mem" where
  "built m base bs = (of_nat (length bs), st_bytes m base bs)"

lemma built_Nil: "(0, m) = built m base []"
  by (simp add: built_def)

lemma put_char_built:
  "length bs < 2 ^ 64 \<Longrightarrow> put_char base c (built m base bs) = built m base (bs @ [c])"
  using st_bytes_append[of bs "[c]" m base] st_bytes_Cons[of "[]" "st_bytes m base bs" _ c]
  by (simp add: put_char_def built_def)

definition put_chars :: "u64 \<Rightarrow> string \<Rightarrow> u64 \<times> mem \<Rightarrow> u64 \<times> mem" where
  "put_chars buf cs st = fold (put_char buf) (bytes_of cs) st"

definition append_c_string :: "slice \<Rightarrow> u64 \<Rightarrow> u64 \<times> mem \<Rightarrow> halt + u64 \<times> mem" where
  "append_c_string s p = (\<lambda>(n, m).
    andthen (c_string_in_slice m (slice_left s n) p) (\<lambda>(k, m). Inr (n + k, m)))"

lemma put_chars_built:
  "length bs + length cs \<le> 2 ^ 64 \<Longrightarrow>
   put_chars base cs (built m base bs) = built m base (bs @ bytes_of cs)"
proof (induction cs arbitrary: bs)
  case (Cons c cs)
  then show ?case using Cons.IH[of "bs @ [of_char c]"] by (simp add: put_chars_def put_char_built)
qed (simp add: put_chars_def)

lemma unat_left_cap:
  assumes "n \<le> unat (c :: u64)"
  shows "unat (c - of_nat n) = unat c - n"
proof -
  have "unat (of_nat n :: u64) = n" using assms unat_lt_2p64[of c] by (intro unat_of_nat_less) linarith
  then show ?thesis using assms by (subst unat_minus_of_le) (simp_all add: word_le_nat_alt)
qed

text \<open>A terminated string is appended up to its terminator, and cut at the end of the slice.\<close>

lemma append_c_string_built:
  assumes "cstr_at (st_bytes m (sl_base s) bs) p xs"
    and "length bs + length xs \<le> unat (sl_len s)" and "sl_len s = sl_cap s"
    and "unat (sl_base s) + unat (sl_len s) \<le> 2 ^ 64" and "unat p + length xs \<le> 2 ^ 64"
  shows "append_c_string s p (built m (sl_base s) bs) = Inr (built m (sl_base s) (bs @ xs))"
proof -
  let ?m = "st_bytes m (sl_base s) bs" and ?s = "slice_left s (of_nat (length bs))"
  have x: "unat (of_nat (length xs) :: u64) = length xs"
    using assms(1) by (intro unat_of_nat_less) (simp add: cstr_at_def)
  have b: "unat (of_nat (length bs) :: u64) = length bs"
    using assms(2) unat_lt_2p64[of "sl_len s"] by (intro unat_of_nat_less) linarith
  have l: "unat (sl_len ?s) = unat (sl_len s) - length bs"
    using unat_left_cap[of "length bs" "sl_len s"] assms(2) by (simp add: slice_left_def)
  have base: "unat (sl_base ?s) + length xs \<le> 2 ^ 64"
  proof (cases "length xs = 0")
    case True
    then show ?thesis by (simp add: less_imp_le)
  next
    case False
    then have "unat (sl_base s) + length bs < 2 ^ 64" using assms(2,4) by linarith
    then have "unat (sl_base ?s) = unat (sl_base s) + length bs"
      using unat_plus_less[of "sl_base s" "of_nat (length bs)"] b by (simp add: slice_left_def)
    then show ?thesis using assms(2,4) by simp
  qed
  have le: "length xs \<le> unat (sl_len ?s)" using l assms(2) by simp
  then have mn: "min (unat (sl_len ?s)) (length xs) = length xs" by simp
  have "min (sl_len ?s) (of_nat (length xs)) = of_nat (length xs)"
    using x le by (simp add: min_def word_le_nat_alt word_unat_eq_iff)
  moreover have "ld_bytes ?m p (length xs) = xs" using assms(1) by (simp add: cstr_at_def)
  ultimately have "string_in_slice ?m ?s (unsafe_string p (of_nat (length xs))) =
      (of_nat (length xs), st_bytes ?m (sl_base ?s) xs)"
    using string_in_slice_spec[of ?s "unsafe_string p (of_nat (length xs))" ?m] base assms(5) x mn
    by (simp add: unsafe_string_def)
  moreover have "length bs + length xs \<le> 2 ^ 64" using assms(2) unat_lt_2p64[of "sl_len s"] by linarith
  from st_bytes_append[OF this, of m "sl_base s"]
  have "st_bytes ?m (sl_base ?s) xs = st_bytes m (sl_base s) (bs @ xs)" by (simp add: slice_left_def)
  ultimately show ?thesis
    using c_strlen_cstr_at[OF assms(1)]
    by (simp add: append_c_string_def built_def c_string_in_slice_def unsafe_c_string_def)
qed

text \<open>
  The contract of a writer: when it is \<open>ready\<close> (the output fits into the slice and
  does not wrap), it writes its output at the base of the slice and returns its length.
\<close>

locale slice_writer =
  fixes wr :: "'a \<Rightarrow> mem \<Rightarrow> slice \<Rightarrow> u64 \<times> mem"
    and out :: "'a \<Rightarrow> mem \<Rightarrow> u8 list"
    and ready :: "'a \<Rightarrow> mem \<Rightarrow> slice \<Rightarrow> bool"
  assumes writes: "ready x m s \<Longrightarrow> wr x m s = built m (sl_base s) (out x m)"
begin

lemma append_built:
  assumes "ready x (st_bytes m (sl_base s) bs) (slice_left s (of_nat (length bs)))"
    and "out x (st_bytes m (sl_base s) bs) = xs" and "length bs + length xs \<le> 2 ^ 64"
  shows "append_write wr s x (built m (sl_base s) bs) = built m (sl_base s) (bs @ xs)"
  using writes[OF assms(1)] assms(2) st_bytes_append[OF assms(3), of m "sl_base s"]
  by (simp add: append_write_def built_def slice_left_def)

lemma first_built: "ready x m s \<Longrightarrow> out x m = xs \<Longrightarrow> wr x m s = built m (sl_base s) xs"
  by (simp add: writes)

end

interpretation ints: slice_writer write_int "\<lambda>x m. dec_int x"
  "\<lambda>x m s. - (2 ^ 63) < x \<and> x < 2 ^ 63 \<and> length (dec_int x) \<le> unat (sl_cap s)"
  by unfold_locales (simp add: write_int_def int_chars_spec built_def Let_def)

interpretation strs: slice_writer write_nstring "\<lambda>(p, len) m. ld_bytes m p (unat len)"
  "\<lambda>(p, len) m s. len \<le> sl_len s \<and> unat (sl_base s) + unat len \<le> 2 ^ 64 \<and> unat p + unat len \<le> 2 ^ 64"
  by unfold_locales
    (auto simp: write_nstring_def c_nstring_in_slice_def unsafe_string_def string_in_slice_spec built_def
      word_le_nat_alt min_def word_unat_eq_iff)

section \<open>Two-digit numbers\<close>

definition two_digits :: "int \<Rightarrow> u8 list" where
  "two_digits x = [char_digit (nat x div 10), char_digit (nat x mod 10)]"

lemma dec_int_small:
  "0 \<le> x \<Longrightarrow> x < 10 \<Longrightarrow> dec_int x = [char_digit (nat x)]"
  "10 \<le> x \<Longrightarrow> x < 100 \<Longrightarrow> dec_int x = two_digits x"
proof -
  show "0 \<le> x \<Longrightarrow> x < 10 \<Longrightarrow> dec_int x = [char_digit (nat x)]"
    by (simp add: dec_int_def dec_nat_def digits10.simps[of "nat x"] nat_less_iff)
  assume x: "10 \<le> x" "x < 100"
  then have "nat x div 10 < 10" by linarith
  then show "dec_int x = two_digits x"
    using x by (simp add: dec_int_def dec_nat_def two_digits_def digits10.simps[of "nat x"]
        digits10.simps[of "nat x div 10"])
qed

lemma two_digits_pad: "0 \<le> x \<Longrightarrow> x < 10 \<Longrightarrow> two_digits x = 48 # dec_int x"
  by (simp add: dec_int_small two_digits_def char_digit_def)

lemma length_two_digits [simp]: "length (two_digits x) = 2"
  by (simp add: two_digits_def)

text \<open>The idiom that pads a number below 10 with a zero.\<close>

definition put_padded :: "slice \<Rightarrow> int \<Rightarrow> u64 \<times> mem \<Rightarrow> u64 \<times> mem" where
  "put_padded s x st =
    (let st = (if x < 10 then put_char (sl_base s) 48 st else st)
     in append_write write_int s x st)"

lemma put_int_built [text_built]:
  assumes "length bs + length (dec_int x) \<le> unat (sl_cap s)" and "- (2 ^ 63) < x" "x < 2 ^ 63"
  shows "append_write write_int s x (built m (sl_base s) bs) = built m (sl_base s) (bs @ dec_int x)"
proof (rule ints.append_built)
  have lt: "unat (sl_cap s) < 2 ^ 64" by simp
  have "unat (sl_cap s - of_nat (length bs)) = unat (sl_cap s) - length bs"
    using assms(1) by (intro unat_left_cap) simp
  then show "- (2 ^ 63) < x \<and> x < 2 ^ 63 \<and>
      length (dec_int x) \<le> unat (sl_cap (slice_left s (of_nat (length bs))))"
    using assms by (simp add: slice_left_def)
  show "length bs + length (dec_int x) \<le> 2 ^ 64" using assms(1) lt by linarith
qed simp

lemma put_padded_built [text_built]:
  assumes "0 \<le> x" "x < 100" "length bs + 2 \<le> unat (sl_cap s)"
  shows "put_padded s x (built m (sl_base s) bs) = built m (sl_base s) (bs @ two_digits x)"
proof (cases "x < 10")
  case True
  have "length bs < 2 ^ 64" using assms(3) unat_lt_2p64[of "sl_cap s"] by linarith
  from put_char_built[OF this] show ?thesis
    using assms True put_int_built[of "bs @ [48]" x s]
    by (simp add: put_padded_def two_digits_pad dec_int_small)
next
  case False
  then show ?thesis
    using assms put_int_built[of bs x s] by (simp add: put_padded_def dec_int_small)
qed

lemma put_chars_slice [text_built]:
  "length bs + length cs \<le> unat (sl_cap s) \<Longrightarrow>
   put_chars (sl_base s) cs (built m (sl_base s) bs) = built m (sl_base s) (bs @ bytes_of cs)"
  using unat_lt_2p64[of "sl_cap s"] by (intro put_chars_built) linarith

section \<open>Messages\<close>

text \<open>
  A message is built in a small array from strings that lie outside of it; the bytes already
  written may also have been left there by an earlier call.
\<close>

lemma built_from: "ld_bytes m base (length bs) = bs \<Longrightarrow> (of_nat (length bs), m) = built m base bs"
  using st_bytes_ld_bytes_same[of m base "length bs"] by (simp add: built_def)

lemma built_mem: "length bs \<le> 2 ^ 64 \<Longrightarrow> ld_bytes (snd (built m base bs)) base (length bs) = bs"
  by (simp add: built_def ld_bytes_st_bytes_same)

lemma sl_unsafe [simp]: "sl_base (unsafe_slice b n) = b" "sl_len (unsafe_slice b n) = n"
  "sl_cap (unsafe_slice b n) = n"
  by (simp_all add: unsafe_slice_def)

lemma append_nstring:
  assumes cap: "length bs + n \<le> cap" "unat base + cap \<le> 2 ^ 47" and src: "unat p + n \<le> 2 ^ 64"
    and apart: "span p n \<inter> span base cap = {}" and xs: "ld_bytes m p n = xs"
  shows "append_write write_nstring (unsafe_slice base (of_nat cap)) (p, of_nat n) (built m base bs) =
    built m base (bs @ xs)"
proof -
  let ?s = "unsafe_slice base (of_nat cap)"
  have u: "unat (of_nat cap :: u64) = cap" "unat (of_nat n :: u64) = n"
    "unat (of_nat (length bs) :: u64) = length bs"
    using cap by (simp_all add: unat_of_nat_less)
  have left: "unat (sl_len (slice_left ?s (of_nat (length bs)))) = cap - length bs"
    using unat_left_cap[of "length bs" "of_nat cap"] cap u by (simp add: slice_left_def)
  have "unat (base + of_nat (length bs)) = unat base + length bs"
    using cap u by (subst unat_plus_less) simp_all
  then have base: "unat (sl_base (slice_left ?s (of_nat (length bs)))) = unat base + length bs"
    by (simp add: slice_left_def)
  have bs: "length bs \<le> cap" using cap(1) by simp
  have "span p n \<inter> span base (length bs) = {}" using apart span_mono[OF bs, of base] by blast
  moreover have "n \<le> 2 ^ 64" using cap by simp
  ultimately have "ld_bytes (st_bytes m base bs) p n = ld_bytes m p n"
    by (rule only_ld_bytes[OF only_st_bytes])
  then have keep: "ld_bytes (st_bytes m base bs) p n = xs" by (simp only: xs)
  have len: "length xs = n" using xs by auto
  have fit: "of_nat n \<le> sl_len (slice_left ?s (of_nat (length bs)))"
    unfolding word_le_nat_alt left u(2) using cap by linarith
  have "append_write write_nstring ?s (p, of_nat n) (built m (sl_base ?s) bs) =
      built m (sl_base ?s) (bs @ xs)"
    by (rule strs.append_built) (use src cap len keep fit base u(2) in auto)
  then show ?thesis by simp
qed

lemma first_nstring:
  assumes "n \<le> cap" "unat base + cap \<le> 2 ^ 47" "unat p + n \<le> 2 ^ 64"
    and "span p n \<inter> span base cap = {}" and "ld_bytes m p n = xs"
  shows "c_nstring_in_slice m (unsafe_slice base (of_nat cap)) p (of_nat n) = built m base xs"
  using append_nstring[of "[]" n cap base p m xs] assms
  by (simp add: append_write_def built_def write_nstring_def slice_left_def unsafe_slice_def split_def)

lemma first_c_string:
  assumes "cstr_at m p xs" "length xs \<le> cap" "unat base + cap \<le> 2 ^ 47" "unat p + length xs \<le> 2 ^ 64"
  shows "c_string_in_slice m (unsafe_slice base (of_nat cap)) p = Inr (built m base xs)"
proof -
  have "unat (of_nat cap :: u64) = cap" using assms(3) by (simp add: unat_of_nat_less)
  then have "append_c_string (unsafe_slice base (of_nat cap)) p (built m base []) = Inr (built m base xs)"
    using append_c_string_built[of m "unsafe_slice base (of_nat cap)" "[]" p xs] assms by simp
  then show ?thesis
    by (auto simp: append_c_string_def built_def slice_left_def unsafe_slice_def andthen_Inr_iff)
qed

section \<open>Properties\<close>

text \<open>Reading a numeral back, the reference for the round trip.\<close>

definition read_nat :: "u8 list \<Rightarrow> nat" where
  "read_nat bs = foldl (\<lambda>r b. 10 * r + (unat b - 48)) 0 bs"

definition read_int :: "u8 list \<Rightarrow> int" where
  "read_int bs = (if bs \<noteq> [] \<and> hd bs = 45 then - int (read_nat (tl bs)) else int (read_nat bs))"

lemma unat_char_digit: "d < 10 \<Longrightarrow> unat (char_digit d) = d + 48"
  by (simp add: char_digit_def unat_word_ariths unat_of_nat take_bit_nat_eq_self)

lemma read_nat_dec [simp]: "read_nat (dec_nat n) = n"
proof (induction n rule: digits10.induct)
  case (1 n)
  show ?case
  proof (cases "n < 10")
    case True
    then show ?thesis by (simp add: dec_nat_def digits10.simps[of n] read_nat_def unat_char_digit)
  next
    case False
    then have "read_nat (dec_nat n) = 10 * read_nat (dec_nat (n div 10)) + n mod 10"
      by (simp add: dec_nat_def digits10.simps[of n] read_nat_def unat_char_digit)
    then show ?thesis using "1.IH"[OF False] by simp
  qed
qed

lemma dec_nat_head: "dec_nat n \<noteq> [] \<and> hd (dec_nat n) \<noteq> 45"
proof (induction n rule: digits10.induct)
  case (1 n)
  show ?case
  proof (cases "n < 10")
    case True
    then have "unat (char_digit n) \<noteq> unat (45 :: u8)" by (simp add: unat_char_digit)
    then have "char_digit n \<noteq> 45" by auto
    then show ?thesis using True by (simp add: dec_nat_def digits10.simps[of n])
  next
    case False
    then show ?thesis using "1.IH"[OF False] by (simp add: dec_nat_def digits10.simps[of n])
  qed
qed

lemma read_int_dec: "read_int (dec_int x) = x"
  using dec_nat_head[of "nat x"] by (simp add: read_int_def dec_int_def)

text \<open>
  C26: a number written into a slice with room for it reads back as the same number, for every
  value of the type but the least one.
\<close>

theorem int_in_slice_roundtrip:
  assumes "- (2 ^ 63) < x" and "x < 2 ^ 63" and "length (dec_int x) \<le> unat (sl_cap s)"
  shows "\<exists>n m'. int_in_slice m s x = Inr (n, m') \<and> read_int (ld_bytes m' (sl_base s) (unat n)) = x"
proof -
  let ?n = "length (dec_int x)"
  have n: "?n < 2 ^ 64" using assms(3) unat_lt_2p64[of "sl_cap s"] by linarith
  have "int_in_slice m s x = Inr (of_nat ?n, st_bytes m (sl_base s) (dec_int x))"
    using int_chars_spec[OF assms(1,2), of m s] assms(1,3) by (simp add: int_in_slice_def Let_def)
  moreover have "unat (of_nat ?n :: u64) = ?n" by (rule unat_of_nat_less[OF n])
  ultimately show ?thesis using n by (simp add: ld_bytes_st_bytes_same read_int_dec)
qed

theorem int_in_slice_roundtrip_witness:
  "\<exists>n m'. int_in_slice (\<lambda>_. 0) \<lparr>sl_base = 100, sl_len = 0, sl_cap = 3\<rparr> (- 17) = Inr (n, m') \<and>
     read_int (ld_bytes m' 100 (unat n)) = - 17"
  using int_in_slice_roundtrip[of "- 17" "\<lparr>sl_base = 100, sl_len = 0, sl_cap = 3\<rparr>" "\<lambda>_. 0"]
  by (simp add: dec_int_def dec_nat_def digits10.simps)

text \<open>
  C27: for every value of the type the function returns, except for the least value in a slice with
  room, whose negation is undefined. What it has written when it returns is exactly the beginning of
  the numeral that fits into the capacity, the count is its length, and no byte outside the
  capacity has changed.
\<close>

theorem int_in_slice_bounded:
  assumes "- (2 ^ 63) \<le> x" and "x < 2 ^ 63"
  shows "case int_in_slice m s x of
      Inl h \<Rightarrow> h = Undefined \<and> x = - (2 ^ 63) \<and> sl_cap s \<noteq> 0
    | Inr (n, m') \<Rightarrow> n \<le> sl_cap s \<and> only (span (sl_base s) (unat (sl_cap s))) m m' \<and>
        ld_bytes m' (sl_base s) (unat n) = take (unat (sl_cap s)) (dec_int x)"
proof (cases "x = - (2 ^ 63)")
  case True
  then show ?thesis by (simp add: int_in_slice_def int_chars_def only_def)
next
  case False
  let ?bs = "take (unat (sl_cap s)) (dec_int x)"
  have le: "length ?bs \<le> unat (sl_cap s)" by simp
  then have lt: "length ?bs < 2 ^ 64" using unat_lt_2p64[of "sl_cap s"] by linarith
  then have u: "unat (of_nat (length ?bs) :: u64) = length ?bs" by (rule unat_of_nat_less)
  have "only (span (sl_base s) (length ?bs)) m (st_bytes m (sl_base s) ?bs)" by (rule only_st_bytes)
  then have "only (span (sl_base s) (unat (sl_cap s))) m (st_bytes m (sl_base s) ?bs)"
    by (rule only_mono) (rule span_mono[OF le])
  moreover have "(of_nat (length ?bs) :: u64) \<le> sl_cap s" unfolding word_le_nat_alt u by (rule le)
  moreover have "ld_bytes (st_bytes m (sl_base s) ?bs) (sl_base s) (length ?bs) = ?bs"
    using lt by (intro ld_bytes_st_bytes_same) simp
  moreover have "int_in_slice m s x = Inr (of_nat (length ?bs), st_bytes m (sl_base s) ?bs)"
    using int_chars_spec[of x m s] assms False by (simp add: int_in_slice_def Let_def)
  ultimately show ?thesis using u by (simp only: sum.case prod.case)
qed

theorem int_in_slice_bounded_witness:
  "case int_in_slice (\<lambda>_. 0) \<lparr>sl_base = 100, sl_len = 0, sl_cap = 2\<rparr> 12345 of
     Inl h \<Rightarrow> False
   | Inr (n, m') \<Rightarrow> n \<le> 2 \<and> only (span 100 2) (\<lambda>_. 0) m' \<and>
       ld_bytes m' 100 (unat n) = take 2 (dec_int 12345)"
  using int_in_slice_bounded[of 12345 "\<lparr>sl_base = 100, sl_len = 0, sl_cap = 2\<rparr>" "\<lambda>_. 0"]
  by (auto split: sum.splits)

text \<open>The copy of a string stops at its terminator or before the last byte of the destination.\<close>

lemma c_strncpy_loop_copies:
  assumes "cstr_at m0 src bs" and "span src (Suc (length bs)) \<inter> span dest len = {}"
    and "i + k < len" and "i \<le> length bs" and "len \<le> 2 ^ 64" and "m = st_bytes m0 dest (take i bs)"
  shows "c_strncpy_loop k m dest src i =
    (min (i + k) (length bs), st_bytes m0 dest (take (i + k) bs))"
  using assms(3,4,6)
proof (induction k arbitrary: i m)
  case (Suc k)
  have n: "Suc (length bs) \<le> 2 ^ 64" using assms(1) by (simp add: cstr_at_def)
  have "src + of_nat i \<in> span src (Suc (length bs))"
    using Suc.prems(2) n by (intro in_span_of_nat) simp_all
  then have out: "src + of_nat i \<notin> span dest (length (take i bs))"
    using assms(2) span_mono[of "length (take i bs)" len dest] Suc.prems by auto
  then have m: "m (src + of_nat i) = m0 (src + of_nat i)"
    using only_st_bytes[of dest "take i bs" m0] by (simp add: Suc.prems(3) only_def)
  show ?case
  proof (cases "i = length bs")
    case True
    then show ?thesis using m assms(1) Suc.prems(3) by (simp add: cstr_at_def)
  next
    case False
    then have i: "i < length bs" using Suc.prems(2) by simp
    note nth = cstr_at_nth[OF assms(1) i]
    have "length (take i bs) + length [bs ! i] \<le> 2 ^ 64" using i n by simp
    from st_bytes_append[OF this, of m0 dest] i
    have "m(dest + of_nat i := bs ! i) = st_bytes m0 dest (take (Suc i) bs)"
      using st_bytes_Cons[of "[]" m "dest + of_nat i" "bs ! i"]
      by (simp add: Suc.prems(3) take_Suc_conv_app_nth)
    then show ?thesis using Suc.IH[of "Suc i"] Suc.prems(1) i m nth by simp
  qed
qed simp

text \<open>
  C32: copying a string into an array that does not overlap it leaves a terminated string there,
  the longest prefix of the source that fits with its terminator, and returns its length; nothing
  else changes.
\<close>

theorem c_strncpy_copies:
  assumes "cstr_at m src bs" and "dest \<noteq> 0" and "0 < len" and "len \<le> 2 ^ 31"
    and "span src (Suc (length bs)) \<inter> span dest len = {}"
  defines "out \<equiv> take (len - 1) bs"
  shows "\<exists>m'. c_strncpy m dest src (int len) = (int (length out), m') \<and>
    cstr_at m' dest out \<and> only (span dest (Suc (length out))) m m' \<and> length out < len"
proof -
  let ?m = "st_bytes m dest out" and ?k = "length out"
  have k: "?k = min (len - 1) (length bs)" by (simp add: out_def)
  have n: "Suc ?k \<le> len" using assms(3) k by simp
  then have fit: "Suc ?k \<le> 2 ^ 64" using assms(4) by simp
  have "c_strncpy_loop (len - 1) m dest src 0 = (?k, ?m)"
    using c_strncpy_loop_copies[OF assms(1,5), of 0 "len - 1" m] assms(3,4) by (simp add: k out_def)
  moreover have "src \<noteq> 0" using assms(1) by (simp add: cstr_at_def)
  moreover have "nat (int len - 1) = len - 1" by simp
  ultimately have run: "c_strncpy m dest src (int len) = (int ?k, ?m(dest + of_nat ?k := 0))"
    using assms(2,3) by (simp only: c_strncpy_def) simp
  let ?m' = "?m(dest + of_nat ?k := 0)"
  have "?m' = st_bytes m dest (out @ [0])"
    using st_bytes_append[of out "[0]" m dest] st_bytes_Cons[of "[]" ?m "dest + of_nat ?k" 0] fit by simp
  moreover from this have "ld_bytes ?m' dest (Suc ?k) = out @ [0]"
    using ld_bytes_st_bytes_same[of "out @ [0]" m dest] fit by simp
  then have "ld_bytes ?m' dest ?k = out"
    using ld_bytes_sub[of 0 ?k "Suc ?k" ?m' dest] by simp
  moreover have "0 \<notin> set out" using assms(1) by (auto simp: out_def cstr_at_def dest: in_set_takeD)
  moreover have "?m' (dest + of_nat ?k) = 0" by simp
  ultimately show ?thesis
    using run only_st_bytes[of dest "out @ [0]" m] n assms(2,4)
    by (intro exI[of _ ?m']) (simp add: cstr_at_def)
qed

theorem c_strncpy_copies_witness:
  "\<exists>m'. c_strncpy (\<lambda>a. if a = 102 then 0 else 7) 200 100 2 = (1, m') \<and> cstr_at m' 200 [7]"
proof -
  have "span 100 (Suc (Suc (Suc 0))) \<inter> span (200 :: u64) 2 = {}"
    by (rule disj_spans) (simp add: disj_def)
  then show ?thesis
    using c_strncpy_copies[of "\<lambda>a. if a = 102 then 0 else 7" 100 "[7, 7]" 200 2]
    by (auto simp: cstr_at_def ld_bytes_def)
qed

end
