(* ===== verification/Syscall.thy ===== *)
theory Syscall
  imports Decimal
begin

text \<open>
  The system-call layer, \<^verbatim>\<open>lib/cfa/src/syscall.c\<close>, with the error table of
  \<^verbatim>\<open>lib/cfa/include/errno.h\<close>. The kernel is not part of the sources: it is the field
  \<open>kern\<close> of the platform, a function from the calls made so far (the latest one first) to
  the reply of the latest one, so the theorems hold for every kernel. \<open>kernel_ok\<close> states
  the documented behaviour that later components rely on.
\<close>

section \<open>The error table\<close>

record c_error =
  err_code :: int
  err_msg :: string

text \<open>The constants of \<^verbatim>\<open>errno.h\<close> in their order, aliases with their value.\<close>

definition errno_constants :: "(string \<times> int) list" where
  "errno_constants =
  [(''SUCCESS'', 0),
   (''EPERM'', 1),
   (''ENOENT'', 2),
   (''ESRCH'', 3),
   (''EINTR'', 4),
   (''EIO'', 5),
   (''ENXIO'', 6),
   (''E2BIG'', 7),
   (''ENOEXEC'', 8),
   (''EBADF'', 9),
   (''ECHILD'', 10),
   (''EAGAIN'', 11),
   (''ENOMEM'', 12),
   (''EACCES'', 13),
   (''EFAULT'', 14),
   (''ENOTBLK'', 15),
   (''EBUSY'', 16),
   (''EEXIST'', 17),
   (''EXDEV'', 18),
   (''ENODEV'', 19),
   (''ENOTDIR'', 20),
   (''EISDIR'', 21),
   (''EINVAL'', 22),
   (''ENFILE'', 23),
   (''EMFILE'', 24),
   (''ENOTTY'', 25),
   (''ETXTBSY'', 26),
   (''EFBIG'', 27),
   (''ENOSPC'', 28),
   (''ESPIPE'', 29),
   (''EROFS'', 30),
   (''EMLINK'', 31),
   (''EPIPE'', 32),
   (''EDOM'', 33),
   (''ERANGE'', 34),
   (''EDEADLK'', 35),
   (''ENAMETOOLONG'', 36),
   (''ENOLCK'', 37),
   (''ENOSYS'', 38),
   (''ENOTEMPTY'', 39),
   (''ELOOP'', 40),
   (''ENOMSG'', 42),
   (''EIDRM'', 43),
   (''ECHRNG'', 44),
   (''EL2NSYNC'', 45),
   (''EL3HLT'', 46),
   (''EL3RST'', 47),
   (''ELNRNG'', 48),
   (''EUNATCH'', 49),
   (''ENOCSI'', 50),
   (''EL2HLT'', 51),
   (''EBADE'', 52),
   (''EBADR'', 53),
   (''EXFULL'', 54),
   (''ENOANO'', 55),
   (''EBADRQC'', 56),
   (''EBADSLT'', 57),
   (''EDEADLOCK'', 35),
   (''EBFONT'', 59),
   (''ENOSTR'', 60),
   (''ENODATA'', 61),
   (''ETIME'', 62),
   (''ENOSR'', 63),
   (''ENONET'', 64),
   (''ENOPKG'', 65),
   (''EREMOTE'', 66),
   (''ENOLINK'', 67),
   (''EADV'', 68),
   (''ESRMNT'', 69),
   (''ECOMM'', 70),
   (''EPROTO'', 71),
   (''EMULTIHOP'', 72),
   (''EDOTDOT'', 73),
   (''EBADMSG'', 74),
   (''EOVERFLOW'', 75),
   (''ENOTUNIQ'', 76),
   (''EBADFD'', 77),
   (''EREMCHG'', 78),
   (''ELIBACC'', 79),
   (''ELIBBAD'', 80),
   (''ELIBSCN'', 81),
   (''ELIBMAX'', 82),
   (''ELIBEXEC'', 83),
   (''EILSEQ'', 84),
   (''ERESTART'', 85),
   (''ESTRPIPE'', 86),
   (''EUSERS'', 87),
   (''ENOTSOCK'', 88),
   (''EDESTADDRREQ'', 89),
   (''EMSGSIZE'', 90),
   (''EPROTOTYPE'', 91),
   (''ENOPROTOOPT'', 92),
   (''EPROTONOSUPPORT'', 93),
   (''ESOCKTNOSUPPORT'', 94),
   (''EOPNOTSUPP'', 95),
   (''EPFNOSUPPORT'', 96),
   (''EAFNOSUPPORT'', 97),
   (''EADDRINUSE'', 98),
   (''EADDRNOTAVAIL'', 99),
   (''ENETDOWN'', 100),
   (''ENETUNREACH'', 101),
   (''ENETRESET'', 102),
   (''ECONNABORTED'', 103),
   (''ECONNRESET'', 104),
   (''ENOBUFS'', 105),
   (''EISCONN'', 106),
   (''ENOTCONN'', 107),
   (''ESHUTDOWN'', 108),
   (''ETOOMANYREFS'', 109),
   (''ETIMEDOUT'', 110),
   (''ECONNREFUSED'', 111),
   (''EHOSTDOWN'', 112),
   (''EHOSTUNREACH'', 113),
   (''EALREADY'', 114),
   (''EINPROGRESS'', 115),
   (''ESTALE'', 116),
   (''EUCLEAN'', 117),
   (''ENOTNAM'', 118),
   (''ENAVAIL'', 119),
   (''EISNAM'', 120),
   (''EREMOTEIO'', 121),
   (''EDQUOT'', 122),
   (''ENOMEDIUM'', 123),
   (''EMEDIUMTYPE'', 124),
   (''ECANCELED'', 125),
   (''ENOKEY'', 126),
   (''EKEYEXPIRED'', 127),
   (''EKEYREVOKED'', 128),
   (''EKEYREJECTED'', 129),
   (''EOWNERDEAD'', 130),
   (''ENOTRECOVERABLE'', 131),
   (''ERFKILL'', 132),
   (''EHWPOISON'', 133),
   (''UNKNOWN_ERR'', 134)]"

definition max_err_idx :: nat where "max_err_idx = 133"

definition EINTR :: int where "EINTR = 4"
definition EAGAIN :: int where "EAGAIN = 11"
definition EHWPOISON :: int where "EHWPOISON = 133"
definition UNKNOWN_ERR :: int where "UNKNOWN_ERR = 134"

definition syscall_errors :: "c_error list" where
  "syscall_errors = map (\<lambda>(c, s). \<lparr>err_code = c, err_msg = s\<rparr>)
  [(0, ''success''),
   (1, ''operation not permitted''),
   (2, ''no such file or directory''),
   (3, ''no such process''),
   (4, ''interrupted system call''),
   (5, ''I/O error''),
   (6, ''no such device or address''),
   (7, ''argument list too long''),
   (8, ''exec format error''),
   (9, ''bad file number''),
   (10, ''no child processes''),
   (11, ''try again''),
   (12, ''out of memory''),
   (13, ''permission denied''),
   (14, ''bad address''),
   (15, ''block device required''),
   (16, ''device or resource busy''),
   (17, ''file exists''),
   (18, ''cross-device link''),
   (19, ''no such device''),
   (20, ''not a directory''),
   (21, ''is a directory''),
   (22, ''invalid argument''),
   (23, ''file table overflow''),
   (24, ''too many open files''),
   (25, ''not a typewriter''),
   (26, ''text file busy''),
   (27, ''file too large''),
   (28, ''no space left on device''),
   (29, ''illegal seek''),
   (30, ''read-only file system''),
   (31, ''too many links''),
   (32, ''broken pipe''),
   (33, ''math argument out of domain of func''),
   (34, ''math result not representable''),
   (35, ''resource deadlock would occur''),
   (36, ''file name too long''),
   (37, ''no record locks available''),
   (38, ''invalid system call number''),
   (39, ''directory not empty''),
   (40, ''too many symbolic links encountered''),
   (11, ''try again''),
   (42, ''no message of desired type''),
   (43, ''identifier removed''),
   (44, ''channel number out of range''),
   (45, ''level 2 not synchronized''),
   (46, ''level 3 halted''),
   (47, ''level 3 reset''),
   (48, ''link number out of range''),
   (49, ''protocol driver not attached''),
   (50, ''no CSI structure available''),
   (51, ''level 2 halted''),
   (52, ''invalid exchange''),
   (53, ''invalid request descriptor''),
   (54, ''exchange full''),
   (55, ''no anode''),
   (56, ''invalid request code''),
   (57, ''invalid slot''),
   (35, ''resource deadlock avoided''),
   (59, ''bad font file format''),
   (60, ''device not a stream''),
   (61, ''no data available''),
   (62, ''timer expired''),
   (63, ''out of streams resources''),
   (64, ''machine is not on the network''),
   (65, ''package not installed''),
   (66, ''object is remote''),
   (67, ''link has been severed''),
   (68, ''advertise error''),
   (69, ''srmount error''),
   (70, ''communication error on send''),
   (71, ''protocol error''),
   (72, ''multihop attempted''),
   (73, ''RFS specific error''),
   (74, ''not a data message''),
   (75, ''value too large for defined data type''),
   (76, ''name not unique on network''),
   (77, ''file descriptor in bad state''),
   (78, ''remote address changed''),
   (79, ''can not access a needed shared library''),
   (80, ''accessing a corrupted shared library''),
   (81, ''.lib section in a.out corrupted''),
   (82, ''attempting to link in too many shared libraries''),
   (83, ''cannot exec a shared library directly''),
   (84, ''illegal byte sequence''),
   (85, ''interrupted system call should be restarted''),
   (86, ''streams pipe error''),
   (87, ''too many users''),
   (88, ''socket operation on non-socket''),
   (89, ''destination address required''),
   (90, ''message too long''),
   (91, ''protocol wrong type for socket''),
   (92, ''protocol not available''),
   (93, ''protocol not supported''),
   (94, ''socket type not supported''),
   (95, ''operation not supported on transport endpoint''),
   (96, ''protocol family not supported''),
   (97, ''address family not supported by protocol''),
   (98, ''address already in use''),
   (99, ''cannot assign requested address''),
   (100, ''network is down''),
   (101, ''network is unreachable''),
   (102, ''network dropped connection because of reset''),
   (103, ''software caused connection abort''),
   (104, ''connection reset by peer''),
   (105, ''no buffer space available''),
   (106, ''transport endpoint is already connected''),
   (107, ''transport endpoint is not connected''),
   (108, ''cannot send after transport endpoint shutdown''),
   (109, ''too many references: cannot splice''),
   (110, ''connection timed out''),
   (111, ''connection refused''),
   (112, ''host is down''),
   (113, ''no route to host''),
   (114, ''operation already in progress''),
   (115, ''operation now in progress''),
   (116, ''stale file handle''),
   (117, ''structure needs cleaning''),
   (118, ''not a XENIX named type file''),
   (119, ''no XENIX semaphores available''),
   (120, ''is a named type file''),
   (121, ''remote I/O error''),
   (122, ''quota exceeded''),
   (123, ''no medium found''),
   (124, ''wrong medium type''),
   (125, ''operation canceled''),
   (126, ''required key not available''),
   (127, ''key has expired''),
   (128, ''key has been revoked''),
   (129, ''key was rejected by service''),
   (130, ''owner died''),
   (131, ''state not recoverable''),
   (132, ''operation not possible due to RF-kill''),
   (133, ''memory page has hardware error''),
   (134, ''unknown error'')]"

definition set_error :: "u64 \<Rightarrow> c_error option" where
  "set_error code =
    (if code = 0 then None
     else if unat code > max_err_idx then Some (syscall_errors ! max_err_idx)
     else Some (syscall_errors ! unat code))"

section \<open>The process and the kernel\<close>

text \<open>
  A call is recorded with its number, its arguments and the bytes of the process that the
  kernel reads for it. A reply is the value of \<^verbatim>\<open>rax\<close> with the bytes that the kernel stores
  into the process.
\<close>

record sys_call =
  sc_nr :: u64
  sc_args :: "u64 list"
  sc_data :: "u8 list"

record reply =
  rax :: u64
  out_ptr :: u64
  out_bytes :: "u8 list"

type_synonym kernel = "sys_call list \<Rightarrow> reply"

text \<open>
  What the linker, the loader and the kernel fix: the kernel itself, the addresses of the
  string literals, the addresses of the local variables whose address is taken, and the bound
  on the iterations of each loop that the kernel drives.
\<close>

record platform =
  kern :: kernel
  lit :: literals
  stk :: "string \<Rightarrow> u64"
  fuel :: nat

record world =
  wmem :: mem
  trace :: "sys_call list"

record syscall_result =
  r1 :: u64
  errno :: u64

text \<open>
  The inline assembly: \<^verbatim>\<open>rax\<close> is compared with \<open>-4095\<close> as an unsigned value, and at
  most that value means success.
\<close>

definition decode_rax :: "u64 \<Rightarrow> syscall_result" where
  "decode_rax v = (if v \<le> -4095 then \<lparr>r1 = v, errno = 0\<rparr> else \<lparr>r1 = -1, errno = - v\<rparr>)"

definition syscall_raw :: "platform \<Rightarrow> world \<Rightarrow> sys_call \<Rightarrow> syscall_result \<times> world" where
  "syscall_raw P w c =
    (let r = kern P (c # trace w)
     in (decode_rax (rax r),
         w\<lparr>wmem := st_bytes (wmem w) (out_ptr r) (out_bytes r), trace := c # trace w\<rparr>))"

definition syscall6 ::
  "platform \<Rightarrow> world \<Rightarrow> u64 \<Rightarrow> u64 \<Rightarrow> u64 \<Rightarrow> u64 \<Rightarrow> u64 \<Rightarrow> u64 \<Rightarrow> u64 \<Rightarrow> u8 list \<Rightarrow>
   syscall_result \<times> world" where
  "syscall6 P w trap a1 a2 a3 a4 a5 a6 data =
    syscall_raw P w \<lparr>sc_nr = trap, sc_args = [a1, a2, a3, a4, a5, a6], sc_data = data\<rparr>"

definition syscall3 ::
  "platform \<Rightarrow> world \<Rightarrow> u64 \<Rightarrow> u64 \<Rightarrow> u64 \<Rightarrow> u64 \<Rightarrow> u8 list \<Rightarrow> syscall_result \<times> world" where
  "syscall3 P w trap a1 a2 a3 data =
    syscall_raw P w \<lparr>sc_nr = trap, sc_args = [a1, a2, a3], sc_data = data\<rparr>"

text \<open>The call numbers, the flags of \<^verbatim>\<open>syscall.h\<close>, and \<^verbatim>\<open>int\<close> arguments in registers.\<close>

definition s_read :: u64 where "s_read = 0x0"
definition s_write :: u64 where "s_write = 0x1"
definition s_close :: u64 where "s_close = 0x3"
definition s_mmap :: u64 where "s_mmap = 0x9"
definition s_munmap :: u64 where "s_munmap = 0xb"
definition s_clock_gettime :: u64 where "s_clock_gettime = 0xe4"
definition s_socket :: u64 where "s_socket = 0x29"
definition s_bind :: u64 where "s_bind = 0x31"
definition s_setsockopt :: u64 where "s_setsockopt = 0x36"
definition s_listen :: u64 where "s_listen = 0x32"
definition s_accept :: u64 where "s_accept = 0x2b"
definition s_accept4 :: u64 where "s_accept4 = 0x120"
definition s_epoll_create :: u64 where "s_epoll_create = 0xd5"
definition s_epoll_wait :: u64 where "s_epoll_wait = 0xe8"
definition s_epoll_ctl :: u64 where "s_epoll_ctl = 0xe9"
definition s_fork :: u64 where "s_fork = 0x39"
definition s_epoll_create1 :: u64 where "s_epoll_create1 = 0x123"

lemmas call_number_defs =
  s_read_def s_write_def s_close_def s_mmap_def s_munmap_def s_clock_gettime_def s_socket_def
  s_bind_def s_setsockopt_def s_listen_def s_accept_def s_accept4_def s_epoll_create_def
  s_epoll_wait_def s_epoll_ctl_def s_fork_def s_epoll_create1_def

declare call_number_defs [syscall_numbers]

definition prot_read_write :: u64 where "prot_read_write = 0x1 OR 0x2"
definition map_private_anonymous :: u64 where "map_private_anonymous = 0x2 OR 0x20"
definition clock_realtime :: u32 where "clock_realtime = 0"
definition stdout :: u32 where "stdout = 1"
definition stderr :: u32 where "stderr = 2"
definition sock_stream_nonblock :: u32 where "sock_stream_nonblock = 1 OR 0x800"
definition sock_nonblock :: u32 where "sock_nonblock = 0x800"
definition so_reuseaddr :: u32 where "so_reuseaddr = 2"
definition sol_socket :: u32 where "sol_socket = 1"
definition af_inet :: u32 where "af_inet = 2"
definition epoll_ctl_add :: u32 where "epoll_ctl_add = 1"
definition EPOLLIN_EPOLLET :: u32 where "EPOLLIN_EPOLLET = 1 OR push_bit 31 1"

definition int_arg :: "u32 \<Rightarrow> u64" where
  "int_arg x = scast x"

section \<open>The wrappers\<close>

text \<open>
  A wrapper with an \<^verbatim>\<open>err\<close> argument returns the error with the value; a caller that
  passes \<^verbatim>\<open>nil\<close> ignores it.
\<close>

definition sys_read :: "platform \<Rightarrow> world \<Rightarrow> u32 \<Rightarrow> u64 \<Rightarrow> u64 \<Rightarrow> u64 \<times> c_error option \<times> world" where
  "sys_read P w fd buf count =
    (let (r, w) = syscall3 P w s_read (ucast fd) buf count []
     in (r1 r, set_error (errno r), w))"

definition sys_write :: "platform \<Rightarrow> world \<Rightarrow> u32 \<Rightarrow> u64 \<Rightarrow> u64 \<Rightarrow> u64 \<times> c_error option \<times> world" where
  "sys_write P w fd buf count =
    (let (r, w) = syscall3 P w s_write (ucast fd) buf count (ld_bytes (wmem w) buf (unat count))
     in (r1 r, set_error (errno r), w))"

definition sys_close :: "platform \<Rightarrow> world \<Rightarrow> u32 \<Rightarrow> c_error option \<times> world" where
  "sys_close P w fd =
    (let (r, w) = syscall3 P w s_close (ucast fd) 0 0 []
     in (if errno r \<noteq> 0 then set_error (errno r) else None, w))"

definition sys_mmap ::
  "platform \<Rightarrow> world \<Rightarrow> u64 \<Rightarrow> u64 \<Rightarrow> u64 \<Rightarrow> u64 \<Rightarrow> u64 \<Rightarrow> u64 \<Rightarrow> u64 \<times> c_error option \<times> world" where
  "sys_mmap P w addr len prot flags fd offset =
    (let (r, w) = syscall6 P w s_mmap addr len prot flags fd offset []
     in (r1 r, set_error (errno r), w))"

definition sys_munmap :: "platform \<Rightarrow> world \<Rightarrow> u64 \<Rightarrow> u64 \<Rightarrow> c_error option \<times> world" where
  "sys_munmap P w addr len =
    (let (r, w) = syscall3 P w s_munmap addr len 0 []
     in (if errno r \<noteq> 0 then set_error (errno r) else None, w))"

definition sys_clock_gettime :: "platform \<Rightarrow> world \<Rightarrow> u32 \<Rightarrow> u64 \<Rightarrow> c_error option \<times> world" where
  "sys_clock_gettime P w which_clock tp =
    (let (r, w) = syscall3 P w s_clock_gettime (int_arg which_clock) tp 0 []
     in (if errno r \<noteq> 0 then set_error (errno r) else None, w))"

definition sys_socket :: "platform \<Rightarrow> world \<Rightarrow> u32 \<Rightarrow> u32 \<Rightarrow> u32 \<Rightarrow> u32 \<times> c_error option \<times> world" where
  "sys_socket P w family type protocol =
    (let (r, w) = syscall3 P w s_socket (int_arg family) (int_arg type) (int_arg protocol) []
     in (ucast (r1 r), set_error (errno r), w))"

definition sys_bind :: "platform \<Rightarrow> world \<Rightarrow> u32 \<Rightarrow> u64 \<Rightarrow> u32 \<Rightarrow> c_error option \<times> world" where
  "sys_bind P w sockfd addr addrlen =
    (let (r, w) = syscall3 P w s_bind (int_arg sockfd) addr (int_arg addrlen)
           (ld_bytes (wmem w) addr (unat addrlen))
     in (if errno r \<noteq> 0 then set_error (errno r) else None, w))"

definition sys_setsockopt ::
  "platform \<Rightarrow> world \<Rightarrow> u32 \<Rightarrow> u32 \<Rightarrow> u32 \<Rightarrow> u64 \<Rightarrow> u32 \<Rightarrow> c_error option \<times> world" where
  "sys_setsockopt P w sockfd level optname optval optlen =
    (let (r, w) = syscall6 P w s_setsockopt (int_arg sockfd) (int_arg level) (int_arg optname) optval
           (int_arg optlen) 0 (ld_bytes (wmem w) optval (unat optlen))
     in (if errno r \<noteq> 0 then set_error (errno r) else None, w))"

definition sys_listen :: "platform \<Rightarrow> world \<Rightarrow> u32 \<Rightarrow> u32 \<Rightarrow> c_error option \<times> world" where
  "sys_listen P w sockfd qlen =
    (let (r, w) = syscall3 P w s_listen (int_arg sockfd) (int_arg qlen) 0 []
     in (if errno r \<noteq> 0 then set_error (errno r) else None, w))"

definition sys_accept :: "platform \<Rightarrow> world \<Rightarrow> u32 \<Rightarrow> u64 \<Rightarrow> u64 \<Rightarrow> u32 \<times> c_error option \<times> world" where
  "sys_accept P w sockfd addr addrlen =
    (let (r, w) = syscall3 P w s_accept (int_arg sockfd) addr addrlen []
     in (ucast (r1 r), set_error (errno r), w))"

definition sys_accept4 ::
  "platform \<Rightarrow> world \<Rightarrow> u32 \<Rightarrow> u64 \<Rightarrow> u64 \<Rightarrow> u32 \<Rightarrow> u32 \<times> c_error option \<times> world" where
  "sys_accept4 P w sockfd addr addrlen flags =
    (let (r, w) = syscall6 P w s_accept4 (int_arg sockfd) addr addrlen (int_arg flags) 0 0 []
     in (ucast (r1 r), set_error (errno r), w))"

definition sys_fork :: "platform \<Rightarrow> world \<Rightarrow> u32 \<times> c_error option \<times> world" where
  "sys_fork P w =
    (let (r, w) = syscall3 P w s_fork 0 0 0 [] in (ucast (r1 r), set_error (errno r), w))"

definition sys_epoll_create :: "platform \<Rightarrow> world \<Rightarrow> u32 \<Rightarrow> u32 \<times> c_error option \<times> world" where
  "sys_epoll_create P w sz =
    (let (r, w) = syscall3 P w s_epoll_create (int_arg sz) 0 0 []
     in (ucast (r1 r), set_error (errno r), w))"

definition sys_epoll_create1 :: "platform \<Rightarrow> world \<Rightarrow> u32 \<Rightarrow> u32 \<times> c_error option \<times> world" where
  "sys_epoll_create1 P w flags =
    (let (r, w) = syscall3 P w s_epoll_create1 (int_arg flags) 0 0 []
     in (ucast (r1 r), set_error (errno r), w))"

definition sys_epoll_wait ::
  "platform \<Rightarrow> world \<Rightarrow> u32 \<Rightarrow> u64 \<Rightarrow> u32 \<Rightarrow> u32 \<Rightarrow> u32 \<times> c_error option \<times> world" where
  "sys_epoll_wait P w epfd events maxevents timeout =
    (let (r, w) = syscall6 P w s_epoll_wait (int_arg epfd) events (int_arg maxevents) (int_arg timeout) 0 0 []
     in (ucast (r1 r), set_error (errno r), w))"

definition sys_epoll_ctl ::
  "platform \<Rightarrow> world \<Rightarrow> u32 \<Rightarrow> u32 \<Rightarrow> u32 \<Rightarrow> u64 \<Rightarrow> c_error option \<times> world" where
  "sys_epoll_ctl P w epfd op fd event =
    (let (r, w) = syscall6 P w s_epoll_ctl (int_arg epfd) (int_arg op) (int_arg fd) event 0 0
           (ld_bytes (wmem w) event 12)
     in (if errno r \<noteq> 0 then set_error (errno r) else None, w))"

text \<open>The process ends: nothing after the call is executed.\<close>

definition sys_exit :: "int \<Rightarrow> halt + 'a" where
  "sys_exit error_code = Inl (Exited error_code)"

section \<open>Documented kernel behaviour\<close>

text \<open>
  What the manual pages of the calls say about the value and the stores of the kernel:
  \<^verbatim>\<open>read\<close> stores as many bytes as it returns, at most the requested count, at the
  buffer; a fresh anonymous mapping is not null, starts at a page boundary, lies in the user
  half of the address space (\<open>2 ^ 47\<close> bytes on x86-64) and is zero; \<^verbatim>\<open>clock_gettime\<close> stores a \<^verbatim>\<open>timespec\<close> whose seconds are
  not negative and far below the range of the type (the kernel counts nanoseconds in 64 bits);
  \<^verbatim>\<open>epoll_wait\<close> stores as many events as it returns, at most the requested number;
  the other calls of the program (whose result pointers are null) store nothing.
\<close>

definition succeeded :: "reply \<Rightarrow> bool" where
  "succeeded r \<longleftrightarrow> rax r \<le> -4095"

definition reply_ok :: "sys_call \<Rightarrow> reply \<Rightarrow> bool" where
  "reply_ok c r \<longleftrightarrow>
    (if \<not> succeeded r then out_bytes r = []
     else if sc_nr c = s_read then
       rax r \<le> sc_args c ! 2 \<and> out_ptr r = sc_args c ! 1 \<and> length (out_bytes r) = unat (rax r)
     else if sc_nr c = s_mmap then
       rax r \<noteq> 0 \<and> 4096 dvd unat (rax r) \<and> unat (rax r) + unat (sc_args c ! 1) \<le> 2 ^ 47 \<and>
       out_ptr r = rax r \<and> out_bytes r = replicate (unat (sc_args c ! 1)) 0
     else if sc_nr c = s_clock_gettime then
       out_ptr r = sc_args c ! 1 \<and> length (out_bytes r) = 16 \<and>
       le_val (take 8 (out_bytes r)) < 2 ^ 55
     else if sc_nr c = s_epoll_wait then
       rax r \<le> sc_args c ! 2 \<and> out_ptr r = sc_args c ! 1 \<and> length (out_bytes r) = 12 * unat (rax r)
     else out_bytes r = [])"

definition kernel_ok :: "kernel \<Rightarrow> bool" where
  "kernel_ok k \<longleftrightarrow> (\<forall>c h. reply_ok c (k (c # h)))"

definition stores_nothing :: "sys_call \<Rightarrow> bool" where
  "stores_nothing c \<longleftrightarrow> sc_nr c \<notin> {s_read, s_mmap, s_clock_gettime, s_epoll_wait}"

lemma syscall_raw_quiet:
  assumes "kernel_ok (kern P)" and "stores_nothing c"
  shows "snd (syscall_raw P w c) = w\<lparr>trace := c # trace w\<rparr>"
proof -
  have "reply_ok c (kern P (c # trace w))" using assms(1) by (simp add: kernel_ok_def)
  then have "out_bytes (kern P (c # trace w)) = []"
    using assms(2) by (auto simp: reply_ok_def stores_nothing_def split: if_splits)
  then show ?thesis by (simp add: syscall_raw_def Let_def)
qed

definition write_call :: "u32 \<Rightarrow> u64 \<Rightarrow> u8 list \<Rightarrow> sys_call" where
  "write_call fd buf bs =
    \<lparr>sc_nr = s_write, sc_args = [ucast fd, buf, of_nat (length bs)], sc_data = bs\<rparr>"

definition close_call :: "u32 \<Rightarrow> sys_call" where
  "close_call fd = \<lparr>sc_nr = s_close, sc_args = [ucast fd, 0, 0], sc_data = []\<rparr>"

text \<open>The world after a call whose result the caller ignores.\<close>

definition world_of :: "'a \<times> 'b \<times> world \<Rightarrow> world" where
  "world_of r = snd (snd r)"

lemma sys_write_world:
  assumes "kernel_ok (kern P)"
  shows "world_of (sys_write P w fd buf n) =
    w\<lparr>trace := write_call fd buf (ld_bytes (wmem w) buf (unat n)) # trace w\<rparr>"
  using syscall_raw_quiet[OF assms, of "write_call fd buf (ld_bytes (wmem w) buf (unat n))" w]
  by (simp add: world_of_def sys_write_def syscall3_def write_call_def stores_nothing_def
      syscall_numbers split_def Let_def)

lemma sys_close_world:
  assumes "kernel_ok (kern P)"
  shows "snd (sys_close P w fd) = w\<lparr>trace := close_call fd # trace w\<rparr>"
  using syscall_raw_quiet[OF assms, of "close_call fd" w]
  by (simp add: sys_close_def syscall3_def close_call_def stores_nothing_def syscall_numbers
      split_def Let_def)

definition unmap_call :: "u64 \<Rightarrow> u64 \<Rightarrow> sys_call" where
  "unmap_call a len = \<lparr>sc_nr = s_munmap, sc_args = [a, len, 0], sc_data = []\<rparr>"

lemma sys_munmap_world:
  assumes "kernel_ok (kern P)"
  shows "snd (sys_munmap P w a len) = w\<lparr>trace := unmap_call a len # trace w\<rparr>"
  using syscall_raw_quiet[OF assms, of "unmap_call a len" w]
  by (simp add: sys_munmap_def syscall3_def unmap_call_def stores_nothing_def syscall_numbers
      split_def Let_def)

text \<open>A call either fails with an error or returns the value of the kernel.\<close>

lemma set_error_None [simp]: "set_error c = None \<longleftrightarrow> c = 0"
  by (simp add: set_error_def)

lemma set_error_0 [simp]: "set_error 0 = None"
  by simp

lemma decode_rax_cases:
  "errno (decode_rax v) = 0 \<longleftrightarrow> v \<le> -4095"
  "v \<le> -4095 \<Longrightarrow> r1 (decode_rax v) = v"
  by (auto simp: decode_rax_def)

definition read_call :: "u32 \<Rightarrow> u64 \<Rightarrow> u64 \<Rightarrow> sys_call" where
  "read_call fd buf n = \<lparr>sc_nr = s_read, sc_args = [ucast fd, buf, n], sc_data = []\<rparr>"

definition mmap_call :: "u64 list \<Rightarrow> sys_call" where
  "mmap_call args = \<lparr>sc_nr = s_mmap, sc_args = args, sc_data = []\<rparr>"

definition clock_call :: "u32 \<Rightarrow> u64 \<Rightarrow> sys_call" where
  "clock_call clk tp = \<lparr>sc_nr = s_clock_gettime, sc_args = [int_arg clk, tp, 0], sc_data = []\<rparr>"

definition epoll_wait_call :: "u32 \<Rightarrow> u64 \<Rightarrow> u32 \<Rightarrow> u32 \<Rightarrow> sys_call" where
  "epoll_wait_call epfd events k timeout =
    \<lparr>sc_nr = s_epoll_wait,
     sc_args = [int_arg epfd, events, int_arg k, int_arg timeout, 0, 0], sc_data = []\<rparr>"

lemmas call_defs = write_call_def close_call_def read_call_def mmap_call_def clock_call_def
  epoll_wait_call_def

lemma kernel_reply: "kernel_ok k \<Longrightarrow> reply_ok c (k (c # h))"
  by (simp add: kernel_ok_def)

lemma failed_error:
  "\<not> succeeded r \<Longrightarrow> \<exists>e. set_error (errno (decode_rax (rax r))) = Some e"
  by (auto simp: succeeded_def decode_rax_def set_error_def)

lemma syscall_raw_failed:
  assumes "kernel_ok (kern P)" and "\<not> succeeded (kern P (c # trace w))"
  shows "\<exists>v e. syscall_raw P w c = (v, w\<lparr>trace := c # trace w\<rparr>) \<and> set_error (errno v) = Some e"
proof -
  have "out_bytes (kern P (c # trace w)) = []"
    using kernel_reply[OF assms(1), of c "trace w"] assms(2) by (simp add: reply_ok_def)
  then show ?thesis using failed_error[OF assms(2)] by (simp add: syscall_raw_def Let_def)
qed

lemma syscall_raw_succeeded:
  assumes "succeeded (kern P (c # trace w))"
  shows "syscall_raw P w c = (\<lparr>r1 = rax (kern P (c # trace w)), errno = 0\<rparr>,
    w\<lparr>wmem := st_bytes (wmem w) (out_ptr (kern P (c # trace w))) (out_bytes (kern P (c # trace w))),
      trace := c # trace w\<rparr>)"
  using assms by (simp add: syscall_raw_def Let_def succeeded_def decode_rax_def)

text \<open>The calls that store: each either fails and stores nothing, or keeps its promise.\<close>

lemma sys_read_cases:
  assumes "kernel_ok (kern P)"
  obtains v e where "sys_read P w fd buf n = (v, Some e, w\<lparr>trace := read_call fd buf n # trace w\<rparr>)"
  | v bs where "sys_read P w fd buf n = (v, None,
      w\<lparr>wmem := st_bytes (wmem w) buf bs, trace := read_call fd buf n # trace w\<rparr>)"
    "v \<le> n" "length bs = unat v"
proof (cases "succeeded (kern P (read_call fd buf n # trace w))")
  case False
  from syscall_raw_failed[OF assms False] that(1) show ?thesis
    by (auto simp: sys_read_def syscall3_def read_call_def)
next
  case True
  from kernel_reply[OF assms, of "read_call fd buf n" "trace w"] True
    syscall_raw_succeeded[OF True] that(2) show ?thesis
    by (auto simp: sys_read_def syscall3_def read_call_def reply_ok_def)
qed

lemma sys_mmap_cases:
  fixes a len prot flags fd off :: u64
  assumes "kernel_ok (kern P)"
  defines "c \<equiv> mmap_call [a, len, prot, flags, fd, off]"
  obtains v e where "sys_mmap P w a len prot flags fd off = (v, Some e, w\<lparr>trace := c # trace w\<rparr>)"
    "\<not> succeeded (kern P (c # trace w))"
  | p where "sys_mmap P w a len prot flags fd off = (p, None,
      w\<lparr>wmem := st_bytes (wmem w) p (replicate (unat len) 0), trace := c # trace w\<rparr>)"
    "p \<noteq> 0" "4096 dvd unat p" "unat p + unat len \<le> 2 ^ 47"
    "succeeded (kern P (c # trace w))" "p = rax (kern P (c # trace w))"
proof (cases "succeeded (kern P (c # trace w))")
  case False
  from syscall_raw_failed[OF assms(1) False] that(1)[OF _ False] show ?thesis
    by (auto simp: sys_mmap_def syscall6_def c_def mmap_call_def)
next
  case True
  from kernel_reply[OF assms(1), of c "trace w"] True
    syscall_raw_succeeded[OF True] that(2) show ?thesis
    by (auto simp: sys_mmap_def syscall6_def c_def mmap_call_def reply_ok_def syscall_numbers)
qed

lemma sys_clock_gettime_cases:
  fixes clk :: u32 and tp :: u64
  assumes "kernel_ok (kern P)"
  defines "c \<equiv> clock_call clk tp"
  obtains e where "sys_clock_gettime P w clk tp = (Some e, w\<lparr>trace := c # trace w\<rparr>)"
    "\<not> succeeded (kern P (c # trace w))"
  | bs where "sys_clock_gettime P w clk tp = (None, w\<lparr>wmem := st_bytes (wmem w) tp bs, trace := c # trace w\<rparr>)"
    "succeeded (kern P (c # trace w))" "bs = out_bytes (kern P (c # trace w))"
    "length bs = 16" "le_val (take 8 bs) < 2 ^ 55"
proof (cases "succeeded (kern P (c # trace w))")
  case False
  from syscall_raw_failed[OF assms(1) False] obtain v e where
    v: "syscall_raw P w c = (v, w\<lparr>trace := c # trace w\<rparr>)" "set_error (errno v) = Some e"
    by blast
  then have "errno v \<noteq> 0" by auto
  with v that(1)[OF _ False] show ?thesis
    by (simp add: sys_clock_gettime_def syscall3_def c_def clock_call_def)
next
  case True
  from kernel_reply[OF assms(1), of c "trace w"] True
    syscall_raw_succeeded[OF True] that(2)[OF _ True refl] show ?thesis
    by (simp add: sys_clock_gettime_def syscall3_def c_def clock_call_def reply_ok_def syscall_numbers)
qed

lemma sys_epoll_wait_cases:
  fixes epfd k timeout :: u32 and events :: u64
  assumes "kernel_ok (kern P)"
  defines "c \<equiv> epoll_wait_call epfd events k timeout"
  obtains v e where "sys_epoll_wait P w epfd events k timeout = (v, Some e, w\<lparr>trace := c # trace w\<rparr>)"
  | v bs where "sys_epoll_wait P w epfd events k timeout = (ucast v, None,
      w\<lparr>wmem := st_bytes (wmem w) events bs, trace := c # trace w\<rparr>)"
    "v \<le> int_arg k" "length bs = 12 * unat v"
proof (cases "succeeded (kern P (c # trace w))")
  case False
  from syscall_raw_failed[OF assms(1) False] that(1) show ?thesis
    by (auto simp: sys_epoll_wait_def syscall6_def c_def epoll_wait_call_def)
next
  case True
  from kernel_reply[OF assms(1), of c "trace w"] True
    syscall_raw_succeeded[OF True] that(2) show ?thesis
    by (auto simp: sys_epoll_wait_def syscall6_def c_def epoll_wait_call_def reply_ok_def syscall_numbers)
qed

text \<open>The calls that store nothing only extend the trace.\<close>

definition quiet :: "world \<Rightarrow> world \<Rightarrow> bool" where
  "quiet w w' \<longleftrightarrow> (\<exists>c. stores_nothing c \<and> w' = w\<lparr>trace := c # trace w\<rparr>)"

lemma quietI: "stores_nothing c \<Longrightarrow> quiet w (w\<lparr>trace := c # trace w\<rparr>)"
  by (auto simp: quiet_def)

lemma quiet_calls:
  assumes "kernel_ok (kern P)"
  shows "quiet w (snd (sys_munmap P w a len))"
    and "quiet w (snd (snd (sys_socket P w family type protocol)))"
    and "quiet w (snd (sys_bind P w fd addr alen))"
    and "quiet w (snd (sys_setsockopt P w fd level opt val vlen))"
    and "quiet w (snd (sys_listen P w fd qlen))"
    and "quiet w (snd (snd (sys_accept4 P w fd addr alenp flags)))"
    and "quiet w (snd (snd (sys_epoll_create1 P w flags)))"
    and "quiet w (snd (sys_epoll_ctl P w epfd opr fd ev))"
  using syscall_raw_quiet[OF assms]
  by (simp_all add: quietI sys_munmap_def sys_socket_def sys_bind_def sys_setsockopt_def sys_listen_def
      sys_accept4_def sys_epoll_create1_def sys_epoll_ctl_def syscall3_def syscall6_def split_def Let_def
      stores_nothing_def syscall_numbers)

section \<open>A kernel that keeps its promises\<close>

text \<open>
  The hypotheses on the kernel can hold: this one maps up to 16 regions, accepts one connection,
  delivers the given pieces one by one to the reads, reports the descriptor registered last on a
  wait that follows, and interrupts every other wait.
\<close>

definition ctl_data :: "sys_call list \<Rightarrow> u8 list" where
  "ctl_data h = (case h of d # _ \<Rightarrow> if sc_nr d = s_epoll_ctl \<and> length (sc_data d) = 12 then sc_data d else [] | [] \<Rightarrow> [])"

definition calls_before :: "sys_call \<Rightarrow> sys_call list \<Rightarrow> nat" where
  "calls_before c h = length (filter (\<lambda>d. sc_nr d = sc_nr c) h)"

definition demo_region :: "nat \<Rightarrow> u64" where
  "demo_region n = 0x10000000 + of_nat n * 0x20000000000"

definition demo_reply :: "u8 list list \<Rightarrow> sys_call \<Rightarrow> sys_call list \<Rightarrow> u64 \<times> u64 \<times> u8 list" where
  "demo_reply rs c h =
    (let n = calls_before c h in
     if sc_nr c = s_read then
       (if n < length rs \<and> length (rs ! n) \<le> 512 \<and> length (rs ! n) \<le> unat (sc_args c ! 2)
        then (of_nat (length (rs ! n)), sc_args c ! 1, rs ! n) else (-11, 0, []))
     else if sc_nr c = s_mmap then
       (if 16 \<le> n \<or> 0x10000000000 < sc_args c ! 1 then (-12, 0, [])
        else (demo_region n, demo_region n, replicate (unat (sc_args c ! 1)) 0))
     else if sc_nr c = s_clock_gettime then (0, sc_args c ! 1, replicate 16 0)
     else if sc_nr c = s_epoll_wait then
       (if ctl_data h = [] \<or> sc_args c ! 2 < 1 then (-4, 0, []) else (1, sc_args c ! 1, ctl_data h))
     else if sc_nr c = s_accept4 then (if 0 < n then -11 else 5, 0, [])
     else (0, 0, []))"

definition demo_kernel :: "u8 list list \<Rightarrow> kernel" where
  "demo_kernel rs h = (case h of [] \<Rightarrow> \<lparr>rax = 0, out_ptr = 0, out_bytes = []\<rparr>
     | c # h \<Rightarrow> (let (v, p, bs) = demo_reply rs c h in \<lparr>rax = v, out_ptr = p, out_bytes = bs\<rparr>))"

lemma demo_kernel_reply:
  "demo_kernel rs (c # h) = (let (v, p, bs) = demo_reply rs c h in \<lparr>rax = v, out_ptr = p, out_bytes = bs\<rparr>)"
  by (simp add: demo_kernel_def)

lemma demo_region_bounds:
  assumes "n < 16"
  shows "unat (demo_region n) = 0x10000000 + n * 0x20000000000" "demo_region n \<le> -4095" "demo_region n \<noteq> 0"
    "4096 dvd unat (demo_region n)"
proof -
  have "demo_region n = of_nat (0x10000000 + n * 0x20000000000)" by (simp add: demo_region_def)
  then show u: "unat (demo_region n) = 0x10000000 + n * 0x20000000000"
    using assms by (simp only:) (rule unat_of_nat_less, simp)
  then show "demo_region n \<le> -4095" "demo_region n \<noteq> 0" using assms by (auto simp: word_le_nat_alt)
  have "(0x10000000 :: nat) + n * 0x20000000000 = 4096 * (65536 + n * 536870912)" by simp
  then show "4096 dvd unat (demo_region n)" unfolding u by (metis dvd_triv_left)
qed

lemma demo_reply_map:
  assumes "sc_nr c = s_mmap"
  shows "demo_reply rs c h = (if 16 \<le> calls_before c h \<or> 0x10000000000 < sc_args c ! 1 then (-12, 0, [])
    else (demo_region (calls_before c h), demo_region (calls_before c h), replicate (unat (sc_args c ! 1)) 0))"
  using assms by (simp only: demo_reply_def Let_def) (simp add: syscall_numbers)

lemma small_result: "n \<le> 512 \<Longrightarrow> (of_nat n :: u64) \<le> -4095"
  by (simp add: word_le_nat_alt unat_of_nat_less)

lemma demo_kernel_ok: "kernel_ok (demo_kernel rs)"
  unfolding kernel_ok_def
proof (intro allI)
  fix c h
  consider "sc_nr c = s_read" | "sc_nr c = s_mmap" | "sc_nr c = s_clock_gettime"
    | "sc_nr c = s_epoll_wait" | "stores_nothing c"
    by (auto simp: stores_nothing_def)
  then show "reply_ok c (demo_kernel rs (c # h))"
  proof cases
    case 1
    have "n \<le> 512 \<Longrightarrow> n \<le> unat x \<Longrightarrow> (of_nat n :: u64) \<le> x" "n \<le> 512 \<Longrightarrow> unat (of_nat n :: u64) = n" for n x
      by (simp_all add: word_le_nat_alt unat_of_nat_less)
    then show ?thesis using 1
      by (simp add: reply_ok_def succeeded_def demo_kernel_reply demo_reply_def Let_def small_result)
  next
    case 2
    show ?thesis
    proof (cases "16 \<le> calls_before c h \<or> 0x10000000000 < sc_args c ! 1")
      case True
      then have "demo_reply rs c h = (-12, 0, [])" by (simp only: demo_reply_map[OF 2] if_True)
      moreover have "\<not> (-12 :: u64) \<le> -4095" by simp
      ultimately show ?thesis by (simp add: reply_ok_def succeeded_def demo_kernel_reply)
    next
      case False
      then have d: "demo_reply rs c h = (demo_region (calls_before c h), demo_region (calls_before c h),
          replicate (unat (sc_args c ! 1)) 0)"
        by (simp only: demo_reply_map[OF 2] if_False)
      have "sc_args c ! 1 \<le> 0x10000000000" "calls_before c h < 16" using False linorder_not_less by (blast, linarith)
      then have "unat (sc_args c ! 1) \<le> 0x10000000000" by (simp add: word_le_nat_alt)
      note b = demo_region_bounds[OF \<open>calls_before c h < 16\<close>]
      have p: "unat (demo_region (calls_before c h)) + unat (sc_args c ! 1) \<le> 2 ^ 47"
        unfolding b(1) using \<open>calls_before c h < 16\<close> \<open>unat (sc_args c ! 1) \<le> _\<close> by simp
      have nr: "s_mmap \<noteq> s_read" by (simp add: syscall_numbers)
      show ?thesis
        unfolding reply_ok_def succeeded_def demo_kernel_reply d Let_def prod.case reply.simps
        by (simp only: p b(2-4) nr 2 if_True if_False not_True_eq_False not_False_eq_True simp_thms)
    qed
  next
    case 3
    have "le_val (replicate 8 0) = 0" by (simp add: numeral_eq_Suc)
    with 3 show ?thesis
      by (simp add: reply_ok_def succeeded_def demo_kernel_reply demo_reply_def Let_def syscall_numbers)
  next
    case 4
    have "length (ctl_data h) = 12" if "ctl_data h \<noteq> []"
      using that by (auto simp: ctl_data_def split: list.splits if_splits)
    moreover have "1 \<le> x" if "x \<noteq> 0" for x :: u64
      using that by (simp add: word_le_nat_alt Suc_le_eq unat_gt_0)
    moreover have "(1 :: u64) \<le> -4095" by (simp add: word_le_nat_alt)
    ultimately show ?thesis using 4
      by (simp add: reply_ok_def succeeded_def demo_kernel_reply demo_reply_def Let_def syscall_numbers not_less)
  next
    case 5
    then show ?thesis
      by (simp add: reply_ok_def succeeded_def demo_kernel_reply demo_reply_def Let_def stores_nothing_def)
  qed
qed

section \<open>Properties\<close>

text \<open>The code in each row of the table; two rows repeat the code of an older name.\<close>

definition code_of_row :: "nat \<Rightarrow> int" where
  "code_of_row i = (if i = 41 then EAGAIN else if i = 58 then 35 else int i)"

lemma error_rows: "map err_code syscall_errors = map code_of_row [0..<135]"
  by (simp add: syscall_errors_def upt_rec code_of_row_def EAGAIN_def)

text \<open>
  The rows of the table follow the constants, with one row put in at index 41, a second
  \<^verbatim>\<open>EAGAIN\<close>; the codes that the programs compare with are constants of the header.
\<close>

lemma error_rows_follow:
  "map err_code syscall_errors =
    take 41 (map snd errno_constants) @ EAGAIN # drop 41 (map snd errno_constants)"
  by (simp add: syscall_errors_def errno_constants_def EAGAIN_def)

lemma errno_constants_used:
  "(''EINTR'', EINTR) \<in> set errno_constants" "(''EAGAIN'', EAGAIN) \<in> set errno_constants"
  "(''EHWPOISON'', EHWPOISON) \<in> set errno_constants" "(''UNKNOWN_ERR'', UNKNOWN_ERR) \<in> set errno_constants"
  by (simp_all add: errno_constants_def EINTR_def EAGAIN_def EHWPOISON_def UNKNOWN_ERR_def)

text \<open>
  C30: a raw kernel value is either a success, returned unchanged and without an error, or one of
  the 4094 values above it, which is translated to an entry of the error table: the row with that
  number, or the last one (hardware poison) for a number beyond the table. The value -4095 itself
  counts as a success.
\<close>

theorem error_translation:
  "case set_error (errno (decode_rax v)) of
     None \<Rightarrow> unat v \<le> 2 ^ 64 - 4095 \<and> r1 (decode_rax v) = v
   | Some e \<Rightarrow> 2 ^ 64 - 4095 < unat v \<and> r1 (decode_rax v) = -1 \<and> e \<in> set syscall_errors \<and>
       err_code e = code_of_row (min (2 ^ 64 - unat v) 133)"
proof (cases "v \<le> -4095")
  case True
  then have "unat v \<le> unat (-4095 :: u64)" by (simp add: word_le_nat_alt)
  then show ?thesis using True by (simp add: decode_rax_def)
next
  case False
  then have "unat (-4095 :: u64) < unat v" by (simp add: word_less_nat_alt not_le)
  then have lt: "2 ^ 64 - 4095 < unat v" by simp
  then have nz: "v \<noteq> 0" by auto
  have neg: "unat (- v) = 2 ^ 64 - unat v" using nz unat_diff_swap[of v 0] by simp
  have len: "length syscall_errors = 135" using arg_cong[OF error_rows, of length] by simp
  have code: "err_code (syscall_errors ! i) = code_of_row i" if "i < 135" for i
    using arg_cong[OF error_rows, of "\<lambda>xs. xs ! i"] that len by simp
  let ?i = "min (2 ^ 64 - unat v) 133"
  have "set_error (- v) = Some (syscall_errors ! ?i)"
    unfolding set_error_def neg max_err_idx_def using nz by (simp add: min_def)
  moreover have "syscall_errors ! ?i \<in> set syscall_errors" using len by (intro nth_mem) simp
  moreover have "decode_rax v = \<lparr>r1 = -1, errno = - v\<rparr>" using False by (simp add: decode_rax_def)
  ultimately show ?thesis using lt code[of ?i] by simp
qed

end
