(* ===== verification/Fmt.thy ===== *)
theory Fmt
  imports Syscall
begin

text \<open>
  Formatted output, \<^verbatim>\<open>lib/cfa/src/fmt.c\<close>, and the failure report of
  \<^verbatim>\<open>lib/cfa/src/assert.c\<close>. The variable arguments are the raw 64-bit slots; a
  directive reads its slot at the width of its type, so a format that names the wrong type
  reads the wrong thing, as it does in C.
\<close>

section \<open>The code\<close>

definition max_buf :: nat where "max_buf = 2048"

definition print_string :: "platform \<Rightarrow> world \<Rightarrow> u32 \<Rightarrow> str \<Rightarrow> world" where
  "print_string P w stream s = world_of (sys_write P w stream (str_base s) (str_len s))"

function reverse_hex :: "u64 \<Rightarrow> u64 \<Rightarrow> nat \<Rightarrow> u64 \<times> nat" where
  "reverse_hex num rx n_digits =
    (if num > 0 then reverse_hex (num div 16) (16 * rx + num mod 16) (n_digits + 1)
     else (rx, n_digits))"
  by pat_completeness auto
termination
  by (relation "measure (\<lambda>(num, rx, n). unat num)") (auto simp: unat_div_distrib word_less_nat_alt)

declare reverse_hex.simps [simp del]

definition hex_digits :: string where
  "hex_digits = ''0123456789abcdef''"

fun write_hex :: "nat \<Rightarrow> mem \<Rightarrow> u64 \<Rightarrow> nat \<Rightarrow> u64 \<Rightarrow> nat \<Rightarrow> nat \<times> mem" where
  "write_hex 0 m buf bound rx i = (i, m)"
| "write_hex (Suc n_digits) m buf bound rx i =
     (if bound - i \<noteq> 0
      then write_hex n_digits (m(buf + of_nat i := bytes_of hex_digits ! unat (rx mod 16)))
             buf bound (rx div 16) (i + 1)
      else (i, m))"

definition print_hex :: "mem \<Rightarrow> slice \<Rightarrow> u64 \<Rightarrow> nat \<times> mem" where
  "print_hex m s num =
    (let buf = sl_base s; bound = unat (sl_cap s) in
     if bound = 0 then (0, m)
     else let m = m(buf := 48)
          in if bound - 1 = 0 then (1, m)
             else let m = m(buf + 1 := 120);
                      (rx, n_digits) = reverse_hex num 0 0
                  in write_hex n_digits m buf bound rx 2)"

text \<open>One directive: the character after the percent sign, the remaining slots, the count.\<close>

definition fmt_directive ::
  "mem \<Rightarrow> u64 \<Rightarrow> u8 \<Rightarrow> u64 list \<Rightarrow> nat \<Rightarrow> halt + nat \<times> u64 list \<times> mem" where
  "fmt_directive m buf d args j =
    (let room = unsafe_slice (buf + of_nat j) (of_nat (max_buf - j)) in
     if d = 99 then
       (case args of [] \<Rightarrow> Inl Undefined
        | a # args \<Rightarrow> Inr (j + 1, args, m(buf + of_nat j := ucast a)))
     else if d = 115 then
       (case args of [] \<Rightarrow> Inl Undefined
        | a # args \<Rightarrow> let (k, m) = c_strncpy m (buf + of_nat j) a (int (max_buf - j))
                      in Inr (j + nat k, args, m))
     else if d = 100 then
       (case args of [] \<Rightarrow> Inl Undefined
        | a # args \<Rightarrow> andthen (int_in_slice m room (sint (ucast a :: u32)))
                      (\<lambda>(k, m). Inr (j + unat k, args, m)))
     else if d = 112 then
       (case args of [] \<Rightarrow> Inl Undefined
        | a # args \<Rightarrow> let (k, m) = print_hex m room a in Inr (j + k, args, m))
     else if d = 37 then Inr (j + 1, args, m(buf + of_nat j := d))
     else Inr (j, args, m))"

text \<open>The scan of the format; a format with no terminator leaves the address space.\<close>

function fmt_loop :: "mem \<Rightarrow> u64 \<Rightarrow> u64 \<Rightarrow> nat \<Rightarrow> u64 list \<Rightarrow> nat \<Rightarrow> halt + nat \<times> mem" where
  "fmt_loop m buf fmt i args j =
    (if 2 ^ 64 \<le> i then Inl Undefined
     else if m (fmt + of_nat i) \<noteq> 0 \<and> j < max_buf then
       if m (fmt + of_nat i) = 37 then
         (case fmt_directive m buf (m (fmt + of_nat (i + 1))) args j of
            Inl e \<Rightarrow> Inl e
          | Inr (j, args, m) \<Rightarrow> fmt_loop m buf fmt (i + 2) args j)
       else fmt_loop (m(buf + of_nat j := m (fmt + of_nat i))) buf fmt (i + 1) args (j + 1)
     else Inr (j, m))"
  by pat_completeness auto
termination
  by (relation "measure (\<lambda>(m, buf, fmt, i, args, j). 2 ^ 64 - i)") auto

declare fmt_loop.simps [simp del]

definition fmt_fprintf ::
  "platform \<Rightarrow> world \<Rightarrow> u32 \<Rightarrow> u64 \<Rightarrow> u64 list \<Rightarrow> halt + nat \<times> world" where
  "fmt_fprintf P w stream fmt args =
    (let buf = stk P ''fmt_fprintf.buf'' in
     andthen (fmt_loop (wmem w) buf fmt 0 args 0) (\<lambda>(j, m).
       Inr (j, world_of (sys_write P (w\<lparr>wmem := m\<rparr>) stream buf (of_nat j)))))"

text \<open>
  The report of a failed assertion ends in the breakpoint trap. Its format names
  \<^verbatim>\<open>%ld\<close>, a directive that \<open>fmt_directive\<close> does not know.
\<close>

definition assert_format :: string where
  "assert_format = ''%s:%ld: assertion '' @ [CHR 0x27] @ ''%s'' @ [CHR 0x27] @ '' is failed'' @ [CHR 0x0A]"

definition assert_fail :: "platform \<Rightarrow> world \<Rightarrow> u64 \<Rightarrow> u64 \<Rightarrow> u64 \<Rightarrow> halt + nat \<times> world" where
  "assert_fail P w expr file line =
    fmt_fprintf P w stderr (lit P assert_format) [file, line, expr]"

section \<open>The buffer is never overrun\<close>

lemma c_strncpy_loop_bounds:
  assumes "i + k \<le> n" and "n \<le> 2 ^ 64" and "only (span dest n) m0 m"
  shows "\<exists>i' m'. c_strncpy_loop k m dest src i = (i', m') \<and> i' \<le> i + k \<and> only (span dest n) m0 m'"
  using assms
proof (induction k arbitrary: m i)
  case (Suc k)
  show ?case
  proof (cases "m (src + of_nat i) = 0")
    case False
    have "dest + of_nat i \<in> span dest n" using Suc.prems by (intro in_span_of_nat) auto
    then have "only (span dest n) m0 (m(dest + of_nat i := m (src + of_nat i)))"
      using Suc.prems(3) by (rule only_upd[rotated])
    then obtain i' m' where
      "c_strncpy_loop k (m(dest + of_nat i := m (src + of_nat i))) dest src (Suc i) = (i', m')"
      "i' \<le> Suc i + k" "only (span dest n) m0 m'"
      using Suc.IH[of "Suc i"] Suc.prems(1,2) by (metis add_Suc_right add_Suc)
    then show ?thesis using False by (intro exI[of _ i'] exI[of _ m']) simp
  qed (use Suc.prems in simp)
qed simp

lemma c_strncpy_bounds:
  assumes "0 < len" and "len \<le> 2 ^ 64"
  shows "\<exists>i m'. c_strncpy m dest src (int len) = (int i, m') \<and> i < len \<and> only (span dest len) m m'"
proof (cases "dest = 0 \<or> src = 0")
  case True
  then show ?thesis using assms by (intro exI[of _ 0] exI[of _ m]) (auto simp: c_strncpy_def)
next
  case False
  have n: "nat (int len - 1) = len - 1" by simp
  obtain i m' where l: "c_strncpy_loop (len - 1) m dest src 0 = (i, m')" "i \<le> len - 1"
      "only (span dest len) m m'"
    using c_strncpy_loop_bounds[of 0 "len - 1" len dest m m src] assms by auto
  then have "i < len" using assms(1) by linarith
  moreover from this have "only (span dest len) m (m'(dest + of_nat i := 0))"
    using assms(2) l(3) by (intro only_upd in_span_of_nat)
  ultimately show ?thesis using False assms(1) l(1)
    by (intro exI[of _ i] exI[of _ "m'(dest + of_nat i := 0)"]) (simp add: c_strncpy_def n)
qed

lemma write_hex_bounds:
  assumes "i \<le> bound" and "bound \<le> n" and "n \<le> 2 ^ 64" and "only (span buf n) m0 m"
  shows "\<exists>i' m'. write_hex k m buf bound rx i = (i', m') \<and> i' \<le> bound \<and> only (span buf n) m0 m'"
  using assms(1,4)
proof (induction k arbitrary: m rx i)
  case (Suc k)
  show ?case
  proof (cases "bound - i = 0")
    case False
    then have "i < bound" by simp
    then have "only (span buf n) m0 (m(buf + of_nat i := c))" for c
      using assms(2,3) by (intro only_upd[OF Suc.prems(2)] in_span_of_nat) auto
    then obtain i' m' where "write_hex k (m(buf + of_nat i := bytes_of hex_digits ! unat (rx mod 16)))
        buf bound (rx div 16) (i + 1) = (i', m')" "i' \<le> bound" "only (span buf n) m0 m'"
      using Suc.IH[of "i + 1"] \<open>i < bound\<close> by (metis Suc_eq_plus1 Suc_leI)
    then show ?thesis using False by (intro exI[of _ i'] exI[of _ m']) simp
  qed (use Suc.prems in simp)
qed simp

lemma print_hex_bounds:
  assumes "unat (sl_cap s) \<le> n" and "n \<le> 2 ^ 64"
  shows "\<exists>i m'. print_hex m s num = (i, m') \<and> i \<le> unat (sl_cap s) \<and> only (span (sl_base s) n) m m'"
proof -
  let ?b = "sl_base s" and ?c = "unat (sl_cap s)"
  consider "?c = 0" | "?c = 1" | "2 \<le> ?c" by linarith
  then show ?thesis
  proof cases
    case 2
    then have "only (span ?b n) m (m(?b := 48))"
      using assms in_span_of_nat[of 0 n ?b] by (intro only_upd) auto
    then show ?thesis using 2 by (simp add: print_hex_def Let_def)
  next
    case 3
    then have "only (span ?b n) m ((m(?b := 48))(?b + 1 := 120))"
      using assms in_span_of_nat[of 0 n ?b] in_span_of_nat[of 1 n ?b] by (intro only_upd) auto
    from write_hex_bounds[OF 3 assms this] 3 show ?thesis
      by (auto simp: print_hex_def Let_def split: prod.split)
  qed (simp add: print_hex_def)
qed

lemma room_span:
  assumes "j \<le> max_buf"
  shows "span (buf + of_nat j) (max_buf - j) \<subseteq> span buf max_buf"
proof (rule span_sub)
  have "unat (of_nat j :: u64) = j" using assms by (intro unat_of_nat_less) (simp add: max_buf_def)
  then show "unat (of_nat j :: u64) + (max_buf - j) \<le> max_buf" using assms by simp
qed (simp add: max_buf_def)

lemma unat_room: "unat (of_nat (max_buf - j) :: u64) = max_buf - j"
  by (intro unat_of_nat_less) (simp add: max_buf_def)

lemma sint32_range: "- (2 ^ 63) < sint (x :: u32)" "sint (x :: u32) < 2 ^ 63"
  using sint_lt[of x] sint_ge[of x] by simp_all

text \<open>The argument of a number directive is an \<^verbatim>\<open>int\<close>.\<close>

lemma int_in_slice_sint32 [simp]: "int_in_slice m s (sint (x :: u32)) = Inr (int_chars m s (sint x))"
  using sint_ge[of x] by (intro int_in_slice_int) simp

lemma fmt_directive_bounds:
  assumes "j < max_buf" and "fmt_directive m buf d args j = Inr (j', args', m')"
  shows "j \<le> j' \<and> j' \<le> max_buf \<and> only (span buf max_buf) m m'"
proof -
  let ?b = "buf + of_nat j" and ?r = "max_buf - j"
  let ?room = "unsafe_slice ?b (of_nat ?r)"
  have r: "0 < ?r" "?r \<le> 2 ^ 64" using assms(1) by (simp_all add: max_buf_def)
  have sub: "span ?b ?r \<subseteq> span buf max_buf" using assms(1) by (intro room_span) simp
  have upd: "only (span buf max_buf) m (m(?b := c))" for c
    using assms(1) by (intro only_upd[OF only_refl] in_span_of_nat) (simp_all add: max_buf_def)
  have cap: "unat (sl_cap ?room) = ?r" by (simp add: unsafe_slice_def unat_room)
  consider "d = 115" | "d = 100" | "d = 112" | "d \<notin> {115, 100, 112}" by blast
  then show ?thesis
  proof cases
    case 1
    then obtain a where a: "args = a # args'"
      using assms(2) by (auto simp: fmt_directive_def Let_def split: list.splits prod.splits)
    obtain i m1 where c: "c_strncpy m ?b a (int ?r) = (int i, m1)" "i < ?r" "only (span ?b ?r) m m1"
      using c_strncpy_bounds[OF r] by blast
    then have "j' = j + i" "m' = m1"
      using assms(2) 1 a by (simp_all add: fmt_directive_def Let_def)
    then show ?thesis using c only_mono[OF c(3) sub] by simp
  next
    case 2
    then obtain a where a: "args = a # args'"
      using assms(2) by (auto simp: fmt_directive_def Let_def split: list.splits prod.splits)
    let ?bs = "take ?r (dec_int (sint (ucast a :: u32)))"
    have i: "int_chars m ?room (sint (ucast a :: u32)) = (of_nat (length ?bs), st_bytes m ?b ?bs)"
      using int_chars_spec[OF sint32_range, of m ?room "ucast a"] cap
      by (simp add: Let_def unsafe_slice_def)
    have l: "length ?bs \<le> ?r" by simp
    then have "unat (of_nat (length ?bs) :: u64) = length ?bs"
      by (intro unat_of_nat_less) (simp add: max_buf_def)
    then have "j' = j + length ?bs" "m' = st_bytes m ?b ?bs"
      using assms(2) 2 a i by (simp_all add: fmt_directive_def Let_def)
    moreover have "only (span buf max_buf) m (st_bytes m ?b ?bs)"
      using span_mono[OF l] sub by (intro only_st_bytes_in) auto
    ultimately show ?thesis using l assms(1) by simp
  next
    case 3
    then obtain a where a: "args = a # args'"
      using assms(2) by (auto simp: fmt_directive_def Let_def split: list.splits prod.splits)
    obtain i m1 where c: "print_hex m ?room a = (i, m1)" "i \<le> ?r" "only (span ?b ?r) m m1"
      using print_hex_bounds[of ?room ?r m a] r(2) cap by (auto simp: unsafe_slice_def)
    then have "j' = j + i" "m' = m1"
      using assms(2) 3 a by (simp_all add: fmt_directive_def Let_def)
    then show ?thesis using c only_mono[OF c(3) sub] assms(1) by simp
  next
    case 4
    then show ?thesis
      using assms upd by (auto simp: fmt_directive_def Let_def split: if_splits list.splits)
  qed
qed

lemma fmt_loop_bounds:
  assumes "fmt_loop m buf fmt i args j = Inr (j', m')" and "j \<le> max_buf"
  shows "j' \<le> max_buf \<and> only (span buf max_buf) m m'"
  using assms
proof (induction m buf fmt i args j rule: fmt_loop.induct)
  case (1 m buf fmt i args j)
  let ?c = "m (fmt + of_nat i)"
  note step = "1.prems"(1)[unfolded fmt_loop.simps[of m buf fmt i args j]]
  have i: "\<not> 2 ^ 64 \<le> i" using step by (auto split: if_splits)
  show ?case
  proof (cases "?c \<noteq> 0 \<and> j < max_buf")
    case False
    then show ?thesis using step i "1.prems"(2) by (simp split: if_splits)
  next
    case go: True
    show ?thesis
    proof (cases "?c = 37")
      case True
      then obtain j1 args1 m1 where d:
          "fmt_directive m buf (m (fmt + of_nat (i + 1))) args j = Inr (j1, args1, m1)"
          "fmt_loop m1 buf fmt (i + 2) args1 j1 = Inr (j', m')"
        using step i go by (auto split: sum.splits)
      from fmt_directive_bounds[OF _ d(1)] go
      have b: "j1 \<le> max_buf" "only (span buf max_buf) m m1" by simp_all
      from "1.IH"(1)[OF i go True d(1) refl refl d(2) b(1)] b(2) show ?thesis
        by (auto intro: only_trans)
    next
      case False
      let ?m = "m(buf + of_nat j := ?c)"
      have l: "fmt_loop ?m buf fmt (i + 1) args (j + 1) = Inr (j', m')"
        using step i go False by (simp split: if_splits)
      have "only (span buf max_buf) m ?m"
        using go by (intro only_upd[OF only_refl] in_span_of_nat) (simp_all add: max_buf_def)
      with "1.IH"(2)[OF i go False l] go show ?thesis
        by (auto simp: fun_upd_def intro: only_trans)
    qed
  qed
qed

section \<open>When it returns\<close>

text \<open>The number of arguments a format consumes; \<open>None\<close> when it ends in a lone percent sign.\<close>

fun args_needed :: "u8 list \<Rightarrow> nat option" where
  "args_needed [] = Some 0"
| "args_needed [c] = (if c = 37 then None else Some 0)"
| "args_needed (c # d # f) =
     (if c = 37 then map_option (\<lambda>n. if d \<in> {99, 115, 100, 112} then Suc n else n) (args_needed f)
      else args_needed (d # f))"

lemma fmt_directive_returns:
  assumes "d \<in> {99, 115, 100, 112} \<Longrightarrow> args \<noteq> []"
  shows "\<exists>j' m'. fmt_directive m buf d args j =
    Inr (j', if d \<in> {99, 115, 100, 112} then tl args else args, m')"
proof (cases "d \<in> {99, 115, 100, 112}")
  case True
  then obtain a as where "args = a # as" using assms by (cases args) auto
  with True show ?thesis by (auto simp: fmt_directive_def Let_def split: prod.splits)
qed (auto simp: fmt_directive_def Let_def)

lemma fmt_loop_returns:
  assumes "cstr_at m fmt (pre @ rest)" and "span fmt (Suc (length (pre @ rest))) \<inter> span buf max_buf = {}"
    and "args_needed rest = Some n" and "n \<le> length args" and "j \<le> max_buf"
  shows "\<exists>r. fmt_loop m buf fmt (length pre) args j = Inr r"
  using assms
proof (induction "length rest" arbitrary: rest pre m args j n rule: less_induct)
  case less
  note c = less.prems(1)
  have i: "\<not> 2 ^ 64 \<le> length pre" using c by (simp add: cstr_at_def)
  show ?case
  proof (cases "rest = [] \<or> \<not> j < max_buf")
    case True
    then have "m (fmt + of_nat (length pre)) = 0 \<or> \<not> j < max_buf"
      using c by (auto simp: cstr_at_def)
    then show ?thesis using i by (auto simp: fmt_loop.simps[of m buf fmt "length pre"])
  next
    case False
    then obtain x f where x: "rest = x # f" and j: "j < max_buf" by (cases rest) auto
    have mx: "m (fmt + of_nat (length pre)) = x" "x \<noteq> 0"
      using cstr_at_nth[OF c, of "length pre"] x by simp_all
    show ?thesis
    proof (cases "x = 37")
      case False
      let ?m = "m(buf + of_nat j := x)"
      have "only (span buf max_buf) m ?m"
        using j by (intro only_upd[OF only_refl] in_span_of_nat) (simp_all add: max_buf_def)
      from cstr_at_only[OF c this less.prems(2)]
      have c': "cstr_at ?m fmt ((pre @ [x]) @ f)" by (simp add: x)
      have s: "span fmt (Suc (length ((pre @ [x]) @ f))) \<inter> span buf max_buf = {}"
        using less.prems(2) by (simp add: x)
      have n: "args_needed f = Some n" using less.prems(3) x False by (cases f) auto
      have "\<exists>r. fmt_loop ?m buf fmt (length (pre @ [x])) args (j + 1) = Inr r"
        by (rule less.hyps[OF _ c' s n less.prems(4)]) (use j x in simp_all)
      then show ?thesis using i j mx False by (simp add: fmt_loop.simps[of m buf fmt "length pre"])
    next
      case True
      then obtain d f' where f: "f = d # f'" using less.prems(3) x by (cases f) auto
      obtain k where k: "args_needed f' = Some k"
        "n = (if d \<in> {99, 115, 100, 112} then Suc k else k)"
        using less.prems(3) x f True by auto
      let ?args = "if d \<in> {99, 115, 100, 112} then tl args else args"
      have md: "m (fmt + of_nat (length pre + 1)) = d"
        using cstr_at_nth[OF c, of "length pre + 1"] x f by (simp add: nth_append)
      obtain j' m' where dir: "fmt_directive m buf d args j = Inr (j', ?args, m')"
        using fmt_directive_returns[of d args m buf j] k(2) less.prems(4)
        by (cases "args = []") (auto split: if_splits)
      note b = fmt_directive_bounds[OF j dir]
      from cstr_at_only[OF c _ less.prems(2)] b
      have c': "cstr_at m' fmt ((pre @ [x, d]) @ f')" by (simp add: x f)
      have s: "span fmt (Suc (length ((pre @ [x, d]) @ f'))) \<inter> span buf max_buf = {}"
        using less.prems(2) by (simp add: x f)
      have len: "k \<le> length ?args" using less.prems(4) k(2) by auto
      have "\<exists>r. fmt_loop m' buf fmt (length (pre @ [x, d])) ?args j' = Inr r"
        by (rule less.hyps[OF _ c' s k(1) len]) (use b x f in simp_all)
      moreover have "m (fmt + of_nat (length pre)) = 37" using mx True by simp
      ultimately show ?thesis
        using i j md dir by (simp add: fmt_loop.simps[of m buf fmt "length pre"])
    qed
  qed
qed

text \<open>
  A formatted write with a well-formed format and enough arguments returns, changes the memory
  only in its own buffer and makes one write call, of at most 2048 bytes.
\<close>

lemma fmt_fprintf_effect:
  assumes "kernel_ok (kern P)" and "cstr_at (wmem w) fmt f"
    and "span fmt (Suc (length f)) \<inter> span (stk P ''fmt_fprintf.buf'') max_buf = {}"
    and "args_needed f = Some n" and "n \<le> length args"
  shows "\<exists>j m bs. fmt_fprintf P w stream fmt args = Inr (j, w\<lparr>wmem := m,
      trace := write_call stream (stk P ''fmt_fprintf.buf'') bs # trace w\<rparr>) \<and>
    length bs = j \<and> j \<le> max_buf \<and> only (span (stk P ''fmt_fprintf.buf'') max_buf) (wmem w) m"
proof -
  let ?buf = "stk P ''fmt_fprintf.buf''"
  have "\<exists>r. fmt_loop (wmem w) ?buf fmt 0 args 0 = Inr r"
    using fmt_loop_returns[of "wmem w" fmt "[]" f ?buf n args 0] assms(2-5) by simp
  then obtain j m where l: "fmt_loop (wmem w) ?buf fmt 0 args 0 = Inr (j, m)" by auto
  from fmt_loop_bounds[OF l] have b: "j \<le> max_buf" "only (span ?buf max_buf) (wmem w) m"
    by simp_all
  then have "unat (of_nat j :: u64) = j" by (intro unat_of_nat_less) (simp add: max_buf_def)
  then show ?thesis
    using b l sys_write_world[OF assms(1), of "w\<lparr>wmem := m\<rparr>" stream ?buf "of_nat j"]
    by (intro exI[of _ j] exI[of _ m] exI[of _ "ld_bytes m ?buf j"])
      (simp add: fmt_fprintf_def Let_def)
qed

text \<open>
  \<open>fmt_ok P m f n\<close>: the literal \<open>f\<close> is in the memory outside the buffer, and is a
  format with \<open>n\<close> arguments. \<open>reported\<close> is what a report then does.
\<close>

definition fmt_ok :: "platform \<Rightarrow> mem \<Rightarrow> string \<Rightarrow> nat \<Rightarrow> bool" where
  "fmt_ok P m f n \<longleftrightarrow> cstr_at m (lit P f) (bytes_of f) \<and>
     span (lit P f) (Suc (length f)) \<inter> span (stk P ''fmt_fprintf.buf'') max_buf = {} \<and>
     args_needed (bytes_of f) = Some n"

definition reported :: "platform \<Rightarrow> u32 \<Rightarrow> world \<Rightarrow> world \<Rightarrow> bool" where
  "reported P stream w w' \<longleftrightarrow>
     (\<exists>bs. length bs \<le> max_buf \<and>
        trace w' = write_call stream (stk P ''fmt_fprintf.buf'') bs # trace w) \<and>
     only (span (stk P ''fmt_fprintf.buf'') max_buf) (wmem w) (wmem w')"

lemma fmt_report:
  assumes "kernel_ok (kern P)" and "fmt_ok P (wmem w) f n" and "n \<le> length args"
  obtains j w' where "fmt_fprintf P w stream (lit P f) args = Inr (j, w')" "reported P stream w w'"
proof -
  from fmt_fprintf_effect[of P w "lit P f" "bytes_of f" n args stream] assms
  obtain j m bs where "fmt_fprintf P w stream (lit P f) args = Inr (j, w\<lparr>wmem := m,
      trace := write_call stream (stk P ''fmt_fprintf.buf'') bs # trace w\<rparr>)"
    "length bs = j" "j \<le> max_buf" "only (span (stk P ''fmt_fprintf.buf'') max_buf) (wmem w) m"
    by (auto simp: fmt_ok_def)
  then show ?thesis by (intro that) (auto simp: reported_def)
qed

section \<open>Properties\<close>

text \<open>
  C24: formatted output never writes outside its buffer of 2048 bytes and never sends more than
  that, whatever the format and the arguments are: a wrong format may read wrong memory, but it
  cannot overrun the buffer.
\<close>

theorem fmt_fprintf_within_buffer:
  assumes "kernel_ok (kern P)" and "fmt_fprintf P w stream fmt args = Inr (j, w')"
  shows "reported P stream w w' \<and> j \<le> max_buf"
proof -
  let ?buf = "stk P ''fmt_fprintf.buf''"
  obtain m where m: "fmt_loop (wmem w) ?buf fmt 0 args 0 = Inr (j, m)"
    "w' = world_of (sys_write P (w\<lparr>wmem := m\<rparr>) stream ?buf (of_nat j))"
    using assms(2) by (auto simp: fmt_fprintf_def Let_def andthen_Inr_iff)
  have b: "j \<le> max_buf" "only (span ?buf max_buf) (wmem w) m"
    using fmt_loop_bounds[OF m(1)] by simp_all
  then have "unat (of_nat j :: u64) = j" by (intro unat_of_nat_less) (simp add: max_buf_def)
  then show ?thesis
    using sys_write_world[OF assms(1), of "w\<lparr>wmem := m\<rparr>" stream ?buf "of_nat j"] b
    unfolding reported_def m(2)
    by (intro conjI exI[of _ "ld_bytes m ?buf j"]) simp_all
qed

text \<open>
  C25: formatted output with a terminated format that lies outside the buffer, and with as many
  arguments as the format asks for, always returns, with exactly one write to the stream.
\<close>

theorem fmt_fprintf_returns:
  assumes "kernel_ok (kern P)" and "fmt_ok P (wmem w) f n" and "n \<le> length args"
  shows "\<exists>j w'. fmt_fprintf P w stream (lit P f) args = Inr (j, w') \<and> reported P stream w w'"
  by (rule fmt_report[OF assms, of stream]) blast

definition demo_fmt :: platform where
  "demo_fmt = \<lparr>kern = demo_kernel [], lit = \<lambda>_. 100, stk = \<lambda>_. 5000, fuel = 0\<rparr>"

definition demo_fmt_world :: world where
  "demo_fmt_world = \<lparr>wmem = st_bytes (\<lambda>_. 0) 100 (bytes_of ''n=%d''), trace = []\<rparr>"

lemma demo_fmt_ok: "fmt_ok demo_fmt (wmem demo_fmt_world) ''n=%d'' 1" "kernel_ok (kern demo_fmt)"
proof -
  have "span 100 (Suc (length ''n=%d'')) \<inter> span (5000 :: u64) 2048 = {}" by (rule disj_spans) (simp add: disj_def)
  then show "fmt_ok demo_fmt (wmem demo_fmt_world) ''n=%d'' 1"
    by (simp add: fmt_ok_def demo_fmt_def demo_fmt_world_def cstr_at_def max_buf_def ld_bytes_def st_bytes_def
        upt_rec)
  show "kernel_ok (kern demo_fmt)" by (simp add: demo_fmt_def demo_kernel_ok)
qed

theorem fmt_fprintf_within_buffer_witness:
  "\<exists>j w'. fmt_fprintf demo_fmt demo_fmt_world stderr 100 [42] = Inr (j, w') \<and>
     reported demo_fmt stderr demo_fmt_world w' \<and> j \<le> 2048"
proof -
  have "lit demo_fmt ''n=%d'' = 100" by (simp add: demo_fmt_def)
  then obtain j w' where "fmt_fprintf demo_fmt demo_fmt_world stderr 100 [42] = Inr (j, w')"
    using fmt_report[OF demo_fmt_ok(2,1), of "[42]" stderr] by (metis length_Cons le_add1 plus_1_eq_Suc)
  from fmt_fprintf_within_buffer[OF demo_fmt_ok(2) this] this show ?thesis
    by (auto simp: max_buf_def)
qed

theorem fmt_fprintf_returns_witness:
  "\<exists>j w'. fmt_fprintf demo_fmt demo_fmt_world stderr 100 [42] = Inr (j, w')"
  using fmt_fprintf_returns[OF demo_fmt_ok(2,1), of "[42]" stderr] by (auto simp: demo_fmt_def)

end
