(* ===== verification/Pool.thy ===== *)
theory Pool
  imports Fmt
begin

text \<open>
  The pool allocator, \<^verbatim>\<open>lib/cfa/src/pool.c\<close>. A \<^verbatim>\<open>pool\<close> is a structure in memory
  (\<open>buf\<close>, \<open>buf_len\<close>, \<open>chunk_size\<close>, \<open>head\<close> at offsets 0, 8, 16, 24); the free chunks are a
  linked list through their first eight bytes. The locale \<open>chunk_stack\<close> is the contract that
  the chat server relies on.
\<close>

section \<open>The code\<close>

definition newline :: string where "newline = [CHR 0x0A]"

definition p_buf :: "mem \<Rightarrow> u64 \<Rightarrow> u64" where "p_buf m p = ld64 m p"
definition p_buf_len :: "mem \<Rightarrow> u64 \<Rightarrow> u64" where "p_buf_len m p = ld64 m (p + 8)"
definition p_chunk_size :: "mem \<Rightarrow> u64 \<Rightarrow> u64" where "p_chunk_size m p = ld64 m (p + 16)"
definition p_head :: "mem \<Rightarrow> u64 \<Rightarrow> u64" where "p_head m p = ld64 m (p + 24)"

definition pool_is_power_of_two :: "u64 \<Rightarrow> bool" where
  "pool_is_power_of_two n \<longleftrightarrow> n AND (n - 1) = 0"

definition pool_align_forward :: "u64 \<Rightarrow> u64 \<Rightarrow> halt + u64" where
  "pool_align_forward ptr align =
    (if \<not> pool_is_power_of_two align then Inl (Assert_failed ''pool.c'' 16)
     else let p = ptr; a = align; modulo = p AND (a - 1)
          in Inr (if modulo \<noteq> 0 then p + (a - modulo) else p))"

fun pool_free_loop :: "nat \<Rightarrow> mem \<Rightarrow> u64 \<Rightarrow> u64 \<Rightarrow> mem" where
  "pool_free_loop 0 m p i = m"
| "pool_free_loop (Suc k) m p i =
     (let n = p_buf m p + i * p_chunk_size m p;
          m = st64 m n (p_head m p);
          m = st64 m (p + 24) n
      in pool_free_loop k m p (i + 1))"

definition pool_free_all :: "mem \<Rightarrow> u64 \<Rightarrow> mem" where
  "pool_free_all m p = pool_free_loop (unat (p_buf_len m p div p_chunk_size m p)) m p 0"

definition pool_init :: "mem \<Rightarrow> u64 \<Rightarrow> u64 \<Rightarrow> u64 \<Rightarrow> u64 \<Rightarrow> u64 \<Rightarrow> halt + mem" where
  "pool_init m p buf buf_len chunk_size chunk_align =
    (let ini_start = buf in
     andthen (pool_align_forward buf chunk_align) (\<lambda>start.
     let buf_len = buf_len - (start - ini_start) in
     andthen (pool_align_forward chunk_size chunk_align) (\<lambda>chunk_size.
     if \<not> 8 \<le> chunk_size then Inl (Assert_failed ''pool.c'' 56)
     else if \<not> chunk_size \<le> buf_len then Inl (Assert_failed ''pool.c'' 57)
     else let m = st64 m p buf;
              m = st64 m (p + 8) buf_len;
              m = st64 m (p + 16) chunk_size;
              m = st64 m (p + 24) 0
          in Inr (pool_free_all m p))))"

definition pool_get :: "platform \<Rightarrow> world \<Rightarrow> u64 \<Rightarrow> halt + u64 \<times> world" where
  "pool_get P w p =
    (let n = p_head (wmem w) p in
     if n = 0 then
       andthen (fmt_fprintf P w stderr (lit P (''Pool allocator has no free memory'' @ newline)) [])
         (\<lambda>(_, w). Inr (0, w))
     else Inr (n, w\<lparr>wmem := st64 (wmem w) (p + 24) (ld64 (wmem w) n)\<rparr>))"

definition pool_put :: "mem \<Rightarrow> u64 \<Rightarrow> u64 \<Rightarrow> halt + mem" where
  "pool_put m p ptr =
    (let start = p_buf m p; end = p_buf m p + p_buf_len m p in
     if ptr = 0 then Inr m
     else if \<not> (start \<le> ptr \<or> ptr < end) then Inl (Assert_failed ''pool.c'' 97)
     else let n = ptr; m = st64 m n (p_head m p) in Inr (st64 m (p + 24) n))"

section \<open>Alignment\<close>

lemma align8_nat: assumes "(n::nat) mod 8 \<noteq> 0" shows "n + (8 - n mod 8) = (n + 7) div 8 * 8"
proof -
  define q r where "q = n div 8" and "r = n mod 8"
  have n: "n = q * 8 + r" and r: "0 < r" "r < 8" using assms by (simp_all add: q_def r_def)
  have "q * 8 + (r + 7) = (q + 1) * 8 + (r - 1)" using r by simp
  moreover have "((q + 1) * 8 + (r - 1)) div 8 = q + 1" using r by (subst div_mult_self3) simp_all
  ultimately have "(n + 7) div 8 = q + 1" using n by (simp add: add.assoc)
  then show ?thesis using n r by simp
qed

text \<open>Aligning upwards to eight: the next multiple, less than eight away.\<close>

lemma pool_align_forward_8:
  assumes "unat p + 7 < 2 ^ 64"
  shows "\<exists>q. pool_align_forward p 8 = Inr q \<and> unat q = (unat p + 7) div 8 * 8"
proof -
  have m: "unat (p AND 7) = unat p mod 8"
    using unat_and_wmask[of p] by (simp add: wmask_def wsize_def)
  have pw: "pool_is_power_of_two 8" by (simp add: pool_is_power_of_two_def)
  show ?thesis
  proof (cases "unat p mod 8 = 0")
    case True
    then have "p AND 7 = 0" using m by (simp add: word_unat_eq_iff)
    then have "pool_align_forward p 8 = Inr p" using pw by (simp add: pool_align_forward_def)
    moreover have "unat p = (unat p + 7) div 8 * 8" using True by presburger
    ultimately show ?thesis by simp
  next
    case False
    then have nz: "p AND 7 \<noteq> 0" using m by (metis unat_0)
    have r: "unat p mod 8 < 8" by simp
    have "unat (8 - (p AND 7)) = 8 - unat p mod 8"
      unfolding m[symmetric] using m r by (subst unat_minus_of_le) (simp_all add: word_le_nat_alt)
    moreover have "unat p + (8 - unat p mod 8) < 2 ^ 64" using assms False by linarith
    ultimately have "unat (p + (8 - (p AND 7))) = unat p + (8 - unat p mod 8)"
      using unat_plus_less[of p "8 - (p AND 7)"] by simp
    also have "\<dots> = (unat p + 7) div 8 * 8" using False by (rule align8_nat)
    finally show ?thesis using nz pw by (simp add: pool_align_forward_def)
  qed
qed

lemma pool_align_forward_8_aligned: "unat p mod 8 = 0 \<Longrightarrow> pool_align_forward p 8 = Inr p"
  using unat_and_wmask[of p]
  by (simp add: pool_align_forward_def pool_is_power_of_two_def wmask_def wsize_def word_unat_eq_iff)

section \<open>Chunks\<close>

text \<open>
  \<open>pool_geom m p\<close>: the buffer of the pool does not wrap, does not start at null and does
  not overlap the pool structure, and a chunk can hold a link.
\<close>

definition pool_region :: "mem \<Rightarrow> u64 \<Rightarrow> u64 set" where
  "pool_region m p = span (p_buf m p) (unat (p_buf_len m p))"

definition chunk :: "mem \<Rightarrow> u64 \<Rightarrow> nat \<Rightarrow> u64" where
  "chunk m p i = p_buf m p + of_nat i * p_chunk_size m p"

definition chunk_count :: "mem \<Rightarrow> u64 \<Rightarrow> nat" where
  "chunk_count m p = unat (p_buf_len m p) div unat (p_chunk_size m p)"

definition chunks :: "mem \<Rightarrow> u64 \<Rightarrow> u64 list" where
  "chunks m p = map (chunk m p) [0..<chunk_count m p]"

definition pool_geom :: "mem \<Rightarrow> u64 \<Rightarrow> bool" where
  "pool_geom m p \<longleftrightarrow> 8 \<le> unat (p_chunk_size m p) \<and> 0 < unat (p_buf m p) \<and>
     unat (p_buf m p) + unat (p_buf_len m p) \<le> 2 ^ 64 \<and> span p 32 \<inter> pool_region m p = {}"

lemma chunk_inside:
  assumes "pool_geom m p" and "i < chunk_count m p"
  shows "unat (of_nat i * p_chunk_size m p) = i * unat (p_chunk_size m p)"
    and "i * unat (p_chunk_size m p) + unat (p_chunk_size m p) \<le> unat (p_buf_len m p)"
    and "unat (chunk m p i) = unat (p_buf m p) + i * unat (p_chunk_size m p)"
proof -
  let ?c = "unat (p_chunk_size m p)" and ?n = "unat (p_buf_len m p)"
  have c: "8 \<le> ?c" and wrap: "unat (p_buf m p) + ?n \<le> 2 ^ 64"
    using assms(1) by (simp_all add: pool_geom_def)
  have "Suc i \<le> ?n div ?c" using assms(2) by (simp add: chunk_count_def)
  then have "Suc i * ?c \<le> ?n div ?c * ?c" by (rule mult_right_mono) simp
  also have "\<dots> \<le> ?n" by (rule div_times_less_eq_dividend)
  finally show le: "i * ?c + ?c \<le> ?n" by simp
  have "i * ?c < 2 ^ 64" using le c unat_lt_2p64[of "p_buf_len m p"] by linarith
  then have "unat (of_nat (i * ?c) :: u64) = i * ?c" by (rule unat_of_nat_less)
  then show off: "unat (of_nat i * p_chunk_size m p) = i * ?c" by simp
  then show "unat (chunk m p i) = unat (p_buf m p) + i * ?c"
    using le c wrap by (simp add: chunk_def unat_plus_less)
qed

lemma chunk_span:
  assumes "pool_geom m p" and "i < chunk_count m p"
  shows "span (chunk m p i) (unat (p_chunk_size m p)) \<subseteq> pool_region m p"
  unfolding chunk_def pool_region_def
proof (rule span_sub)
  show "unat (of_nat i * p_chunk_size m p) + unat (p_chunk_size m p) \<le> unat (p_buf_len m p)"
    using chunk_inside(1,2)[OF assms] by simp
qed (rule less_imp_le[OF unat_lt_2p64])

lemma chunk_nonnull: "pool_geom m p \<Longrightarrow> i < chunk_count m p \<Longrightarrow> chunk m p i \<noteq> 0"
  using chunk_inside(3)[of m p i] by (auto simp: pool_geom_def)

text \<open>Different chunks do not overlap.\<close>

lemma chunk_disj:
  assumes g: "pool_geom m p" and i: "i < chunk_count m p" and j: "j < chunk_count m p" and "i \<noteq> j"
  defines "c \<equiv> unat (p_chunk_size m p)"
  shows "disj (chunk m p i) c (chunk m p j) c"
proof -
  have *: "disj (chunk m p k) c (chunk m p l) c"
    if k: "k < chunk_count m p" and l: "l < chunk_count m p" and "k < l" for k l
  proof -
    note uk = chunk_inside[OF g k, folded c_def] and ul = chunk_inside[OF g l, folded c_def]
    have "Suc k * c \<le> l * c" using \<open>k < l\<close> by (intro mult_right_mono) auto
    then have kl: "k * c + c \<le> l * c" by simp
    have c: "0 < c" "unat (p_buf m p) + unat (p_buf_len m p) \<le> 2 ^ 64" "0 < unat (p_buf m p)"
      using g by (simp_all add: pool_geom_def c_def)
    have "chunk m p k \<le> chunk m p l" unfolding word_le_nat_alt uk(3) ul(3) using kl by linarith
    from unat_minus_add_le[OF this] have "unat (chunk m p l - chunk m p k) + k * c = l * c"
      using uk(3) ul(3) by simp
    moreover have "chunk m p k < chunk m p l"
      unfolding word_less_nat_alt uk(3) ul(3) using kl c(1) by linarith
    from unat_minus_add_wrap[OF this]
    have "unat (chunk m p k - chunk m p l) + l * c = 2 ^ 64 + k * c"
      using uk(3) ul(3) by simp
    moreover have "l * c + c \<le> 2 ^ 64" using ul(2) c by linarith
    ultimately show ?thesis using kl unfolding disj_def by linarith
  qed
  show ?thesis
    using *[OF i j] *[OF j i] assms(4) disj_sym by (cases "i < j") (auto simp: not_less)
qed

lemma distinct_chunks: "pool_geom m p \<Longrightarrow> distinct (chunks m p)"
proof -
  assume g: "pool_geom m p"
  have "inj_on (chunk m p) {0..<chunk_count m p}"
  proof (rule inj_onI)
    fix i j assume ij: "i \<in> {0..<chunk_count m p}" "j \<in> {0..<chunk_count m p}" "chunk m p i = chunk m p j"
    have "8 \<le> unat (p_chunk_size m p)" using g by (simp add: pool_geom_def)
    then show "i = j"
      using chunk_disj[OF g, of i j] ij by (cases "i = j") (auto simp: disj_def)
  qed
  then show ?thesis by (simp add: chunks_def distinct_map)
qed

text \<open>What the stores of the allocator touch: the pool structure, and the link of a chunk.\<close>

definition same_pool :: "mem \<Rightarrow> mem \<Rightarrow> u64 \<Rightarrow> bool" where
  "same_pool m m' p \<longleftrightarrow> p_buf m' p = p_buf m p \<and> p_buf_len m' p = p_buf_len m p \<and>
     p_chunk_size m' p = p_chunk_size m p"

lemma same_pool_refl [simp]: "same_pool m m p"
  by (simp add: same_pool_def)

lemma same_pool_trans: "same_pool m m' p \<Longrightarrow> same_pool m' m'' p \<Longrightarrow> same_pool m m'' p"
  by (simp add: same_pool_def)

lemma same_pool_simps:
  assumes "same_pool m m' p"
  shows "pool_region m' p = pool_region m p" "chunk m' p = chunk m p"
    "chunk_count m' p = chunk_count m p" "chunks m' p = chunks m p" "pool_geom m' p = pool_geom m p"
proof -
  note s = assms[unfolded same_pool_def]
  show "pool_region m' p = pool_region m p" "chunk m' p = chunk m p" "chunk_count m' p = chunk_count m p"
    using s by (auto simp: pool_region_def chunk_def chunk_count_def)
  then show "chunks m' p = chunks m p" "pool_geom m' p = pool_geom m p"
    using s by (simp_all add: chunks_def pool_geom_def)
qed

lemma field_span: "unat k + n \<le> 32 \<Longrightarrow> span (p + k) n \<subseteq> span p 32"
  by (intro span_sub) simp_all

lemma field_spans:
  "span p 8 \<subseteq> span p 32" "span (p + 8) 8 \<subseteq> span p 32" "span (p + 16) 8 \<subseteq> span p 32"
  "span (p + 24) 8 \<subseteq> span p 32"
  using field_span[of 0 8 p] field_span[of 8 8 p] field_span[of 16 8 p] field_span[of 24 8 p]
  by simp_all

lemma same_pool_only:
  assumes "only S m m'" and "span p 24 \<inter> S = {}"
  shows "same_pool m m' p"
proof -
  have "span p 8 \<subseteq> span p 24" "span (p + 8) 8 \<subseteq> span p 24" "span (p + 16) 8 \<subseteq> span p 24"
    using span_sub[of 0 8 24 p] span_sub[of 8 8 24 p] span_sub[of 16 8 24 p] by simp_all
  then show ?thesis
    using assms c64.only_ld[OF assms(1)]
    by (simp add: same_pool_def p_buf_def p_buf_len_def p_chunk_size_def disjoint_iff subset_iff)
qed

lemma head_outside: "span (p + 24) 8 \<inter> span p 24 = {}"
  by (rule disj_spans) (simp add: disj_def)

definition link :: "u64 \<Rightarrow> u64 set" where "link x = span x 8"

lemma chunk_link:
  assumes "pool_geom m p" and "x \<in> set (chunks m p)"
  shows "link x \<subseteq> pool_region m p" and "x \<noteq> 0"
proof -
  obtain i where i: "i < chunk_count m p" "x = chunk m p i" using assms(2) by (auto simp: chunks_def)
  have "8 \<le> unat (p_chunk_size m p)" using assms(1) by (simp add: pool_geom_def)
  from span_mono[OF this, of x] chunk_span[OF assms(1) i(1)]
  show "link x \<subseteq> pool_region m p" by (auto simp: link_def i(2))
  show "x \<noteq> 0" using chunk_nonnull[OF assms(1) i(1)] i(2) by simp
qed

definition links :: "mem \<Rightarrow> u64 \<Rightarrow> u64 set" where
  "links m p = (\<Union>x \<in> set (chunks m p). link x)"

lemma links_region: "pool_geom m p \<Longrightarrow> links m p \<subseteq> pool_region m p"
  using chunk_link(1) by (auto simp: links_def)

lemma links_disjoint:
  assumes "pool_geom m p" and "x \<in> set (chunks m p)" "y \<in> set (chunks m p)" and "x \<noteq> y"
  shows "link x \<inter> link y = {}"
proof -
  let ?c = "unat (p_chunk_size m p)"
  obtain i j where ij: "i < chunk_count m p" "x = chunk m p i" "j < chunk_count m p" "y = chunk m p j"
    using assms(2,3) by (auto simp: chunks_def)
  then have "disj x ?c y ?c" using chunk_disj[OF assms(1)] assms(4) by auto
  from disj_spans[OF this] have "span x ?c \<inter> span y ?c = {}" .
  moreover have "8 \<le> ?c" using assms(1) by (simp add: pool_geom_def)
  ultimately show ?thesis using span_mono[of 8 ?c x] span_mono[of 8 ?c y] by (auto simp: link_def)
qed

lemma link_outside_pool: "pool_geom m p \<Longrightarrow> x \<in> set (chunks m p) \<Longrightarrow> link x \<inter> span p 32 = {}"
  using chunk_link(1)[of m p x] by (auto simp: pool_geom_def)

section \<open>The free list\<close>

text \<open>\<open>pool_ok m p fs\<close>: the free chunks of the pool are \<open>fs\<close>, the next one to give out first.\<close>

definition pool_ok :: "mem \<Rightarrow> u64 \<Rightarrow> u64 list \<Rightarrow> bool" where
  "pool_ok m p fs \<longleftrightarrow> pool_geom m p \<and> chain (ld64 m) (p_head m p) fs \<and> distinct fs \<and>
     set fs \<subseteq> set (chunks m p)"

lemma pool_ok_frame:
  assumes "pool_ok m p fs" and "only S m m'" and "span p 32 \<inter> S = {}"
    and "\<And>x. x \<in> set fs \<Longrightarrow> link x \<inter> S = {}"
  shows "pool_ok m' p fs" and "same_pool m m' p"
proof -
  have p: "span p 24 \<inter> S = {}" "span (p + 24) 8 \<inter> S = {}"
    using assms(3) span_mono[of 24 32 p] field_spans(4)[of p] by auto
  show same: "same_pool m m' p" by (rule same_pool_only[OF assms(2) p(1)])
  have "p_head m' p = p_head m p" unfolding p_head_def by (rule c64.only_ld[OF assms(2) p(2)])
  moreover have "ld64 m' x = ld64 m x" if "x \<in> set fs" for x
    using assms(4)[OF that] unfolding link_def by (rule c64.only_ld[OF assms(2)])
  then have "chain (ld64 m') (p_head m p) fs = chain (ld64 m) (p_head m p) fs"
    by (rule chain_cong)
  ultimately show "pool_ok m' p fs"
    using assms(1) same by (simp add: pool_ok_def same_pool_simps)
qed

text \<open>Pushing a chunk is the step of \<open>pool_put\<close> and of the loop of \<open>pool_free_all\<close>.\<close>

definition pool_push :: "mem \<Rightarrow> u64 \<Rightarrow> u64 \<Rightarrow> mem" where
  "pool_push m p n = st64 (st64 m n (p_head m p)) (p + 24) n"

lemma pool_push_only: "only (link n \<union> span (p + 24) 8) m (pool_push m p n)"
  unfolding pool_push_def link_def by (intro c64.only_st_in only_refl) auto

lemma pool_push_ok:
  assumes "pool_ok m p fs" and "x \<in> set (chunks m p)" and "x \<notin> set fs"
  shows "pool_ok (pool_push m p x) p (x # fs)" and "same_pool m (pool_push m p x) p"
proof -
  have g: "pool_geom m p" and fs: "set fs \<subseteq> set (chunks m p)" "distinct fs"
    using assms(1) by (auto simp: pool_ok_def)
  note lo = link_outside_pool[OF g]
  have "span p 24 \<inter> (link x \<union> span (p + 24) 8) = {}"
    using lo[OF assms(2)] span_mono[of 24 32 p] head_outside[of p] by auto
  then show same: "same_pool m (pool_push m p x) p" by (rule same_pool_only[OF pool_push_only])
  have hx: "link x \<inter> span (p + 24) 8 = {}" using lo[OF assms(2)] field_spans(4)[of p] by auto
  then have "ld64 (pool_push m p x) x = ld64 (st64 m x (p_head m p)) x"
    unfolding pool_push_def link_def by (rule c64.only_ld[OF c64.only_st])
  then have ldx: "ld64 (pool_push m p x) x = p_head m p" by (simp add: c64.ld_st_same)
  have ldy: "ld64 (pool_push m p x) y = ld64 m y" if "y \<in> set fs" for y
  proof (rule c64.only_ld[OF pool_push_only])
    have y: "y \<in> set (chunks m p)" "y \<noteq> x" using that fs assms(3) by auto
    from lo[OF y(1)] links_disjoint[OF g y(1) assms(2) y(2)]
    show "span y 8 \<inter> (link x \<union> span (p + 24) 8) = {}"
      using field_spans(4)[of p] by (auto simp: link_def)
  qed
  have "p_head (pool_push m p x) p = x" by (simp add: p_head_def pool_push_def c64.ld_st_same)
  moreover have "chain (ld64 (pool_push m p x)) (p_head m p) fs = chain (ld64 m) (p_head m p) fs"
    by (rule chain_cong) (rule ldy)
  ultimately show "pool_ok (pool_push m p x) p (x # fs)"
    using assms chunk_link(2)[OF g assms(2)]
    by (simp add: pool_ok_def same_pool_simps[OF same] ldx)
qed

section \<open>The operations\<close>

lemma pool_get_Cons:
  assumes "pool_ok (wmem w) p (x # fs)"
  shows "pool_get P w p = Inr (x, w\<lparr>wmem := st64 (wmem w) (p + 24) (ld64 (wmem w) x)\<rparr>)"
  using assms by (simp add: pool_get_def pool_ok_def)

lemma pool_pop_ok:
  assumes "pool_ok m p (x # fs)"
  shows "pool_ok (st64 m (p + 24) (ld64 m x)) p fs"
    and "same_pool m (st64 m (p + 24) (ld64 m x)) p"
proof -
  let ?m = "st64 m (p + 24) (ld64 m x)"
  have g: "pool_geom m p" and fs: "set fs \<subseteq> set (chunks m p)" "distinct fs"
    and ch: "chain (ld64 m) (ld64 m x) fs"
    using assms by (auto simp: pool_ok_def)
  show same: "same_pool m ?m p" using head_outside[of p] by (intro same_pool_only[OF c64.only_st]) auto
  have "ld64 ?m y = ld64 m y" if "y \<in> set fs" for y
    using link_outside_pool[OF g, of y] that fs field_spans(4)[of p]
    by (intro c64.only_ld[OF c64.only_st]) (auto simp: link_def)
  then have "chain (ld64 ?m) (ld64 m x) fs = chain (ld64 m) (ld64 m x) fs" by (rule chain_cong)
  then show "pool_ok ?m p fs"
    using g fs ch by (simp add: pool_ok_def same_pool_simps[OF same] p_head_def c64.ld_st_same)
qed

lemma pool_put_push:
  assumes "unat (p_buf m p) + unat (p_buf_len m p) < 2 ^ 64" and "ptr \<noteq> 0"
  shows "pool_put m p ptr = Inr (pool_push m p ptr)"
proof -
  have "p_buf m p \<le> p_buf m p + p_buf_len m p"
    using unat_plus_less[OF assms(1)] by (simp add: word_le_nat_alt)
  then have "p_buf m p \<le> ptr \<or> ptr < p_buf m p + p_buf_len m p" by auto
  then show ?thesis using assms(2) by (simp add: pool_put_def pool_push_def Let_def)
qed

text \<open>A chunk passes the check of \<open>pool_put\<close> even at the end of the address space.\<close>

lemma pool_put_chunk:
  assumes "pool_geom m p" and "x \<in> set (chunks m p)"
  shows "pool_put m p x = Inr (pool_push m p x)"
proof -
  obtain i where i: "i < chunk_count m p" "x = chunk m p i" using assms(2) by (auto simp: chunks_def)
  from chunk_inside(3)[OF assms(1) i(1)] have "p_buf m p \<le> x" by (simp add: word_le_nat_alt i(2))
  then show ?thesis
    using chunk_link(2)[OF assms] by (simp add: pool_put_def pool_push_def Let_def)
qed

lemma pool_free_loop_ok:
  assumes "pool_ok m p (rev (map (chunk m p) [0..<i]))" and "i + k \<le> chunk_count m p"
  shows "pool_ok (pool_free_loop k m p (of_nat i)) p (rev (map (chunk m p) [0..<i + k])) \<and>
    same_pool m (pool_free_loop k m p (of_nat i)) p \<and>
    only (span p 32 \<union> links m p) m (pool_free_loop k m p (of_nat i))"
  using assms
proof (induction k arbitrary: m i)
  case (Suc k)
  let ?n = "chunk m p i" and ?S = "span p 32 \<union> links m p"
  let ?m = "pool_push m p ?n"
  have g: "pool_geom m p" and i: "i < chunk_count m p"
    using Suc.prems by (simp_all add: pool_ok_def)
  have n: "?n \<in> set (chunks m p)" using i by (simp add: chunks_def)
  have "inj_on (chunk m p) {0..<chunk_count m p}"
    using distinct_chunks[OF g] by (simp add: chunks_def distinct_map)
  then have "?n \<notin> set (rev (map (chunk m p) [0..<i]))" using i by (auto dest: inj_onD)
  note push = pool_push_ok[OF Suc.prems(1) n this]
  have "pool_ok ?m p (rev (map (chunk ?m p) [0..<Suc i]))"
    using push(1) by (simp add: same_pool_simps(2)[OF push(2)])
  from Suc.IH[OF this] Suc.prems(2) have IH:
    "pool_ok (pool_free_loop k ?m p (of_nat (Suc i))) p (rev (map (chunk m p) [0..<i + Suc k]))"
    "same_pool ?m (pool_free_loop k ?m p (of_nat (Suc i))) p"
    "only ?S ?m (pool_free_loop k ?m p (of_nat (Suc i)))"
    using push(2) by (simp_all add: same_pool_simps links_def)
  have "link ?n \<union> span (p + 24) 8 \<subseteq> ?S" using n field_spans(4)[of p] by (auto simp: links_def)
  with pool_push_only have "only ?S m ?m" by (rule only_mono)
  moreover have "pool_free_loop (Suc k) m p (of_nat i) = pool_free_loop k ?m p (of_nat (Suc i))"
    by (simp add: pool_push_def chunk_def Let_def add.commute)
  ultimately show ?case
    using IH(1) same_pool_trans[OF push(2) IH(2)] only_trans[OF _ IH(3)] by metis
qed simp

lemma chunk_count_word:
  "unat (p_buf_len m p div p_chunk_size m p) = chunk_count m p"
  by (simp add: chunk_count_def unat_div_distrib)

text \<open>
  \<open>pool_init\<close> in the case the chat server uses: the buffer and the chunk size are already
  aligned to eight.
\<close>

definition pool_fits :: "u64 \<Rightarrow> u64 \<Rightarrow> u64 \<Rightarrow> u64 \<Rightarrow> bool" where
  "pool_fits p buf len cs \<longleftrightarrow> 8 \<le> unat cs \<and> cs \<le> len \<and> 0 < unat buf \<and>
     unat buf + unat len \<le> 2 ^ 64 \<and> span p 32 \<inter> span buf (unat len) = {}"

lemma pool_init_ok:
  assumes fits: "pool_fits p buf len cs" and al: "8 dvd unat buf" "8 dvd unat cs"
  shows "\<exists>m'. pool_init m p buf len cs 8 = Inr m' \<and> pool_ok m' p (rev (chunks m' p)) \<and>
    p_buf m' p = buf \<and> p_buf_len m' p = len \<and> p_chunk_size m' p = cs \<and>
    only (span p 32 \<union> links m' p) m m'"
proof -
  define m1 where "m1 = st64 (st64 (st64 (st64 m p buf) (p + 8) len) (p + 16) cs) (p + 24) 0"
  have f: "p_buf m1 p = buf" "p_buf_len m1 p = len" "p_chunk_size m1 p = cs" "p_head m1 p = 0"
    by (simp_all add: m1_def p_buf_def p_buf_len_def p_chunk_size_def p_head_def c64.ld_st_same
        c64.ld_st_disj disj_def)
  have o1: "only (span p 32) m m1" unfolding m1_def by (intro c64.only_st_in only_refl field_spans)
  have reg: "pool_region m1 p = span buf (unat len)" using f by (simp add: pool_region_def)
  have g: "pool_geom m1 p" using fits f reg by (simp add: pool_geom_def pool_fits_def)
  then have ok: "pool_ok m1 p (rev (map (chunk m1 p) [0..<0]))" using f by (simp add: pool_ok_def)
  define m2 where "m2 = pool_free_loop (chunk_count m1 p) m1 p 0"
  from pool_free_loop_ok[OF ok, of "chunk_count m1 p"]
  have l: "pool_ok m2 p (rev (chunks m1 p))" "same_pool m1 m2 p"
    "only (span p 32 \<union> links m1 p) m1 m2"
    by (simp_all add: chunks_def m2_def)
  have lk: "links m2 p = links m1 p" by (simp add: links_def same_pool_simps(4)[OF l(2)])
  have "(8::u64) \<le> cs" using fits by (simp add: pool_fits_def word_le_nat_alt)
  moreover have "pool_align_forward buf 8 = Inr buf" "pool_align_forward cs 8 = Inr cs"
    using al by (simp_all add: pool_align_forward_8_aligned)
  ultimately have "pool_init m p buf len cs 8 = Inr m2"
    using fits f by (simp add: pool_init_def Let_def pool_fits_def pool_free_all_def m1_def[symmetric]
        chunk_count_word m2_def)
  moreover have "only (span p 32 \<union> links m2 p) m m2"
    unfolding lk by (rule only_trans[OF only_mono[OF o1] l(3)]) simp
  ultimately show ?thesis
    using l(1,2) f by (intro exI[of _ m2]) (simp add: same_pool_def same_pool_simps(4)[OF l(2)])
qed

section \<open>The contract of the allocator\<close>

text \<open>
  A stack of chunks: \<open>rep s xs\<close> says that the free chunks of the state \<open>s\<close> are
  \<open>xs\<close>, \<open>units s\<close> is the set of all its chunks. This is what the chat server relies on:
  a chunk given out was free and is free no more, until it is put back.
\<close>

fun take_chunks :: "('s \<Rightarrow> halt + u64 \<times> 's) \<Rightarrow> nat \<Rightarrow> 's \<Rightarrow> halt + u64 list \<times> 's" where
  "take_chunks get 0 s = Inr ([], s)"
| "take_chunks get (Suc n) s =
     andthen (get s) (\<lambda>(x, s). andthen (take_chunks get n s) (\<lambda>(xs, s). Inr (x # xs, s)))"

fun put_chunks :: "('s \<Rightarrow> u64 \<Rightarrow> halt + 's) \<Rightarrow> u64 list \<Rightarrow> 's \<Rightarrow> halt + 's" where
  "put_chunks put [] s = Inr s"
| "put_chunks put (x # xs) s = andthen (put s x) (put_chunks put xs)"

locale chunk_stack =
  fixes rep :: "'s \<Rightarrow> u64 list \<Rightarrow> bool"
    and units :: "'s \<Rightarrow> u64 set"
    and get :: "'s \<Rightarrow> halt + u64 \<times> 's"
    and put :: "'s \<Rightarrow> u64 \<Rightarrow> halt + 's"
  assumes rep_units: "rep s xs \<Longrightarrow> set xs \<subseteq> units s \<and> distinct xs"
    and get_rep: "rep s (x # xs) \<Longrightarrow> \<exists>s'. get s = Inr (x, s') \<and> rep s' xs \<and> units s' = units s"
    and put_rep: "rep s xs \<Longrightarrow> x \<in> units s \<Longrightarrow> x \<notin> set xs \<Longrightarrow>
      \<exists>s'. put s x = Inr s' \<and> rep s' (x # xs) \<and> units s' = units s"
begin

lemma get_of_put:
  assumes "rep s xs" and "x \<in> units s" and "x \<notin> set xs"
  obtains s' s'' where "put s x = Inr s'" and "get s' = Inr (x, s'')" and "rep s'' xs"
  using put_rep[OF assms] get_rep by metis

lemma take_chunks_rep:
  "rep s (xs @ ys) \<Longrightarrow>
   \<exists>s'. take_chunks get (length xs) s = Inr (xs, s') \<and> rep s' ys \<and> units s' = units s"
proof (induction xs arbitrary: s)
  case (Cons x xs)
  obtain s1 where s1: "get s = Inr (x, s1)" "rep s1 (xs @ ys)" "units s1 = units s"
    using get_rep[of s x "xs @ ys"] Cons.prems by auto
  from Cons.IH[OF s1(2)] s1 show ?case by auto
qed simp

lemma put_chunks_rep:
  "rep s ys \<Longrightarrow> set xs \<subseteq> units s \<Longrightarrow> distinct xs \<Longrightarrow> set xs \<inter> set ys = {} \<Longrightarrow>
   \<exists>s'. put_chunks put xs s = Inr s' \<and> rep s' (rev xs @ ys) \<and> units s' = units s"
proof (induction xs arbitrary: s ys)
  case (Cons x xs)
  obtain s1 where s1: "put s x = Inr s1" "rep s1 (x # ys)" "units s1 = units s"
    using put_rep[of s ys x] Cons.prems by auto
  have "\<exists>s'. put_chunks put xs s1 = Inr s' \<and> rep s' (rev xs @ x # ys) \<and> units s' = units s1"
    using Cons.prems s1 by (intro Cons.IH) auto
  then show ?case using s1 by auto
qed simp

text \<open>Everything that was given out can be put back, and can then be given out again.\<close>

lemma put_back:
  assumes "rep s (xs @ ys)"
  shows "\<exists>s' s''. take_chunks get (length xs) s = Inr (xs, s') \<and>
    put_chunks put (rev xs) s' = Inr s'' \<and> rep s'' (xs @ ys)"
proof -
  obtain s' where s': "take_chunks get (length xs) s = Inr (xs, s')" "rep s' ys" "units s' = units s"
    using take_chunks_rep[OF assms] by auto
  have "\<exists>s''. put_chunks put (rev xs) s' = Inr s'' \<and> rep s'' (rev (rev xs) @ ys) \<and> units s'' = units s'"
    using rep_units[OF assms] s' by (intro put_chunks_rep) auto
  then show ?thesis using s' by auto
qed

end

definition put_in :: "u64 \<Rightarrow> world \<Rightarrow> u64 \<Rightarrow> halt + world" where
  "put_in p w x = andthen (pool_put (wmem w) p x) (\<lambda>m. Inr (w\<lparr>wmem := m\<rparr>))"

interpretation pl: chunk_stack "\<lambda>w :: world. pool_ok (wmem w) p" "\<lambda>w. set (chunks (wmem w) p)"
  "\<lambda>w. pool_get P w p" "put_in p" for P p
proof
  fix w :: world and x xs
  assume "pool_ok (wmem w) p (x # xs)"
  from pool_get_Cons[OF this] pool_pop_ok[OF this] same_pool_simps(4)[OF pool_pop_ok(2)[OF this]]
  show "\<exists>w'. pool_get P w p = Inr (x, w') \<and> pool_ok (wmem w') p xs \<and>
      set (chunks (wmem w') p) = set (chunks (wmem w) p)"
    by simp
next
  fix w :: world and xs x
  assume ok: "pool_ok (wmem w) p xs" and x: "x \<in> set (chunks (wmem w) p)" "x \<notin> set xs"
  have "pool_put (wmem w) p x = Inr (pool_push (wmem w) p x)"
    using ok x(1) by (intro pool_put_chunk) (simp_all add: pool_ok_def)
  with pool_push_ok[OF ok x] same_pool_simps(4)[OF pool_push_ok(2)[OF ok x]]
  show "\<exists>w'. put_in p w x = Inr w' \<and> pool_ok (wmem w') p (x # xs) \<and>
      set (chunks (wmem w') p) = set (chunks (wmem w) p)"
    by (simp add: put_in_def)
qed (auto simp: pool_ok_def)

section \<open>Properties\<close>

text \<open>
  C19: initialising a pool with an aligned buffer makes every chunk of it free: the free list holds
  each chunk once, the chunks lie inside the buffer and do not overlap each other, and no byte
  outside the pool structure and the buffer changes.
\<close>

theorem pool_init_chunks:
  assumes "pool_fits p buf len cs" and "8 dvd unat buf" and "8 dvd unat cs"
  shows "\<exists>m'. pool_init m p buf len cs 8 = Inr m' \<and> pool_ok m' p (rev (chunks m' p)) \<and>
    length (chunks m' p) = unat len div unat cs \<and>
    (\<forall>i < length (chunks m' p). span (chunks m' p ! i) (unat cs) \<subseteq> span buf (unat len)) \<and>
    (\<forall>i < length (chunks m' p). \<forall>j < length (chunks m' p). i \<noteq> j \<longrightarrow>
       span (chunks m' p ! i) (unat cs) \<inter> span (chunks m' p ! j) (unat cs) = {}) \<and>
    only (span p 32 \<union> span buf (unat len)) m m'"
proof -
  obtain m' where m': "pool_init m p buf len cs 8 = Inr m'" "pool_ok m' p (rev (chunks m' p))"
    "p_buf m' p = buf" "p_buf_len m' p = len" "p_chunk_size m' p = cs"
    "only (span p 32 \<union> links m' p) m m'"
    using pool_init_ok[OF assms, of m] by blast
  have g: "pool_geom m' p" using m'(2) by (simp add: pool_ok_def)
  have only: "only (span p 32 \<union> span buf (unat len)) m m'"
    using links_region[OF g] by (intro only_mono[OF m'(6)]) (auto simp: pool_region_def m'(3,4))
  have n: "length (chunks m' p) = chunk_count m' p" "chunk_count m' p = unat len div unat cs"
    by (simp_all add: chunks_def chunk_count_def m'(4,5))
  have nth: "chunks m' p ! i = chunk m' p i" if "i < chunk_count m' p" for i
    using that by (simp add: chunks_def)
  have reg: "pool_region m' p = span buf (unat len)" by (simp add: pool_region_def m'(3,4))
  have "\<forall>i < length (chunks m' p). span (chunks m' p ! i) (unat cs) \<subseteq> span buf (unat len)"
    using chunk_span[OF g] nth n(1) by (simp add: m'(5) reg)
  moreover have "\<forall>i < length (chunks m' p). \<forall>j < length (chunks m' p). i \<noteq> j \<longrightarrow>
       span (chunks m' p ! i) (unat cs) \<inter> span (chunks m' p ! j) (unat cs) = {}"
    using chunk_disj[OF g] nth n(1) by (simp add: m'(5) disj_spans)
  ultimately show ?thesis using m'(1,2) only n by (intro exI[of _ m']) simp
qed

lemma demo_pool_fits: "pool_fits 64 4096 64 16"
proof -
  have "span 64 32 \<inter> span (4096 :: u64) 64 = {}" by (rule disj_spans) (simp add: disj_def)
  then show ?thesis by (simp add: pool_fits_def)
qed

theorem pool_init_chunks_witness:
  "\<exists>m'. pool_init (\<lambda>_. 0) 64 4096 64 16 8 = Inr m' \<and> pool_ok m' 64 (rev (chunks m' 64)) \<and>
     length (chunks m' 64) = 4"
  using pool_init_chunks[OF demo_pool_fits, of "\<lambda>_. 0"] by auto

text \<open>
  C20: chunks are given out from the top of the free list, and giving them back in the reverse order
  restores the free list, so that the same chunks come out again: no chunk is lost or given twice.
\<close>

theorem pool_put_back:
  assumes "pool_ok (wmem w) p (xs @ ys)"
  shows "\<exists>w1 w2. take_chunks (\<lambda>w. pool_get P w p) (length xs) w = Inr (xs, w1) \<and>
    put_chunks (put_in p) (rev xs) w1 = Inr w2 \<and> pool_ok (wmem w2) p (xs @ ys)"
  by (rule pl.put_back) (rule assms)

theorem pool_put_back_witness:
  "\<exists>m. \<forall>P h. \<exists>xs w1 w2. length xs = 3 \<and>
     take_chunks (\<lambda>w. pool_get P w 64) 3 \<lparr>wmem = m, trace = h\<rparr> = Inr (xs, w1) \<and>
     put_chunks (put_in 64) (rev xs) w1 = Inr w2"
proof -
  obtain m where m: "pool_ok m 64 (rev (chunks m 64))" "p_buf_len m 64 = 64" "p_chunk_size m 64 = 16"
    using pool_init_ok[OF demo_pool_fits, of "\<lambda>_. 0"] by auto
  define xs where "xs = take 3 (rev (chunks m 64))"
  have xs: "xs @ drop 3 (rev (chunks m 64)) = rev (chunks m 64)" "length xs = 3"
    using m(2,3) by (simp_all add: xs_def chunks_def chunk_count_def)
  have "\<exists>w1 w2. take_chunks (\<lambda>w. pool_get P w 64) 3 \<lparr>wmem = m, trace = h\<rparr> = Inr (xs, w1) \<and>
      put_chunks (put_in 64) (rev xs) w1 = Inr w2" for P h
    using pool_put_back[of "\<lparr>wmem = m, trace = h\<rparr>" 64 xs "drop 3 (rev (chunks m 64))" P] m(1) xs by auto
  then show ?thesis using xs(2) by blast
qed

text \<open>
  An exhausted pool returns the null pointer and reports it on the standard error stream; the
  pool itself is unchanged.
\<close>

theorem pool_get_empty:
  assumes "pool_ok (wmem w) p []" and "kernel_ok (kern P)"
    and "fmt_ok P (wmem w) (''Pool allocator has no free memory'' @ newline) 0"
  shows "\<exists>w'. pool_get P w p = Inr (0, w') \<and> reported P stderr w w'"
proof -
  have "p_head (wmem w) p = 0" using assms(1) by (simp add: pool_ok_def)
  moreover obtain j w' where
    "fmt_fprintf P w stderr (lit P (''Pool allocator has no free memory'' @ newline)) [] = Inr (j, w')"
    "reported P stderr w w'"
    using fmt_report[OF assms(2,3), of "[]" stderr] by auto
  ultimately show ?thesis by (simp add: pool_get_def)
qed

definition empty_message :: string where
  "empty_message = ''Pool allocator has no free memory'' @ newline"

definition demo_empty :: mem where
  "demo_empty = st64 (st64 (st64 (st64 (st_bytes (\<lambda>_. 0) 9000 (bytes_of empty_message)) 64 4096) 72 64) 80 16) 88 0"

definition demo_pool :: platform where
  "demo_pool = \<lparr>kern = demo_kernel [], lit = \<lambda>_. 9000, stk = \<lambda>_. 20000, fuel = 0\<rparr>"

lemma demo_empty_ok:
  "pool_ok demo_empty 64 []" "fmt_ok demo_pool demo_empty (''Pool allocator has no free memory'' @ newline) 0"
proof -
  have f: "p_buf demo_empty 64 = 4096" "p_buf_len demo_empty 64 = 64" "p_chunk_size demo_empty 64 = 16"
    "p_head demo_empty 64 = 0"
    by (simp_all add: demo_empty_def p_buf_def p_buf_len_def p_chunk_size_def p_head_def c64.ld_st_same
        c64.ld_st_disj disj_def)
  have "span 64 32 \<inter> span (4096 :: u64) 64 = {}" by (rule disj_spans) (simp add: disj_def)
  with f show "pool_ok demo_empty 64 []" by (simp add: pool_ok_def pool_geom_def pool_region_def)
  have len: "length empty_message = 34" by (simp add: empty_message_def newline_def)
  have lit: "cstr_at (st_bytes (\<lambda>_. 0) 9000 (bytes_of empty_message)) 9000 (bytes_of empty_message)"
    by (rule cstr_at_st_bytes) (simp_all add: empty_message_def newline_def)
  have "only (span 64 32) (st_bytes (\<lambda>_. 0) 9000 (bytes_of empty_message)) demo_empty"
    unfolding demo_empty_def using field_spans[of 64] by (intro c64.only_st_in only_refl) simp_all
  moreover have "span 9000 (Suc (length (bytes_of empty_message))) \<inter> span (64 :: u64) 32 = {}"
    by (rule disj_spans) (simp add: disj_def len)
  ultimately have "cstr_at demo_empty 9000 (bytes_of empty_message)" by (rule cstr_at_only[OF lit])
  moreover have "span 9000 (Suc (length empty_message)) \<inter> span (20000 :: u64) 2048 = {}"
    using len by (intro disj_spans) (simp add: disj_def)
  moreover have "args_needed (bytes_of empty_message) = Some 0"
    by (simp add: empty_message_def newline_def)
  ultimately show "fmt_ok demo_pool demo_empty (''Pool allocator has no free memory'' @ newline) 0"
    unfolding fmt_ok_def empty_message_def[symmetric] by (simp add: demo_pool_def max_buf_def)
qed

theorem pool_get_empty_witness:
  "\<exists>w'. pool_get demo_pool \<lparr>wmem = demo_empty, trace = []\<rparr> 64 = Inr (0, w') \<and>
     reported demo_pool stderr \<lparr>wmem = demo_empty, trace = []\<rparr> w'"
proof (rule pool_get_empty)
  show "kernel_ok (kern demo_pool)" by (simp add: demo_pool_def demo_kernel_ok)
qed (unfold world.simps, rule demo_empty_ok(1), rule demo_empty_ok(2))

text \<open>
  The range check on returning a chunk never fires when the buffer of the pool does not wrap:
  its two comparisons are joined by a disjunction, so any non-null pointer is pushed on the free
  list.
\<close>

theorem pool_put_unchecked:
  assumes "unat (p_buf m p) + unat (p_buf_len m p) < 2 ^ 64" and "ptr \<noteq> 0"
  shows "\<exists>m'. pool_put m p ptr = Inr m' \<and> p_head m' p = ptr"
  using pool_put_push[OF assms] by (simp add: p_head_def pool_push_def c64.ld_st_same)

theorem pool_put_unchecked_witness:
  "\<exists>m'. pool_put (\<lambda>_. 0) 64 123456 = Inr m' \<and> p_head m' 64 = 123456"
proof -
  have "ld64 (\<lambda>_. 0) a = 0" for a
    by (simp add: ld64_def ld_bytes_def numeral_eq_Suc)
  then show ?thesis
    using pool_put_unchecked[of "\<lambda>_. 0" 64 123456] by (simp add: p_buf_def p_buf_len_def)
qed

end
