(* ===== verification/Arena.thy ===== *)
theory Arena
  imports Pool
begin

text \<open>
  The arena allocator, \<^verbatim>\<open>lib/cfa/src/arena.c\<close>: a region of memory with a bump offset.
  The C functions update the structure through a pointer; here they return it. The locale
  \<open>bump_allocator\<close> is the contract of an allocation.
\<close>

section \<open>The code\<close>

record arena =
  a_buf :: u64
  a_buf_len :: u64
  a_prev_off :: u64
  a_curr_off :: u64

text \<open>
  A \<^verbatim>\<open>temp_arena\<close> keeps the offsets of the arena it points to; the arena is the
  second argument of \<open>temp_arena_recover\<close>.
\<close>

record temp_arena =
  t_prev_off :: u64
  t_curr_off :: u64

definition default_alignment :: u64 where "default_alignment = 8"
definition page_size :: u64 where "page_size = 4096"

definition temp_arena_create :: "arena \<Rightarrow> temp_arena" where
  "temp_arena_create a = \<lparr>t_prev_off = a_prev_off a, t_curr_off = a_curr_off a\<rparr>"

definition temp_arena_recover :: "temp_arena \<Rightarrow> arena \<Rightarrow> arena" where
  "temp_arena_recover t a = a\<lparr>a_prev_off := t_prev_off t, a_curr_off := t_curr_off t\<rparr>"

definition is_power_of_two :: "u64 \<Rightarrow> bool" where
  "is_power_of_two x \<longleftrightarrow> x AND (x - 1) = 0"

definition align_forward :: "u64 \<Rightarrow> u64 \<Rightarrow> halt + u64" where
  "align_forward ptr align =
    (if \<not> is_power_of_two align then Inl (Assert_failed ''arena.c'' 35)
     else let p = ptr; a = align; modulo = p AND (a - 1)
          in Inr (if modulo \<noteq> 0 then p + (a - modulo) else p))"

definition arena_alloc_align :: "arena \<Rightarrow> u64 \<Rightarrow> u64 \<Rightarrow> halt + u64 \<times> arena" where
  "arena_alloc_align a sz align =
    (let curr_ptr = a_buf a + a_curr_off a in
     andthen (align_forward curr_ptr align) (\<lambda>offset.
     let offset = offset - a_buf a in
     Inr (if offset + sz \<le> a_buf_len a
          then (a_buf a + offset, a\<lparr>a_prev_off := offset, a_curr_off := offset + sz\<rparr>)
          else (0, a))))"

definition arena_alloc :: "arena \<Rightarrow> u64 \<Rightarrow> halt + u64 \<times> arena" where
  "arena_alloc a sz = arena_alloc_align a sz default_alignment"

text \<open>A move of at least one byte to the null pointer is undefined behaviour.\<close>

definition arena_resize_align ::
  "mem \<Rightarrow> arena \<Rightarrow> u64 \<Rightarrow> u64 \<Rightarrow> u64 \<Rightarrow> u64 \<Rightarrow> halt + u64 \<times> arena \<times> mem" where
  "arena_resize_align m a old_mem old_size new_size align =
    (let old_m = old_mem in
     if \<not> is_power_of_two align then Inl (Assert_failed ''arena.c'' 77)
     else if old_m = 0 \<or> old_size = 0 then
       andthen (arena_alloc_align a new_size align) (\<lambda>(p, a). Inr (p, a, m))
     else if a_buf a \<le> old_m \<and> old_m < a_buf a + a_buf_len a then
       if a_buf a + a_prev_off a = old_m then
         Inr (old_mem, a\<lparr>a_curr_off := a_prev_off a + new_size\<rparr>, m)
       else
         andthen (arena_alloc_align a new_size align) (\<lambda>(new_mem, a).
         let copy_size = (if old_size < new_size then old_size else new_size) in
         if new_mem = 0 \<and> copy_size \<noteq> 0 then Inl Undefined
         else Inr (new_mem, a, snd (memmove m new_mem old_mem copy_size)))
     else Inl (Assert_failed ''arena.c'' 94))"

definition arena_resize :: "mem \<Rightarrow> arena \<Rightarrow> u64 \<Rightarrow> u64 \<Rightarrow> u64 \<Rightarrow> halt + u64 \<times> arena \<times> mem" where
  "arena_resize m a old_mem old_size new_size =
    arena_resize_align m a old_mem old_size new_size default_alignment"

definition arena_init :: "u64 \<Rightarrow> u64 \<Rightarrow> arena" where
  "arena_init buf buf_len = \<lparr>a_buf = buf, a_buf_len = buf_len, a_prev_off = 0, a_curr_off = 0\<rparr>"

definition arena_free_all :: "arena \<Rightarrow> arena" where
  "arena_free_all a = a\<lparr>a_curr_off := 0, a_prev_off := 0\<rparr>"

definition page_round :: "u64 \<Rightarrow> u64" where
  "page_round sz = ((sz - 1) div page_size + 1) * page_size"

definition arena_create :: "platform \<Rightarrow> world \<Rightarrow> u64 \<Rightarrow> halt + arena \<times> world" where
  "arena_create P w sz =
    (let sz = page_round sz;
         (buf, err, w) = sys_mmap P w 0 sz prot_read_write map_private_anonymous (-1) 0
     in case err of
          Some e \<Rightarrow>
            andthen (fmt_fprintf P w stderr (lit P (''sys_mmap failed (arena_create): %s'' @ newline))
                      [lit P (err_msg e)])
              (\<lambda>_. sys_exit 1)
        | None \<Rightarrow> Inr (arena_init buf sz, w))"

section \<open>Alignment\<close>

lemma unat_and_pow2:
  fixes p :: u64
  shows "unat (p AND (2 ^ k - 1)) = unat p mod 2 ^ k"
proof -
  have "p AND (2 ^ k - 1) = take_bit k p" by (simp add: take_bit_eq_mask mask_eq_exp_minus_1)
  then have "unat (p AND (2 ^ k - 1)) = take_bit k (unat p)" by (simp only: unsigned_take_bit_eq)
  then show ?thesis by (simp only: take_bit_eq_mod)
qed

lemma unat_pow2: "k < 64 \<Longrightarrow> unat (2 ^ k :: u64) = 2 ^ k"
  using unat_of_nat_less[of "2 ^ k"] power_strict_increasing[of k 64 "2 :: nat"] by simp

lemma is_power_of_two_exp: "k < 64 \<Longrightarrow> is_power_of_two (2 ^ k)"
proof -
  assume "k < 64"
  then have "unat (2 ^ k :: u64) = 2 ^ k" by (rule unat_pow2)
  then have "unat ((2 ^ k :: u64) AND (2 ^ k - 1)) = 0" by (simp add: unat_and_pow2)
  then show ?thesis by (simp add: is_power_of_two_def unsigned_eq_0_iff)
qed

text \<open>The aligned address is the least multiple of the alignment that is not below the address.\<close>

lemma align_forward_spec:
  assumes k: "k < 64" and room: "unat p + 2 ^ k \<le> 2 ^ 64"
  shows "\<exists>q. align_forward p (2 ^ k) = Inr q \<and> unat p \<le> unat q \<and> unat q < unat p + 2 ^ k \<and>
    2 ^ k dvd unat q"
proof -
  let ?r = "p AND (2 ^ k - 1)"
  have e: "unat (2 ^ k :: u64) = 2 ^ k" by (rule unat_pow2[OF k])
  have r: "unat ?r = unat p mod 2 ^ k" by (rule unat_and_pow2)
  have lt: "unat p mod 2 ^ k < 2 ^ k" by simp
  show ?thesis
  proof (cases "?r = 0")
    case True
    then have "unat p mod 2 ^ k = 0" using r by simp
    then show ?thesis using True is_power_of_two_exp[OF k]
      by (simp add: align_forward_def mod_eq_0_iff_dvd)
  next
    case False
    then have nz: "0 < unat p mod 2 ^ k" using r unat_eq_zero[of ?r] by simp
    have "?r \<le> 2 ^ k" using e r lt by (simp add: word_le_nat_alt)
    from unat_minus_of_le[OF this] have d: "unat (2 ^ k - ?r) = 2 ^ k - unat p mod 2 ^ k"
      by (simp only: e r)
    then have "unat p + unat (2 ^ k - ?r) < 2 ^ 64" using nz room lt by linarith
    from unat_plus_less[OF this] have s: "unat (p + (2 ^ k - ?r)) = unat p + (2 ^ k - unat p mod 2 ^ k)"
      by (simp only: d)
    also have "\<dots> = (unat p div 2 ^ k + 1) * 2 ^ k"
      using div_mult_mod_eq[of "unat p" "2 ^ k"] lt by (simp only: distrib_right)
    finally have "2 ^ k dvd unat (p + (2 ^ k - ?r))" by simp
    moreover have "unat p \<le> unat (p + (2 ^ k - ?r))" "unat (p + (2 ^ k - ?r)) < unat p + 2 ^ k"
      using s nz lt by linarith+
    moreover have "align_forward p (2 ^ k) = Inr (p + (2 ^ k - ?r))"
      using False is_power_of_two_exp[OF k] by (simp add: align_forward_def Let_def)
    ultimately show ?thesis by blast
  qed
qed

section \<open>Allocation\<close>

definition arena_ok :: "arena \<Rightarrow> bool" where
  "arena_ok a \<longleftrightarrow> 0 < unat (a_buf a) \<and> unat (a_buf a) + unat (a_buf_len a) \<le> 2 ^ 63 \<and>
     a_curr_off a \<le> a_buf_len a \<and> a_prev_off a \<le> a_curr_off a"

definition arena_area :: "arena \<Rightarrow> u64 set" where
  "arena_area a = span (a_buf a) (unat (a_buf_len a))"

definition arena_used :: "arena \<Rightarrow> u64 set" where
  "arena_used a = span (a_buf a) (unat (a_curr_off a))"

lemma unat_diff_add: "unat (x + y - x :: u64) = unat y"
  by simp

lemma arena_alloc_align_cases:
  assumes ok: "arena_ok a" and k: "k \<le> 61" and sz: "unat sz \<le> 2 ^ 62"
  obtains off where "unat (a_curr_off a) \<le> unat off" "unat off < unat (a_curr_off a) + 2 ^ k"
    "2 ^ k dvd unat (a_buf a + off)"
    "arena_alloc_align a sz (2 ^ k) = Inr
      (if unat off + unat sz \<le> unat (a_buf_len a)
       then (a_buf a + off, a\<lparr>a_prev_off := off, a_curr_off := off + sz\<rparr>) else (0, a))"
    "unat (off + sz) = unat off + unat sz" "unat (a_buf a) + unat off < 2 ^ 64"
proof -
  let ?b = "a_buf a" and ?c = "a_curr_off a"
  have bounds: "unat ?b + unat (a_buf_len a) \<le> 2 ^ 63" "unat ?c \<le> unat (a_buf_len a)"
    using ok by (simp_all add: arena_ok_def word_le_nat_alt)
  have k2: "(2::nat) ^ k \<le> 2 ^ 61" using k by (intro power_increasing) simp_all
  have c: "unat (?b + ?c) = unat ?b + unat ?c" using bounds by (intro unat_plus_less) simp
  have "unat (?b + ?c) + 2 ^ k \<le> 2 ^ 64" using c bounds k2 by simp
  then obtain q where q: "align_forward (?b + ?c) (2 ^ k) = Inr q" "unat (?b + ?c) \<le> unat q"
      "unat q < unat (?b + ?c) + 2 ^ k" "2 ^ k dvd unat q"
    using align_forward_spec[of k "?b + ?c"] k by auto
  have "?b \<le> q" using q(2) c by (simp add: word_le_nat_alt)
  from unat_minus_add_le[OF this] have off: "unat (q - ?b) + unat ?b = unat q" .
  have sum: "unat (q - ?b + sz) = unat (q - ?b) + unat sz"
    using off q(3) c bounds k2 sz by (intro unat_plus_less) simp
  show ?thesis
  proof (rule that[of "q - ?b"])
    show "unat ?c \<le> unat (q - ?b)" "unat (q - ?b) < unat ?c + 2 ^ k" using off q(2,3) c by linarith+
    show "2 ^ k dvd unat (?b + (q - ?b))" using q(4) by simp
    show "unat ?b + unat (q - ?b) < 2 ^ 64" using off unat_lt_2p64[of q] by linarith
    show "arena_alloc_align a sz (2 ^ k) = Inr
      (if unat (q - ?b) + unat sz \<le> unat (a_buf_len a)
       then (a_buf a + (q - ?b), a\<lparr>a_prev_off := q - ?b, a_curr_off := q - ?b + sz\<rparr>) else (0, a))"
      using q(1) sum by (simp add: arena_alloc_align_def Let_def word_le_nat_alt)
  qed (rule sum)
qed

text \<open>
  The contract: a request within the bounds either fails and changes nothing or returns a block
  inside the area, outside everything that is in use, and marks it as used.
\<close>

fun alloc_all :: "('s \<Rightarrow> u64 \<Rightarrow> halt + u64 \<times> 's) \<Rightarrow> u64 list \<Rightarrow> 's \<Rightarrow> halt + u64 list \<times> 's" where
  "alloc_all alloc [] s = Inr ([], s)"
| "alloc_all alloc (n # ns) s =
     andthen (alloc s n) (\<lambda>(p, s). andthen (alloc_all alloc ns s) (\<lambda>(ps, s). Inr (p # ps, s)))"

definition block :: "u64 \<times> u64 \<Rightarrow> u64 set" where
  "block = (\<lambda>(p, n). if p = 0 then {} else span p (unat n))"

locale bump_allocator =
  fixes ok :: "'s \<Rightarrow> bool" and area :: "'s \<Rightarrow> u64 set" and used :: "'s \<Rightarrow> u64 set"
    and fits :: "u64 \<Rightarrow> bool"
    and alloc :: "'s \<Rightarrow> u64 \<Rightarrow> halt + u64 \<times> 's"
  assumes used_area: "ok s \<Longrightarrow> used s \<subseteq> area s"
    and alloc_block: "ok s \<Longrightarrow> fits n \<Longrightarrow> \<exists>p s'. alloc s n = Inr (p, s') \<and> ok s' \<and> area s' = area s \<and>
      block (p, n) \<inter> used s = {} \<and> used s \<union> block (p, n) \<subseteq> used s'"
begin

lemma alloc_all_blocks:
  "ok s \<Longrightarrow> list_all fits ns \<Longrightarrow> \<exists>ps s'. alloc_all alloc ns s = Inr (ps, s') \<and> length ps = length ns \<and>
    ok s' \<and> area s' = area s \<and> used s \<subseteq> used s' \<and>
    (\<forall>i < length ns. block (ps ! i, ns ! i) \<subseteq> used s' - used s) \<and>
    (\<forall>j < length ns. \<forall>i < j. block (ps ! i, ns ! i) \<inter> block (ps ! j, ns ! j) = {})"
proof (induction ns arbitrary: s)
  case (Cons n ns)
  then obtain p s1 where s1: "alloc s n = Inr (p, s1)" "ok s1" "area s1 = area s"
      "block (p, n) \<inter> used s = {}" "used s \<union> block (p, n) \<subseteq> used s1"
    using alloc_block[of s n] by auto
  from Cons.IH[OF s1(2)] Cons.prems(2)
  obtain ps s' where IH: "alloc_all alloc ns s1 = Inr (ps, s')" "length ps = length ns" "ok s'"
    "area s' = area s1" "used s1 \<subseteq> used s'"
    "\<forall>i < length ns. block (ps ! i, ns ! i) \<subseteq> used s' - used s1"
    "\<forall>j < length ns. \<forall>i < j. block (ps ! i, ns ! i) \<inter> block (ps ! j, ns ! j) = {}"
    by auto
  have inside: "block ((p # ps) ! i, (n # ns) ! i) \<subseteq> used s' - used s" if "i < length (n # ns)" for i
  proof (cases i)
    case 0
    then show ?thesis using s1(4,5) IH(5) by auto
  next
    case (Suc i')
    then have "block (ps ! i', ns ! i') \<subseteq> used s' - used s1" using that IH(6) by simp
    then show ?thesis using s1(5) by (auto simp: Suc)
  qed
  have "block ((p # ps) ! i, (n # ns) ! i) \<inter> block ((p # ps) ! j, (n # ns) ! j) = {}"
    if ij: "i < j" "j < length (n # ns)" for i j
  proof -
    obtain j' where j: "j = Suc j'" "j' < length ns" using ij by (cases j) auto
    show ?thesis
    proof (cases i)
      case 0
      have "block (ps ! j', ns ! j') \<subseteq> used s' - used s1" using IH(6) j by simp
      then show ?thesis using s1(5) by (auto simp: 0 j(1))
    next
      case (Suc i')
      then show ?thesis using IH(7) j ij(1) by simp
    qed
  qed
  moreover have "alloc_all alloc (n # ns) s = Inr (p # ps, s')" using s1(1) IH(1) by simp
  moreover have "used s \<subseteq> used s'" using s1(5) IH(5) by blast
  moreover have "area s' = area s" using s1(3) IH(4) by simp
  ultimately show ?case using IH(2,3) inside
    by (intro exI[of _ "p # ps"] exI[of _ s'] conjI allI impI) simp_all
qed simp

lemma alloc_all_in_area:
  assumes "ok s" and "list_all fits ns" and "alloc_all alloc ns s = Inr (ps, s')" and "i < length ns"
  shows "block (ps ! i, ns ! i) \<subseteq> area s"
proof -
  from alloc_all_blocks[OF assms(1,2)] assms(3)
  have s': "ok s'" "area s' = area s" "\<forall>i < length ns. block (ps ! i, ns ! i) \<subseteq> used s' - used s"
    by simp_all
  then have "block (ps ! i, ns ! i) \<subseteq> used s'" using assms(4) by blast
  with used_area[OF s'(1)] s'(2) show ?thesis by simp
qed

end

definition arena_fits :: "u64 \<Rightarrow> bool" where
  "arena_fits n \<longleftrightarrow> unat n \<le> 2 ^ 62"

lemma prefix_disj:
  assumes "c \<le> unat off" and "unat off + n \<le> 2 ^ 64"
  shows "span (a + off) n \<inter> span a c = {}"
proof (cases "off = 0")
  case True
  then show ?thesis using assms(1) by (auto simp: span_def)
next
  case False
  have "unat off + unat (- off) = 2 ^ 64"
    using unat_diff_swap[of "a + off" a] False by simp
  then have "disj (a + off) n a c" using assms by (simp add: disj_def)
  then show ?thesis by (rule disj_spans)
qed

lemma arena_alloc_align_block:
  assumes ok: "arena_ok a" and k: "k \<le> 61" and sz: "arena_fits n"
  shows "\<exists>p a'. arena_alloc_align a n (2 ^ k) = Inr (p, a') \<and> arena_ok a' \<and>
    arena_area a' = arena_area a \<and> block (p, n) \<inter> arena_used a = {} \<and>
    arena_used a \<union> block (p, n) \<subseteq> arena_used a' \<and> 2 ^ k dvd unat p \<and>
    (p = 0 \<longrightarrow> a' = a \<and> unat (a_buf_len a) < unat (a_curr_off a) + unat n + 2 ^ k)"
proof -
  have n: "unat n \<le> 2 ^ 62" using sz by (simp add: arena_fits_def)
  obtain off where off: "unat (a_curr_off a) \<le> unat off" "unat off < unat (a_curr_off a) + 2 ^ k"
    "2 ^ k dvd unat (a_buf a + off)"
    "arena_alloc_align a n (2 ^ k) = Inr
      (if unat off + unat n \<le> unat (a_buf_len a)
       then (a_buf a + off, a\<lparr>a_prev_off := off, a_curr_off := off + n\<rparr>) else (0, a))"
    "unat (off + n) = unat off + unat n" "unat (a_buf a) + unat off < 2 ^ 64"
    using arena_alloc_align_cases[OF ok k n] .
  show ?thesis
  proof (cases "unat off + unat n \<le> unat (a_buf_len a)")
    case True
    let ?a = "a\<lparr>a_prev_off := off, a_curr_off := off + n\<rparr>"
    have fit: "unat off + unat n \<le> unat (off + n)" using off(5) by simp
    have "span (a_buf a + off) (unat n) \<subseteq> arena_used ?a"
      using span_sub[OF fit less_imp_le[OF unat_lt_2p64], of "a_buf a"] by (simp add: arena_used_def)
    moreover have "arena_used a \<subseteq> arena_used ?a"
      using off(1,5) span_mono[of "unat (a_curr_off a)" "unat (off + n)" "a_buf a"]
      by (simp add: arena_used_def)
    moreover have "span (a_buf a + off) (unat n) \<inter> arena_used a = {}"
      unfolding arena_used_def using off(1,5) unat_lt_2p64[of "off + n"] by (intro prefix_disj) linarith+
    moreover have "arena_ok ?a"
      using ok True off(5) by (simp add: arena_ok_def word_le_nat_alt)
    moreover have "unat (a_buf a + off) \<noteq> 0"
      using off(6) ok by (subst unat_plus_less) (simp_all add: arena_ok_def)
    then have "a_buf a + off \<noteq> 0" by auto
    ultimately show ?thesis
      using True off(3,4)
      by (intro exI[of _ "a_buf a + off"] exI[of _ ?a]) (simp add: block_def arena_area_def)
  next
    case False
    then have "unat (a_buf_len a) < unat (a_curr_off a) + unat n + 2 ^ k" using off(2) by linarith
    then show ?thesis using False off(4) ok
      by (intro exI[of _ 0] exI[of _ a]) (simp add: block_def)
  qed
qed

interpretation ar: bump_allocator arena_ok arena_area arena_used arena_fits arena_alloc
proof
  fix a :: arena and n
  assume "arena_ok a"
  then show "arena_used a \<subseteq> arena_area a"
    unfolding arena_used_def arena_area_def by (intro span_mono) (simp add: arena_ok_def word_le_nat_alt)
  assume "arena_fits n"
  from arena_alloc_align_block[OF \<open>arena_ok a\<close> _ this, of 3]
  show "\<exists>p a'. arena_alloc a n = Inr (p, a') \<and> arena_ok a' \<and> arena_area a' = arena_area a \<and>
      block (p, n) \<inter> arena_used a = {} \<and> arena_used a \<union> block (p, n) \<subseteq> arena_used a'"
    by (auto simp: arena_alloc_def default_alignment_def)
qed

section \<open>Creation\<close>

lemma page_round_spec:
  assumes "0 < unat n" and "unat n + 4096 \<le> 2 ^ 64"
  shows "unat (page_round n) = (unat n + 4095) div 4096 * 4096"
proof -
  have "n \<noteq> 0" using assms(1) by auto
  from unat_pred[OF this] have "unat ((n - 1) div page_size) = (unat n - 1) div 4096"
    by (simp add: page_size_def unat_div_distrib)
  moreover have "(unat n - 1) div 4096 + 1 = (unat n + 4095) div 4096"
    using div_add_self2[of 4096 "unat n - 1"] assms(1) by simp
  moreover have le: "(unat n + 4095) div 4096 * 4096 < 2 ^ 64"
    using div_times_less_eq_dividend[of "unat n + 4095" 4096] assms(2) by linarith
  ultimately have s: "unat ((n - 1) div page_size + 1) = (unat n + 4095) div 4096"
    using unat_plus_less[of "(n - 1) div page_size" 1] by simp
  have p: "unat page_size = 4096" by (simp add: page_size_def)
  have "unat ((n - 1) div page_size + 1) * unat page_size < 2 ^ 64" unfolding s p by (rule le)
  from unat_mult_less[OF this] show ?thesis unfolding page_round_def s p .
qed


definition arena_create_format :: string where
  "arena_create_format = ''sys_mmap failed (arena_create): %s'' @ newline"

text \<open>The kernel maps fresh zero pages, or the process reports the error and exits.\<close>

lemma arena_create_cases:
  fixes n :: u64
  assumes kern: "kernel_ok (kern P)" and fmt: "fmt_ok P (wmem w) arena_create_format 1"
  defines "call \<equiv> mmap_call [0, page_round n, prot_read_write, map_private_anonymous, -1, 0]"
  obtains "arena_create P w n = Inl (Exited 1)" "\<not> succeeded (kern P (call # trace w))"
  | p where "arena_create P w n = Inr (arena_init p (page_round n),
      w\<lparr>wmem := st_bytes (wmem w) p (replicate (unat (page_round n)) 0), trace := call # trace w\<rparr>)"
    "p \<noteq> 0" "4096 dvd unat p" "unat p + unat (page_round n) \<le> 2 ^ 47"
    "succeeded (kern P (call # trace w))" "p = rax (kern P (call # trace w))"
proof (cases rule: sys_mmap_cases[OF kern, of w 0 "page_round n" prot_read_write
      map_private_anonymous "-1" 0])
  case (1 v e)
  let ?w = "w\<lparr>trace := call # trace w\<rparr>"
  have "fmt_ok P (wmem ?w) arena_create_format 1" using fmt by simp
  then obtain j w' where
    "fmt_fprintf P ?w stderr (lit P arena_create_format) [lit P (err_msg e)] = Inr (j, w')"
    by (rule fmt_report[OF kern, where args = "[lit P (err_msg e)]"]) simp_all
  with 1(1) that(1)[OF _ 1(2)[folded call_def]] show ?thesis
    by (simp add: arena_create_def call_def arena_create_format_def sys_exit_def Let_def)
next
  case (2 p)
  show ?thesis
  proof (rule that(2)[of p])
    show "arena_create P w n = Inr (arena_init p (page_round n),
        w\<lparr>wmem := st_bytes (wmem w) p (replicate (unat (page_round n)) 0), trace := call # trace w\<rparr>)"
      using 2(1) by (simp add: arena_create_def call_def Let_def)
  qed (use 2(2-) in \<open>unfold call_def\<close>)
qed

lemma arena_init_ok:
  "p \<noteq> 0 \<Longrightarrow> unat p + unat n \<le> 2 ^ 47 \<Longrightarrow> arena_ok (arena_init p n)"
  using unat_gt_0[of p] by (simp add: arena_ok_def arena_init_def)

section \<open>Properties\<close>

text \<open>
  C21: any sequence of allocations of moderate size succeeds without an assertion, the blocks lie in
  the region of the arena, do not overlap what was in use before, and do not overlap each other; a
  request that does not fit returns the null pointer, an empty block.
\<close>

theorem arena_blocks_disjoint:
  assumes "arena_ok a" and "list_all arena_fits ns"
  shows "\<exists>ps a'. alloc_all arena_alloc ns a = Inr (ps, a') \<and> length ps = length ns \<and> arena_ok a' \<and>
    (\<forall>i < length ns. block (ps ! i, ns ! i) \<subseteq> arena_area a - arena_used a) \<and>
    (\<forall>j < length ns. \<forall>i < j. block (ps ! i, ns ! i) \<inter> block (ps ! j, ns ! j) = {})"
proof -
  obtain ps a' where *: "alloc_all arena_alloc ns a = Inr (ps, a')" "length ps = length ns" "arena_ok a'"
    "\<forall>i < length ns. block (ps ! i, ns ! i) \<subseteq> arena_used a' - arena_used a"
    "\<forall>j < length ns. \<forall>i < j. block (ps ! i, ns ! i) \<inter> block (ps ! j, ns ! j) = {}"
    using ar.alloc_all_blocks[OF assms] by blast
  have "\<forall>i < length ns. block (ps ! i, ns ! i) \<subseteq> arena_area a - arena_used a"
    using *(4) ar.alloc_all_in_area[OF assms *(1)] by blast
  with * show ?thesis by (intro exI[of _ ps] exI[of _ a']) simp
qed

theorem arena_blocks_disjoint_witness:
  "\<exists>ps a'. alloc_all arena_alloc [24, 8, 100] (arena_init 4096 64) = Inr (ps, a') \<and>
     ps = [4096, 4120, 0] \<and> block (ps ! 0, 24) \<inter> block (ps ! 1, 8) = {}"
proof -
  have "arena_ok (arena_init 4096 64)" by (simp add: arena_ok_def arena_init_def)
  moreover have "list_all arena_fits [24, 8, 100]" by (simp add: arena_fits_def)
  ultimately obtain ps a' where *: "alloc_all arena_alloc [24, 8, 100] (arena_init 4096 64) = Inr (ps, a')"
    "\<forall>j < length [24, 8, 100 :: u64]. \<forall>i < j. block (ps ! i, [24, 8, 100] ! i) \<inter> block (ps ! j, [24, 8, 100] ! j) = {}"
    using arena_blocks_disjoint[of "arena_init 4096 64" "[24, 8, 100]"] by blast
  have "alloc_all arena_alloc [24, 8, 100] (arena_init 4096 64) = Inr ([4096, 4120, 0],
      \<lparr>a_buf = 4096, a_buf_len = 64, a_prev_off = 24, a_curr_off = 32\<rparr>)"
    by (simp add: arena_init_def arena_alloc_def arena_alloc_align_def align_forward_def is_power_of_two_def
        default_alignment_def)
  with *(1) have "ps = [4096, 4120, 0]" by simp
  moreover have "block (ps ! 0, 24) \<inter> block (ps ! 1, 8) = {}"
    using *(2)[rule_format, of 1 0] by simp
  ultimately show ?thesis using *(1) by blast
qed

text \<open>
  An allocation with a power of two as alignment returns an address that is a multiple of it;
  it fails only when the rest of the region is smaller than the request and the padding.
\<close>

theorem arena_alloc_aligned:
  assumes "arena_ok a" and "k \<le> 61" and "arena_fits n"
  shows "\<exists>p a'. arena_alloc_align a n (2 ^ k) = Inr (p, a') \<and> 2 ^ k dvd unat p \<and>
    (p = 0 \<longrightarrow> a' = a \<and> unat (a_buf_len a) < unat (a_curr_off a) + unat n + 2 ^ k)"
  using arena_alloc_align_block[OF assms] by blast

theorem arena_alloc_aligned_witness:
  "\<exists>p a'. arena_alloc_align (arena_init 4097 64) 8 (2 ^ 4) = Inr (p, a') \<and> 2 ^ 4 dvd unat p"
proof -
  have "arena_ok (arena_init 4097 64)" by (simp add: arena_ok_def arena_init_def)
  then show ?thesis using arena_alloc_aligned[of "arena_init 4097 64" 4 8] by (simp add: arena_fits_def) blast
qed

text \<open>
  The bound of the request matters: the sum of offset and size wraps, so a request of nearly the
  whole address space is granted although the region has 64 bytes, and the offset moves backwards:
  the next allocation overlaps the first one.
\<close>

theorem arena_alloc_wraps:
  "alloc_all arena_alloc [24, -16, 8] (arena_init 4096 64) =
   Inr ([4096, 4120, 4104], \<lparr>a_buf = 4096, a_buf_len = 64, a_prev_off = 8, a_curr_off = 16\<rparr>)"
  by (simp add: arena_init_def arena_alloc_def arena_alloc_align_def align_forward_def is_power_of_two_def
      default_alignment_def)

text \<open>
  A temporary arena undoes every allocation made since it was created.
\<close>

lemma arena_alloc_region:
  "arena_alloc a n = Inr (p, a') \<Longrightarrow> a_buf a' = a_buf a \<and> a_buf_len a' = a_buf_len a"
  by (auto simp: arena_alloc_def arena_alloc_align_def andthen_Inr_iff Let_def split: if_splits)

lemma alloc_all_region:
  "alloc_all arena_alloc ns a = Inr (ps, a') \<Longrightarrow> a_buf a' = a_buf a \<and> a_buf_len a' = a_buf_len a"
  by (induction ns arbitrary: a ps) (auto simp: andthen_Inr_iff dest!: arena_alloc_region)

theorem temp_arena_undoes:
  assumes "alloc_all arena_alloc ns a = Inr (ps, a')"
  shows "temp_arena_recover (temp_arena_create a) a' = a"
  using alloc_all_region[OF assms] by (simp add: temp_arena_recover_def temp_arena_create_def)

theorem temp_arena_undoes_witness:
  "temp_arena_recover (temp_arena_create (arena_init 4096 64))
     \<lparr>a_buf = 4096, a_buf_len = 64, a_prev_off = 24, a_curr_off = 32\<rparr> = arena_init 4096 64"
  using temp_arena_undoes[of "[24, 8]" "arena_init 4096 64" "[4096, 4120]"
      "\<lparr>a_buf = 4096, a_buf_len = 64, a_prev_off = 24, a_curr_off = 32\<rparr>"]
  by (simp add: arena_init_def arena_alloc_def arena_alloc_align_def align_forward_def is_power_of_two_def
      default_alignment_def)

text \<open>
  C29: creating an arena either ends the process with code 1, after the kernel has refused, or gives
  an empty arena over fresh zero pages: at least the requested size, rounded up to whole pages, in
  one anonymous mapping.
\<close>

theorem arena_create_outcome:
  assumes "kernel_ok (kern P)" and "fmt_ok P (wmem w) (''sys_mmap failed (arena_create): %s'' @ newline) 1"
    and "0 < unat n" and "unat n \<le> 2 ^ 46"
  shows "arena_create P w n = Inl (Exited 1) \<or>
    (\<exists>a w'. arena_create P w n = Inr (a, w') \<and> arena_ok a \<and> arena_used a = {} \<and>
       unat (a_buf_len a) = (unat n + 4095) div 4096 * 4096 \<and>
       (\<forall>x \<in> arena_area a. wmem w' x = 0) \<and> only (arena_area a) (wmem w) (wmem w') \<and>
       trace w' = mmap_call [0, a_buf_len a, prot_read_write, map_private_anonymous, -1, 0] # trace w)"
proof (rule arena_create_cases[OF assms(1), of w n])
  show "fmt_ok P (wmem w) arena_create_format 1" using assms(2) by (simp only: arena_create_format_def)
next
  fix p
  let ?len = "page_round n"
  assume c: "arena_create P w n = Inr (arena_init p ?len,
      w\<lparr>wmem := st_bytes (wmem w) p (replicate (unat ?len) 0),
        trace := mmap_call [0, ?len, prot_read_write, map_private_anonymous, -1, 0] # trace w\<rparr>)"
    and p: "p \<noteq> 0" "4096 dvd unat p" "unat p + unat ?len \<le> 2 ^ 47"
      "succeeded (kern P (mmap_call [0, ?len, prot_read_write, map_private_anonymous, -1, 0] # trace w))"
      "p = rax (kern P (mmap_call [0, ?len, prot_read_write, map_private_anonymous, -1, 0] # trace w))"
  let ?m = "st_bytes (wmem w) p (replicate (unat ?len) 0)"
  have "\<forall>x \<in> span p (unat ?len). ?m x = 0" by (simp add: st_bytes_def span_def)
  moreover have "only (span p (unat ?len)) (wmem w) ?m"
    using only_st_bytes[of p "replicate (unat ?len) 0" "wmem w"] by simp
  moreover have "unat ?len = (unat n + 4095) div 4096 * 4096"
    using assms(3,4) by (intro page_round_spec) simp_all
  moreover have "arena_used (arena_init p ?len) = {}"
    by (simp add: arena_used_def arena_init_def span_def)
  ultimately show ?thesis using c arena_init_ok[OF p(1,3)]
    by (intro disjI2 exI) (auto simp: arena_area_def arena_init_def)
qed simp

definition demo_arena_world :: world where
  "demo_arena_world = \<lparr>wmem = st_bytes (\<lambda>_. 0) 9000 (bytes_of arena_create_format), trace = []\<rparr>"

lemma demo_arena_fmt: "fmt_ok demo_pool (wmem demo_arena_world) arena_create_format 1"
proof -
  have len: "length arena_create_format = 35" by (simp add: arena_create_format_def newline_def)
  have "cstr_at (wmem demo_arena_world) 9000 (bytes_of arena_create_format)"
    unfolding demo_arena_world_def world.simps
    by (rule cstr_at_st_bytes) (simp_all add: arena_create_format_def newline_def)
  moreover have "span 9000 (Suc (length arena_create_format)) \<inter> span (20000 :: u64) 2048 = {}"
    using len by (intro disj_spans) (simp add: disj_def)
  moreover have "args_needed (bytes_of arena_create_format) = Some 1"
    by (simp add: arena_create_format_def newline_def)
  ultimately show ?thesis by (simp add: fmt_ok_def demo_pool_def max_buf_def)
qed

lemma demo_arena_create: "\<exists>r. arena_create demo_pool demo_arena_world 5000 = Inr r"
proof -
  have "page_round 5000 = 8192" by (simp add: page_round_def page_size_def)
  moreover have "fst (snd (sys_mmap demo_pool demo_arena_world 0 8192 prot_read_write
      map_private_anonymous (-1) 0)) = None"
    by (simp add: sys_mmap_def syscall6_def syscall_raw_def demo_pool_def demo_kernel_def
        demo_reply_def calls_before_def demo_region_def demo_arena_world_def syscall_numbers decode_rax_def Let_def split_def)
  ultimately show ?thesis by (simp add: arena_create_def split_def Let_def)
qed

theorem arena_create_outcome_witness:
  "\<exists>a w'. arena_create demo_pool demo_arena_world 5000 = Inr (a, w') \<and> arena_ok a \<and>
     unat (a_buf_len a) = 8192"
  using arena_create_outcome[of demo_pool demo_arena_world 5000] demo_arena_create
    demo_arena_fmt[unfolded arena_create_format_def] demo_kernel_ok
  by (auto simp: demo_pool_def)

end
