(* ===== verification/Time_Tm.thy ===== *)
theory Time_Tm
  imports Decimal
begin

text \<open>
  \<^verbatim>\<open>lib/cfa/src/time.c\<close>: broken-down Moscow time from the seconds since 1970, and its
  three printed forms. The arithmetic is on \<^verbatim>\<open>int64\<close>: division truncates
  (\<open>sdiv\<close>, \<open>smod\<close>), the two additions at the start are undefined where they overflow, and
  the \<^verbatim>\<open>int\<close> fields of the result are cut to 32 bits.
\<close>

section \<open>Broken-down time\<close>

record tm =
  tm_sec :: int
  tm_min :: int
  tm_hour :: int
  tm_mday :: int
  tm_mon :: int
  tm_year :: int
  tm_wday :: int
  tm_yday :: int
  tm_isdst :: int
  tm_gmtoff :: int
  tm_zone :: u64

definition days_since_jan_1st :: "int list list" where
  "days_since_jan_1st =
    [[0, 31, 59, 90, 120, 151, 181, 212, 243, 273, 304, 334, 365],
     [0, 31, 60, 91, 121, 152, 182, 213, 244, 274, 305, 335, 366]]"

text \<open>The loop over the months: the value is \<^verbatim>\<open>month\<close> and \<^verbatim>\<open>mday\<close> after it.\<close>

function month_loop :: "int \<Rightarrow> nat \<Rightarrow> nat \<Rightarrow> int \<Rightarrow> nat \<times> int" where
  "month_loop yday leap month mday =
    (if month \<le> 12
     then if yday < days_since_jan_1st ! leap ! month
          then (month, mday + (yday - days_since_jan_1st ! leap ! (month - 1)))
          else month_loop yday leap (month + 1) mday
     else (month, mday))"
  by pat_completeness auto
termination
  by (relation "measure (\<lambda>(yday, leap, month, mday). 13 - month)") auto

declare month_loop.simps [simp del]

definition is_leap :: "int \<Rightarrow> bool" where
  "is_leap year \<longleftrightarrow> year smod 4 = 0 \<and> (year smod 100 \<noteq> 0 \<or> year smod 400 = 0)"

definition tm_of_time :: "int \<Rightarrow> tm" where
  "tm_of_time t =
    (let t = t + 3 * 60 * 60;
         sec = t + 11644473600;
         wday = (sec sdiv 86400 + 1) smod 7;
         quadricentennials = sec sdiv 12622780800;
         sec = sec smod 12622780800;
         centennials = sec sdiv 3155673600;
         centennials = (if centennials > 3 then 3 else centennials);
         sec = sec - centennials * 3155673600;
         quadrennials = sec sdiv 126230400;
         quadrennials = (if quadrennials > 24 then 24 else quadrennials);
         sec = sec - quadrennials * 126230400;
         annuals = sec sdiv 31536000;
         annuals = (if annuals > 3 then 3 else annuals);
         sec = sec - annuals * 31536000;
         year = 1601 + quadricentennials * 400 + centennials * 100 + quadrennials * 4 + annuals;
         leap = (if is_leap year then 1 else 0);
         yday = sec sdiv 86400;
         sec = sec smod 86400;
         hour = sec sdiv 3600;
         sec = sec smod 3600;
         min = sec sdiv 60;
         sec = sec smod 60;
         (month, mday) = month_loop yday leap 1 1
     in \<lparr>tm_sec = s32 sec, tm_min = s32 min, tm_hour = s32 hour, tm_mday = s32 mday,
         tm_mon = s32 (int month - 1), tm_year = s32 (year - 1900), tm_wday = s32 wday,
         tm_yday = s32 yday, tm_isdst = -1, tm_gmtoff = 3 * 60 * 60, tm_zone = 0\<rparr>)"

text \<open>The seconds are an \<^verbatim>\<open>int64\<close>; only sums above its range can overflow.\<close>

definition time_to_tm :: "int \<Rightarrow> halt + tm" where
  "time_to_tm t =
    (if t + 3 * 60 * 60 < 2 ^ 63 \<and> t + 3 * 60 * 60 + 11644473600 < 2 ^ 63
     then Inr (tm_of_time t) else Inl Undefined)"

section \<open>The calendar\<close>

text \<open>
  The reference, which does not use the code's table: days from 1 January 1601 to the first day of
  a year of the Gregorian calendar, the length of the year, the length of each month (January is
  month 0; April, June, September and November have 30 days), and the days of the year before it.
\<close>

definition days_before_year :: "int \<Rightarrow> int" where
  "days_before_year y = 365 * (y - 1601) + (y - 1601) div 4 - (y - 1601) div 100 + (y - 1601) div 400"

definition gregorian_leap :: "int \<Rightarrow> bool" where
  "gregorian_leap y \<longleftrightarrow> 4 dvd y \<and> (\<not> 100 dvd y \<or> 400 dvd y)"

definition year_length :: "int \<Rightarrow> int" where
  "year_length y = (if gregorian_leap y then 366 else 365)"

definition month_days :: "int \<Rightarrow> int \<Rightarrow> int" where
  "month_days y mon =
    (if mon = 1 then if gregorian_leap y then 29 else 28
     else if mon \<in> {3, 5, 8, 10} then 30 else 31)"

definition month_start :: "int \<Rightarrow> int \<Rightarrow> int" where
  "month_start y mon = sum_list (map (month_days y) [0..mon - 1])"

lemma month_start_next: "0 \<le> mon \<Longrightarrow> month_start y (mon + 1) = month_start y mon + month_days y mon"
  by (simp add: month_start_def upto_rec2)

lemma year_of_months: "month_start y 12 = year_length y"
  by (simp add: month_start_def month_days_def year_length_def upto.simps)

lemma dvd_cycle: "0 < x \<Longrightarrow> x \<le> m \<Longrightarrow> m dvd m * z + x \<longleftrightarrow> x = (m::int)"
proof
  assume "0 < x" "x \<le> m" "m dvd m * z + x"
  then have "m dvd x" by (simp add: dvd_add_right_iff)
  then have "m \<le> x" using \<open>0 < x\<close> by (rule zdvd_imp_le)
  then show "x = m" using \<open>x \<le> m\<close> by simp
qed simp

lemma div_add_one:
  assumes "0 < m"
  shows "(z + 1) div m = z div m + (if m dvd z + 1 then 1 else (0::int))"
proof -
  define q r where "q = z div m" and "r = z mod m"
  have z: "z + 1 = m * q + (r + 1)" by (simp add: q_def r_def)
  have r: "0 < r + 1" "r + 1 \<le> m" using assms pos_mod_sign[of m z] pos_mod_bound[of m z] unfolding r_def by linarith+
  show ?thesis
  proof (cases "r + 1 = m")
    case True
    then have "z + 1 = m * (q + 1)" using z by (simp add: algebra_simps)
    then show ?thesis using assms by (simp add: q_def[symmetric])
  next
    case False
    then have "\<not> m dvd z + 1" unfolding z using dvd_cycle[OF r, of q] by blast
    moreover have "(z + 1) div m = q"
      using r False by (intro int_div_pos_eq[of _ _ _ "r + 1"]) (use z in simp_all)
    ultimately show ?thesis by (simp add: q_def)
  qed
qed

lemma div_next_year:
  assumes "0 < m" and "m dvd 1600"
  shows "(y + 1 - 1601) div m = (y - 1601) div m + (if m dvd y then 1 else (0::int))"
proof -
  have "y + 1 - 1601 = (y - 1601) + 1" by simp
  moreover have "y = (y - 1601 + 1) + 1600" by simp
  then have "m dvd y \<longleftrightarrow> m dvd y - 1601 + 1"
    using dvd_add_left_iff[OF assms(2), of "y - 1601 + 1"] by simp
  ultimately show ?thesis using div_add_one[OF assms(1), of "y - 1601"] by (simp only:)
qed

lemma days_before_year_Suc: "days_before_year (y + 1) = days_before_year y + year_length y"
proof -
  have m: "(400::int) dvd y \<Longrightarrow> 100 dvd y" "(100::int) dvd y \<Longrightarrow> 4 dvd y"
    by (rule dvd_trans[of _ 400], simp_all) (rule dvd_trans[of _ 100], simp_all)
  have d: "(4::int) dvd 1600" "(100::int) dvd 1600" "(400::int) dvd 1600" by simp_all
  have "days_before_year (y + 1) = 365 * (y - 1601) + 365 +
      (y + 1 - 1601) div 4 - (y + 1 - 1601) div 100 + (y + 1 - 1601) div 400"
    by (simp add: days_before_year_def)
  also have "\<dots> = days_before_year y + 365 + (if 4 dvd y then 1 else 0)
      - (if 100 dvd y then 1 else 0) + (if 400 dvd y then 1 else 0)"
    by (simp only: div_next_year[OF _ d(1)] div_next_year[OF _ d(2)] div_next_year[OF _ d(3)]
        days_before_year_def zero_less_numeral)
  also have "\<dots> = days_before_year y + year_length y"
    unfolding year_length_def gregorian_leap_def using m by (cases "4 dvd y"; cases "100 dvd y") auto
  finally show ?thesis .
qed

lemma sdiv_nonneg: "0 \<le> (a::int) \<Longrightarrow> 0 < b \<Longrightarrow> a sdiv b = a div b"
  by (cases "a = 0") (simp_all add: signed_divide_int_def)

lemma smod_nonneg: "0 \<le> (a::int) \<Longrightarrow> 0 < b \<Longrightarrow> a smod b = a mod b"
  by (cases "a = 0") (simp_all add: signed_modulo_int_def)

lemma is_leap_gregorian: "0 \<le> y \<Longrightarrow> is_leap y = gregorian_leap y"
  by (simp add: is_leap_def gregorian_leap_def smod_nonneg dvd_eq_mod_eq_0)

text \<open>Splitting the days since 1601 into cycles of 400, 100, 4 and 1 years.\<close>

lemma cycles_days:
  assumes "0 \<le> c" "c \<le> 3" "0 \<le> k" "k \<le> 24" "0 \<le> a" "a \<le> (3::int)"
  shows "days_before_year (1601 + q * 400 + c * 100 + k * 4 + a) =
    q * 146097 + c * 36524 + k * 1461 + a * 365"
proof -
  define n where "n = q * 400 + c * 100 + k * 4 + a"
  have "n div 4 = 100 * q + 25 * c + k" "n div 100 = 4 * q + c" "n div 400 = q"
    using assms by (simp_all add: n_def)
  moreover have "1601 + q * 400 + c * 100 + k * 4 + a - 1601 = n" by (simp add: n_def)
  then have "days_before_year (1601 + q * 400 + c * 100 + k * 4 + a) =
      365 * n + n div 4 - n div 100 + n div 400"
    by (simp only: days_before_year_def)
  ultimately have "days_before_year (1601 + q * 400 + c * 100 + k * 4 + a) =
      365 * n + (100 * q + 25 * c + k) - (4 * q + c) + q" by (simp only:)
  then show ?thesis by (simp add: n_def)
qed

lemma cycles_leap:
  assumes "0 \<le> c" "c \<le> 3" "0 \<le> k" "k \<le> 24" "0 \<le> a" "a \<le> (3::int)"
  shows "gregorian_leap (1601 + q * 400 + c * 100 + k * 4 + a) \<longleftrightarrow> a = 3 \<and> (k = 24 \<longrightarrow> c = 3)"
proof -
  let ?y = "1601 + q * 400 + c * 100 + k * 4 + a"
  have "?y = 4 * (400 + 100 * q + 25 * c + k) + (a + 1)" by simp
  then have "4 dvd ?y \<longleftrightarrow> a + 1 = 4"
    by (simp only:) (rule dvd_cycle, use assms in simp_all)
  moreover have "?y = 100 * (16 + 4 * q + c) + (4 * k + a + 1)" by simp
  then have "100 dvd ?y \<longleftrightarrow> 4 * k + a + 1 = 100"
    by (simp only:) (rule dvd_cycle, use assms in simp_all)
  moreover have "?y = 400 * (4 + q) + (100 * c + 4 * k + a + 1)" by simp
  then have "400 dvd ?y \<longleftrightarrow> 100 * c + 4 * k + a + 1 = 400"
    by (simp only:) (rule dvd_cycle, use assms in simp_all)
  ultimately show ?thesis using assms by (auto simp: gregorian_leap_def)
qed

section \<open>The conversion is right\<close>

text \<open>
  A valid broken-down time names a day of the calendar and a second of that day, in every
  field consistently; \<open>seconds_of_tm\<close> reads it back as seconds since 1970 in UTC.
\<close>

definition leap_row :: "int \<Rightarrow> nat" where
  "leap_row y = (if gregorian_leap y then 1 else 0)"

text \<open>The code's table has the first day of every month.\<close>

lemma month_start_table:
  assumes "0 \<le> mon" "mon \<le> 12"
  shows "month_start y mon = days_since_jan_1st ! leap_row y ! nat mon"
proof -
  have "mon \<in> {0, 1, 2, 3, 4, 5, 6, 7, 8, 9, 10, 11, 12}"
    using assms by (simp only: insert_iff empty_iff) presburger
  then show ?thesis
    by (elim insertE emptyE; hypsubst)
      (simp_all add: month_start_def month_days_def days_since_jan_1st_def leap_row_def upto.simps)
qed

definition valid_tm :: "tm \<Rightarrow> bool" where
  "valid_tm T \<longleftrightarrow>
    (let y = tm_year T + 1900 in
     0 \<le> tm_sec T \<and> tm_sec T < 60 \<and> 0 \<le> tm_min T \<and> tm_min T < 60 \<and>
     0 \<le> tm_hour T \<and> tm_hour T < 24 \<and>
     0 \<le> tm_mon T \<and> tm_mon T < 12 \<and>
     1 \<le> tm_mday T \<and> tm_mday T \<le> month_days y (tm_mon T) \<and>
     tm_yday T = month_start y (tm_mon T) + tm_mday T - 1 \<and>
     0 \<le> tm_yday T \<and> tm_yday T < year_length y \<and>
     tm_wday T = (days_before_year y + tm_yday T + 1) mod 7)"

definition seconds_of_tm :: "tm \<Rightarrow> int" where
  "seconds_of_tm T =
    (let y = tm_year T + 1900;
         days = days_before_year y + month_start y (tm_mon T) + tm_mday T - 1
     in 86400 * days + 3600 * tm_hour T + 60 * tm_min T + tm_sec T - tm_gmtoff T - 11644473600)"

lemma month_loop_spec:
  assumes "1 \<le> month" and "month \<le> 12" and "leap \<le> 1"
    and "days_since_jan_1st ! leap ! (month - 1) \<le> yday" and "yday < days_since_jan_1st ! leap ! 12"
  shows "\<exists>k. month_loop yday leap month mday = (k, mday + (yday - days_since_jan_1st ! leap ! (k - 1))) \<and>
    1 \<le> k \<and> k \<le> 12 \<and> days_since_jan_1st ! leap ! (k - 1) \<le> yday \<and> yday < days_since_jan_1st ! leap ! k"
  using assms
proof (induction yday leap month mday rule: month_loop.induct)
  case (1 yday leap month mday)
  show ?case
  proof (cases "yday < days_since_jan_1st ! leap ! month")
    case True
    then show ?thesis using "1.prems" by (intro exI[of _ month]) (simp add: month_loop.simps[of yday])
  next
    case False
    then have "month \<noteq> 12" using "1.prems" by auto
    then show ?thesis
      using "1.IH" "1.prems" False by (simp add: month_loop.simps[of yday leap month])
  qed
qed

lemma cycle_cap:
  assumes "0 \<le> r" and "0 < p" and "0 \<le> (k::int)"
  defines "c \<equiv> (if r div p > k then k else r div p)"
  shows "0 \<le> c" and "c \<le> k" and "0 \<le> r - c * p" and "c < k \<Longrightarrow> r - c * p < p"
proof -
  have b: "r div p * p \<le> r" "r < r div p * p + p" "0 \<le> r div p"
    using assms(1,2) pos_mod_bound[of p r] div_mult_mod_eq[of r p] pos_mod_sign[of p r]
    by (linarith, linarith, simp add: pos_imp_zdiv_nonneg_iff)
  show "0 \<le> c" "c \<le> k" using b assms(3) by (auto simp: c_def)
  have "c \<le> r div p" by (simp add: c_def)
  then have "c * p \<le> r div p * p" using assms(2) by (intro mult_right_mono) auto
  then show "0 \<le> r - c * p" using b by linarith
  show "c < k \<Longrightarrow> r - c * p < p" using b by (auto simp: c_def split: if_splits)
qed

text \<open>The year and the second of the year, as the code computes them.\<close>

lemma year_of_seconds:
  fixes sec :: int
  assumes "0 \<le> sec"
  defines "q \<equiv> sec div 12622780800" and "r \<equiv> sec mod 12622780800"
  defines "c \<equiv> if r div 3155673600 > 3 then 3 else r div 3155673600"
  defines "r1 \<equiv> r - c * 3155673600"
  defines "k \<equiv> if r1 div 126230400 > 24 then 24 else r1 div 126230400"
  defines "r2 \<equiv> r1 - k * 126230400"
  defines "a \<equiv> if r2 div 31536000 > 3 then 3 else r2 div 31536000"
  defines "r3 \<equiv> r2 - a * 31536000"
  defines "y \<equiv> 1601 + q * 400 + c * 100 + k * 4 + a"
  shows "86400 * days_before_year y + r3 = sec"
    and "0 \<le> r3" and "r3 < 86400 * year_length y"
    and "1601 \<le> y" and "31536000 * (y - 1601) \<le> sec"
proof -
  have r: "0 \<le> r" "r < 12622780800" "sec = q * 12622780800 + r" "0 \<le> q"
    using assms(1) by (simp_all add: q_def r_def pos_imp_zdiv_nonneg_iff)
  note c = cycle_cap[of r 3155673600 3, folded c_def r1_def, OF r(1), simplified]
  note k = cycle_cap[of r1 126230400 24, folded k_def r2_def, OF c(3), simplified]
  note a = cycle_cap[of r2 31536000 3, folded a_def r3_def, OF k(3), simplified]
  have d: "days_before_year y = q * 146097 + c * 36524 + k * 1461 + a * 365"
    unfolding y_def by (rule cycles_days[OF c(1,2) k(1,2) a(1,2)])
  have l: "gregorian_leap y \<longleftrightarrow> a = 3 \<and> (k = 24 \<longrightarrow> c = 3)"
    unfolding y_def by (rule cycles_leap[OF c(1,2) k(1,2) a(1,2)])
  have sum: "sec = q * 12622780800 + c * 3155673600 + k * 126230400 + a * 31536000 + r3"
    using r(3) by (simp add: r1_def r2_def r3_def)
  then show "86400 * days_before_year y + r3 = sec" by (simp add: d)
  show "0 \<le> r3" by (rule a(3))
  show "1601 \<le> y" using r(4) c(1) k(1) a(1) by (simp add: y_def)
  show "31536000 * (y - 1601) \<le> sec"
    using sum r(4) c(1) k(1) a(1,3) by (simp add: y_def)
  have r1: "r1 < (if c = 3 then 3155760000 else 3155673600)"
    using c r(2) by (auto simp: r1_def)
  have r2: "r2 < (if k = 24 then (if c = 3 then 126230400 else 126144000) else 126230400)"
    using k(2,4) r1 by (auto simp: r2_def split: if_splits)
  show "r3 < 86400 * year_length y"
    by (cases "a = 3") (use a(2,4) r2 in \<open>auto simp: r3_def year_length_def l split: if_splits\<close>)
qed

lemma table_ends:
  "days_since_jan_1st ! leap_row y ! 0 = 0" "days_since_jan_1st ! leap_row y ! 12 = year_length y"
  by (simp_all add: days_since_jan_1st_def leap_row_def year_length_def)

lemma table_nonneg: "i \<le> 12 \<Longrightarrow> 0 \<le> days_since_jan_1st ! leap_row y ! i"
proof -
  assume "i \<le> 12"
  then have "days_since_jan_1st ! leap_row y ! i \<in> set (days_since_jan_1st ! leap_row y)"
    by (intro nth_mem) (simp add: days_since_jan_1st_def leap_row_def)
  then show ?thesis by (auto simp: days_since_jan_1st_def leap_row_def split: if_splits)
qed

lemma leap_row_le: "leap_row y \<le> 1"
  by (simp add: leap_row_def)

lemma seconds_of_day:
  assumes "0 \<le> (r::int)"
  defines "h \<equiv> r mod 86400 div 3600" and "mi \<equiv> r mod 86400 mod 3600 div 60"
    and "s \<equiv> r mod 86400 mod 3600 mod 60"
  shows "86400 * (r div 86400) + 3600 * h + 60 * mi + s = r"
    and "0 \<le> h" "h < 24" "0 \<le> mi" "mi < 60" "0 \<le> s" "s < 60"
proof -
  have "r mod 86400 < 86400" "0 \<le> r mod 86400" by simp_all
  then show "0 \<le> h" "h < 24" unfolding h_def by (auto simp: pos_imp_zdiv_nonneg_iff div_pos_pos_trivial)
  have "r mod 86400 mod 3600 < 3600" "0 \<le> r mod 86400 mod 3600" by simp_all
  then show "0 \<le> mi" "mi < 60" unfolding mi_def by (auto simp: pos_imp_zdiv_nonneg_iff)
  show "0 \<le> s" "s < 60" by (simp_all add: s_def)
  have "r = 86400 * (r div 86400) + r mod 86400" by simp
  moreover have "r mod 86400 = 3600 * h + r mod 86400 mod 3600" by (simp add: h_def)
  moreover have "r mod 86400 mod 3600 = 60 * mi + s" by (simp add: mi_def s_def)
  ultimately show "86400 * (r div 86400) + 3600 * h + 60 * mi + s = r" by linarith
qed

lemma seconds_sum:
  assumes "86400 * yd + 3600 * h + 60 * mi + s = r" and "86400 * dby + r = sec"
    and "sec = t + 10800 + (11644473600 :: int)"
  shows "86400 * (dby + D + (1 + (yd - D)) - 1) + 3600 * h + 60 * mi + s - 10800 - 11644473600 = t"
  using assms by (simp add: algebra_simps)

lemma tm_of_time_correct:
  assumes lo: "- 11644484400 \<le> t" and hi: "t < 2 ^ 55"
  shows "valid_tm (tm_of_time t) \<and> seconds_of_tm (tm_of_time t) = t"
proof -
  define sec where "sec = t + 10800 + 11644473600"
  have sec: "0 \<le> sec" "sec < 2 ^ 55 + 11644484400" using lo hi by (simp_all add: sec_def)
  have sums: "t + 3 * 60 * 60 = t + 10800" "t + 10800 + 11644473600 = sec"
    by (simp_all add: sec_def)
  define q where "q = sec div 12622780800"
  define r where "r = sec mod 12622780800"
  define c where "c = (if r div 3155673600 > 3 then 3 else r div 3155673600)"
  define r1 where "r1 = r - c * 3155673600"
  define k where "k = (if r1 div 126230400 > 24 then 24 else r1 div 126230400)"
  define r2 where "r2 = r1 - k * 126230400"
  define a where "a = (if r2 div 31536000 > 3 then 3 else r2 div 31536000)"
  define r3 where "r3 = r2 - a * 31536000"
  define y where "y = 1601 + q * 400 + c * 100 + k * 4 + a"
  note cyc = year_of_seconds[OF sec(1), folded q_def r_def, folded c_def, folded r1_def, folded k_def,
      folded r2_def, folded a_def, folded r3_def y_def]
  have r: "0 \<le> r" by (simp add: r_def)
  have r1: "0 \<le> r1" using cycle_cap(3)[of r 3155673600 3] r by (simp add: r1_def c_def)
  have r2: "0 \<le> r2" using cycle_cap(3)[of r1 126230400 24] r1 by (simp add: r2_def k_def)
  define yday where "yday = r3 div 86400"
  have yday: "0 \<le> yday" "yday < year_length y"
    using cyc(2,3) by (auto simp: yday_def pos_imp_zdiv_nonneg_iff div_less_iff_less_mult)
  note hms = seconds_of_day[OF cyc(2), folded yday_def]
  have "\<exists>m. month_loop yday (leap_row y) 1 1 =
        (m, 1 + (yday - days_since_jan_1st ! leap_row y ! (m - 1))) \<and> 1 \<le> m \<and> m \<le> 12 \<and>
      days_since_jan_1st ! leap_row y ! (m - 1) \<le> yday \<and> yday < days_since_jan_1st ! leap_row y ! m"
    by (rule month_loop_spec) (use yday leap_row_le in \<open>simp_all add: table_ends\<close>)
  then obtain m where m: "month_loop yday (leap_row y) 1 1 =
        (m, 1 + (yday - days_since_jan_1st ! leap_row y ! (m - 1)))"
      "1 \<le> m" "m \<le> 12" "days_since_jan_1st ! leap_row y ! (m - 1) \<le> yday"
      "yday < days_since_jan_1st ! leap_row y ! m"
    by blast
  have lr: "(if is_leap y then 1 else 0) = leap_row y"
    using cyc(4) by (simp add: is_leap_gregorian leap_row_def)
  define D where "D = days_since_jan_1st ! leap_row y ! (m - 1)"
  have tm: "tm_of_time t =
      \<lparr>tm_sec = s32 (r3 mod 86400 mod 3600 mod 60), tm_min = s32 (r3 mod 86400 mod 3600 div 60),
       tm_hour = s32 (r3 mod 86400 div 3600), tm_mday = s32 (1 + (yday - D)),
       tm_mon = s32 (int m - 1), tm_year = s32 (y - 1900),
       tm_wday = s32 ((sec div 86400 + 1) mod 7), tm_yday = s32 yday, tm_isdst = -1,
       tm_gmtoff = 10800, tm_zone = 0\<rparr>"
    using sums
  proof -
    define wday where "wday = (sec div 86400 + 1) mod 7"
    have e: "sec sdiv 86400 = sec div 86400" "(sec div 86400 + 1) smod 7 = wday"
      "sec sdiv 12622780800 = q" "sec smod 12622780800 = r"
      "r sdiv 3155673600 = r div 3155673600" "r1 sdiv 126230400 = r1 div 126230400"
      "r2 sdiv 31536000 = r2 div 31536000" "r3 sdiv 86400 = yday" "r3 smod 86400 = r3 mod 86400"
      "r3 mod 86400 sdiv 3600 = r3 mod 86400 div 3600" "r3 mod 86400 smod 3600 = r3 mod 86400 mod 3600"
      "r3 mod 86400 mod 3600 sdiv 60 = r3 mod 86400 mod 3600 div 60"
      "r3 mod 86400 mod 3600 smod 60 = r3 mod 86400 mod 3600 mod 60"
      using sec(1) r r1 r2 cyc(2)
      by (simp_all add: sdiv_nonneg smod_nonneg wday_def q_def r_def yday_def pos_imp_zdiv_nonneg_iff)
    show ?thesis
      by (simp only: tm_of_time_def sums e c_def[symmetric] r1_def[symmetric] k_def[symmetric]
          r2_def[symmetric] a_def[symmetric] r3_def[symmetric] y_def[symmetric] lr m(1) D_def[symmetric]
          prod.case wday_def[symmetric] Let_def[of "t + 10800"] Let_def[of sec] Let_def[of wday]
          Let_def[of q] Let_def[of r] Let_def[of "r div 3155673600"] Let_def[of c] Let_def[of r1]
          Let_def[of "r1 div 126230400"] Let_def[of k] Let_def[of r2] Let_def[of "r2 div 31536000"]
          Let_def[of a] Let_def[of r3] Let_def[of y] Let_def[of "leap_row y"] Let_def[of yday]
          Let_def[of "r3 mod 86400"] Let_def[of "r3 mod 86400 div 3600"]
          Let_def[of "r3 mod 86400 mod 3600"] Let_def[of "r3 mod 86400 mod 3600 div 60"]
          Let_def[of "r3 mod 86400 mod 3600 mod 60"]) simp
  qed
  have y: "1601 \<le> y" "y < 2 ^ 31" using cyc(4,5) sec(2) by auto
  have yl: "year_length y \<le> 366" by (simp add: year_length_def)
  have "m - 1 \<le> 12" using m(3) by simp
  then have D: "0 \<le> D" "D \<le> yday" using table_nonneg m(4) by (simp_all add: D_def)
  have i: "s32 (y - 1900) = y - 1900" "s32 yday = yday" "s32 (int m - 1) = int m - 1"
    "s32 (1 + (yday - D)) = 1 + (yday - D)"
    "s32 (r3 mod 86400 div 3600) = r3 mod 86400 div 3600"
    "s32 (r3 mod 86400 mod 3600 div 60) = r3 mod 86400 mod 3600 div 60"
    "s32 (r3 mod 86400 mod 3600 mod 60) = r3 mod 86400 mod 3600 mod 60"
    using y yday yl m(2,3) hms(2-7) D by (simp_all only: s32_id)
  have w: "s32 ((sec div 86400 + 1) mod 7) = (sec div 86400 + 1) mod 7"
    by (rule s32_id) (rule order_trans[of _ 0], simp, simp, rule less_trans[of _ 7], simp_all)
  have day: "sec div 86400 = days_before_year y + yday"
    by (simp add: cyc(1)[symmetric] yday_def)
  have n: "nat (int m - 1) = m - 1" "int m - 1 + 1 = int m" "nat (int m) = m" using m(2) by simp_all
  have y': "y - 1900 + 1900 = y" by simp
  have ms: "month_start y (int m - 1) = D" "month_start y (int m) = days_since_jan_1st ! leap_row y ! m"
    using m(2,3) by (simp_all only: month_start_table[of "int m - 1"] month_start_table[of "int m"] n D_def)
  have f: "tm_sec (tm_of_time t) = r3 mod 86400 mod 3600 mod 60"
    "tm_min (tm_of_time t) = r3 mod 86400 mod 3600 div 60"
    "tm_hour (tm_of_time t) = r3 mod 86400 div 3600" "tm_mday (tm_of_time t) = 1 + (yday - D)"
    "tm_mon (tm_of_time t) = int m - 1" "tm_year (tm_of_time t) = y - 1900"
    "tm_wday (tm_of_time t) = (days_before_year y + yday + 1) mod 7"
    "tm_yday (tm_of_time t) = yday" "tm_gmtoff (tm_of_time t) = 10800"
    by (simp_all only: tm i w[unfolded day] day tm.simps)
  have mm: "0 \<le> int m - 1" "int m - 1 < 12" using m(2,3) by linarith+
  have "month_days y (int m - 1) = days_since_jan_1st ! leap_row y ! m - D"
    using month_start_next[OF mm(1), of y] by (simp only: n ms)
  then have dd: "1 \<le> 1 + (yday - D)" "1 + (yday - D) \<le> month_days y (int m - 1)"
    "yday = D + (1 + (yday - D)) - 1"
    using D m(5) by linarith+
  have "valid_tm (tm_of_time t)"
    unfolding valid_tm_def Let_def f y' n(2) ms
    by (intro conjI hms mm dd yday refl)
  moreover have "seconds_of_tm (tm_of_time t) = t"
    unfolding seconds_of_tm_def Let_def f y' ms by (rule seconds_sum[OF hms(1) cyc(1) sec_def])
  ultimately show ?thesis ..
qed

text \<open>Months have 28 to 31 days, so a valid day of the month is at most 31.\<close>

lemma valid_tm_mday: "valid_tm tm \<Longrightarrow> tm_mday tm \<le> 31"
  by (auto simp: valid_tm_def Let_def month_days_def split: if_splits)

lemma time_to_tm_returns: "t < 2 ^ 55 \<Longrightarrow> time_to_tm t = Inr (tm_of_time t)"
  by (simp add: time_to_tm_def)

section \<open>Properties\<close>

text \<open>
  C23: for every time since 1970 from the start of 1601 up to the clock's range the conversion
  returns a date of the Gregorian calendar that is consistent in all fields (lengths of the months,
  leap years, day of the year, day of the week) and that reads back as the same time. The calendar
  is defined by the lengths of its months, not by the table of the code.
\<close>

theorem time_to_tm_roundtrip:
  assumes "- 11644484400 \<le> t" and "t < 2 ^ 55"
  shows "\<exists>T. time_to_tm t = Inr T \<and> valid_tm T \<and> seconds_of_tm T = t"
  using tm_of_time_correct[OF assms] time_to_tm_returns[OF assms(2)] by blast

theorem time_to_tm_roundtrip_witness:
  "\<exists>T. time_to_tm 951782400 = Inr T \<and> valid_tm T \<and> seconds_of_tm T = 951782400"
  using time_to_tm_roundtrip[of 951782400] by simp

end
