(* ===== verification/Time_Format.thy ===== *)
theory Time_Format
  imports Time_Tm
begin

text \<open>
  The printed forms of a broken-down time of \<^verbatim>\<open>lib/cfa/src/time.c\<close>. The chat server
  uses \<open>tm_in_slice2\<close>. The fields of the time are of type \<^verbatim>\<open>int\<close>: a year or a
  month whose sum with 1900 or 1 leaves that type is undefined, and so is an index outside of the
  tables of names.
\<close>

definition wdays :: "string list" where
  "wdays = [''Sun'', ''Mon'', ''Tue'', ''Wed'', ''Thu'', ''Fri'', ''Sat'']"

definition months :: "string list" where
  "months = [''Jan'', ''Feb'', ''Mar'', ''Apr'', ''May'', ''Jun'', ''Jul'', ''Aug'', ''Sep'',
     ''Oct'', ''Nov'', ''Dec'']"

definition tm_rfc822_in_slice :: "literals \<Rightarrow> mem \<Rightarrow> slice \<Rightarrow> tm \<Rightarrow> halt + u64 \<times> mem" where
  "tm_rfc822_in_slice lit m s tm =
    (let buf = sl_base s in
     if 0 \<le> tm_wday tm \<and> tm_wday tm < 7 then
       andthen (c_string_in_slice m s (lit (wdays ! nat (tm_wday tm)))) (\<lambda>st.
       let st = put_chars buf '', '' st;
           st = put_padded s (tm_mday tm) st;
           st = put_chars buf '' '' st
       in if 0 \<le> tm_mon tm \<and> tm_mon tm < 12 then
         andthen (append_c_string s (lit (months ! nat (tm_mon tm))) st) (\<lambda>st.
         let st = put_chars buf '' '' st;
             st = append_write write_int s (tm_year tm + 1900) st;
             st = put_chars buf '' '' st;
             st = put_padded s (tm_hour tm) st;
             st = put_chars buf '':'' st;
             st = put_padded s (tm_min tm) st;
             st = put_chars buf '':'' st;
             st = put_padded s (tm_sec tm) st;
             st = put_chars buf '' '' st
         in if tm_year tm + 1900 < 2 ^ 31 then Inr (put_chars buf ''+0300'' st) else Inl Undefined)
       else Inl Undefined)
     else Inl Undefined)"

definition tm_in_slice :: "mem \<Rightarrow> slice \<Rightarrow> tm \<Rightarrow> halt + u64 \<times> mem" where
  "tm_in_slice m s tm =
    (let buf = sl_base s;
         st = (0, m);
         st = put_padded s (tm_mday tm) st;
         st = put_chars buf ''.'' st;
         st = put_padded s (tm_mon tm + 1) st;
         st = put_chars buf ''.'' st;
         st = append_write write_int s (tm_year tm + 1900) st;
         st = put_chars buf '' '' st;
         st = put_padded s (tm_hour tm) st;
         st = put_chars buf '':'' st;
         st = put_padded s (tm_min tm) st;
         st = put_chars buf '':'' st;
         st = put_padded s (tm_sec tm) st;
         st = put_chars buf '' '' st
     in if tm_mon tm + 1 < 2 ^ 31 \<and> tm_year tm + 1900 < 2 ^ 31 then Inr (put_chars buf ''MSK'' st)
        else Inl Undefined)"

definition tm_in_slice2 :: "mem \<Rightarrow> slice \<Rightarrow> tm \<Rightarrow> u64 \<times> mem" where
  "tm_in_slice2 m s tm =
    (let buf = sl_base s;
         st = write_int (tm_hour tm) m s;
         st = put_chars buf '':'' st;
         st = put_padded s (tm_min tm) st;
         st = put_chars buf '':'' st;
         st = put_padded s (tm_sec tm) st;
         st = put_chars buf '' '' st
     in put_chars buf ''MSK'' st)"

section \<open>The texts\<close>

definition clock_text :: "tm \<Rightarrow> u8 list" where
  "clock_text tm = two_digits (tm_min tm) @ bytes_of '':'' @ two_digits (tm_sec tm)"

definition short_time_text :: "tm \<Rightarrow> u8 list" where
  "short_time_text tm = dec_int (tm_hour tm) @ bytes_of '':'' @ clock_text tm @ bytes_of '' MSK''"

definition date_time_text :: "tm \<Rightarrow> u8 list" where
  "date_time_text tm = two_digits (tm_mday tm) @ bytes_of ''.'' @ two_digits (tm_mon tm + 1) @
     bytes_of ''.'' @ dec_int (tm_year tm + 1900) @ bytes_of '' '' @ two_digits (tm_hour tm) @
     bytes_of '':'' @ clock_text tm @ bytes_of '' MSK''"

text \<open>The mail format abbreviates the English names to three letters.\<close>

definition weekday_names :: "string list" where
  "weekday_names = [''Sunday'', ''Monday'', ''Tuesday'', ''Wednesday'', ''Thursday'', ''Friday'',
     ''Saturday'']"

definition month_names :: "string list" where
  "month_names = [''January'', ''February'', ''March'', ''April'', ''May'', ''June'', ''July'',
     ''August'', ''September'', ''October'', ''November'', ''December'']"

definition rfc822_text :: "tm \<Rightarrow> u8 list" where
  "rfc822_text tm = bytes_of (take 3 (weekday_names ! nat (tm_wday tm))) @ bytes_of '', '' @ two_digits (tm_mday tm) @
     bytes_of '' '' @ bytes_of (take 3 (month_names ! nat (tm_mon tm))) @ bytes_of '' '' @
     dec_int (tm_year tm + 1900) @ bytes_of '' '' @ two_digits (tm_hour tm) @ bytes_of '':'' @
     clock_text tm @ bytes_of '' +0300''"

definition clock_ranges :: "tm \<Rightarrow> bool" where
  "clock_ranges tm \<longleftrightarrow> 0 \<le> tm_hour tm \<and> tm_hour tm < 24 \<and> 0 \<le> tm_min tm \<and> tm_min tm < 60 \<and>
     0 \<le> tm_sec tm \<and> tm_sec tm < 60"

lemma valid_tm_clock: "valid_tm tm \<Longrightarrow> clock_ranges tm"
  by (simp add: valid_tm_def clock_ranges_def Let_def)

lemma length_clock_text [simp]: "length (clock_text tm) = 5"
  by (simp add: clock_text_def)

lemma length_dec_hour: "0 \<le> x \<Longrightarrow> x < 100 \<Longrightarrow> length (dec_int x) \<le> 2"
  by (cases "x < 10") (simp_all add: dec_int_small)

lemma tm_in_slice2_built:
  assumes c: "clock_ranges tm" and cap: "length (short_time_text tm) \<le> unat (sl_cap s)"
  shows "tm_in_slice2 m s tm = built m (sl_base s) (short_time_text tm)"
proof -
  let ?h = "dec_int (tm_hour tm)"
  have len: "length ?h + 10 \<le> unat (sl_cap s)" using cap by (simp add: short_time_text_def)
  then have h: "write_int (tm_hour tm) m s = built m (sl_base s) ?h"
    using c by (intro ints.first_built) (auto simp: clock_ranges_def)
  show ?thesis
    using c len unfolding tm_in_slice2_def Let_def h
    by (simp add: clock_ranges_def text_built short_time_text_def clock_text_def)
qed

lemma tm_in_slice_built:
  assumes c: "valid_tm tm" and y: "tm_year tm + 1900 < 2 ^ 31" "- (2 ^ 31) \<le> tm_year tm"
    and cap: "length (date_time_text tm) \<le> unat (sl_cap s)"
  shows "tm_in_slice m s tm = Inr (built m (sl_base s) (date_time_text tm))"
proof -
  have r: "clock_ranges tm" "0 \<le> tm_mon tm" "tm_mon tm < 12" "1 \<le> tm_mday tm"
    using c by (simp_all add: valid_tm_clock valid_tm_def Let_def)
  have "tm_mday tm < 100" using valid_tm_mday[OF c] by simp
  then show ?thesis
    using r y cap unfolding tm_in_slice_def Let_def built_Nil[of m "sl_base s"]
    by (simp add: clock_ranges_def text_built date_time_text_def clock_text_def)
qed

section \<open>The mail format\<close>

text \<open>
  The names of the days and months are string literals: \<open>name_at\<close> says that one of them is in
  memory, outside the slice that is written.
\<close>

definition name_at :: "literals \<Rightarrow> mem \<Rightarrow> slice \<Rightarrow> string \<Rightarrow> bool" where
  "name_at lit m s x \<longleftrightarrow> cstr_at m (lit x) (bytes_of x) \<and> unat (lit x) + 3 \<le> 2 ^ 64 \<and>
     span (lit x) 4 \<inter> span (sl_base s) (unat (sl_cap s)) = {}"

lemma names_length: "x \<in> set (wdays @ months) \<Longrightarrow> length x = 3"
  by (auto simp: wdays_def months_def)

lemma append_name:
  assumes "name_at lit m s x" and x: "x \<in> set (wdays @ months)" and "slice_ok s" "sl_len s = sl_cap s"
    and room: "length bs + 3 \<le> unat (sl_cap s)"
  shows "append_c_string s (lit x) (built m (sl_base s) bs) =
    Inr (built m (sl_base s) (bs @ bytes_of x))"
proof (rule append_c_string_built)
  note n = assms(1)[unfolded name_at_def]
  have "span (sl_base s) (length bs) \<subseteq> span (sl_base s) (unat (sl_cap s))"
    using room by (intro span_mono) simp
  then have "span (lit x) (Suc (length (bytes_of x))) \<inter> span (sl_base s) (length bs) = {}"
    using n names_length[OF x] by auto
  with n show "cstr_at (st_bytes m (sl_base s) bs) (lit x) (bytes_of x)"
    using cstr_at_only[OF _ only_st_bytes] by blast
qed (use assms names_length[OF x] in \<open>auto simp: name_at_def slice_ok_def\<close>)

lemma first_name:
  assumes "name_at lit m s x" and x: "x \<in> set (wdays @ months)" and "slice_ok s" "sl_len s = sl_cap s"
    and "3 \<le> unat (sl_cap s)"
  shows "c_string_in_slice m s (lit x) = Inr (built m (sl_base s) (bytes_of x))"
  using append_name[OF assms(1-4), of "[]"] assms(5)
  by (cases s) (auto simp: append_c_string_def built_def slice_left_def andthen_Inr_iff)

lemma length_names: "length wdays = 7" "length months = 12"
  by (simp_all add: wdays_def months_def)

lemma in_names:
  "0 \<le> i \<Longrightarrow> i < 7 \<Longrightarrow> wdays ! nat i \<in> set (wdays @ months)"
  "0 \<le> i \<Longrightarrow> i < 12 \<Longrightarrow> months ! nat i \<in> set (wdays @ months)"
proof -
  assume i: "0 \<le> i"
  show "i < 7 \<Longrightarrow> wdays ! nat i \<in> set (wdays @ months)"
    using i nth_mem[of "nat i" wdays] length_names(1) by (auto simp del: nth_mem)
  show "i < 12 \<Longrightarrow> months ! nat i \<in> set (wdays @ months)"
    using i nth_mem[of "nat i" months] length_names(2) by (auto simp del: nth_mem)
qed

text \<open>The code's tables have these names, in this order.\<close>

lemma code_names:
  "0 \<le> i \<Longrightarrow> i < 7 \<Longrightarrow> take 3 (weekday_names ! nat i) = wdays ! nat i"
  "0 \<le> i \<Longrightarrow> i < 12 \<Longrightarrow> take 3 (month_names ! nat i) = months ! nat i"
proof -
  have l: "map (take 3) weekday_names = wdays" "map (take 3) month_names = months"
    by (simp_all add: weekday_names_def wdays_def month_names_def months_def)
  assume i: "0 \<le> i"
  show "i < 7 \<Longrightarrow> take 3 (weekday_names ! nat i) = wdays ! nat i"
    using i nth_map[of "nat i" weekday_names "take 3"] unfolding l by (simp add: weekday_names_def)
  show "i < 12 \<Longrightarrow> take 3 (month_names ! nat i) = months ! nat i"
    using i nth_map[of "nat i" month_names "take 3"] unfolding l by (simp add: month_names_def)
qed

lemma valid_tm_wday: "valid_tm tm \<Longrightarrow> 0 \<le> tm_wday tm \<and> tm_wday tm < 7"
  by (simp add: valid_tm_def Let_def)

section \<open>Properties\<close>

text \<open>
  The short form of a time of day is exactly \<open>h:mm:ss MSK\<close>, written once at the start of
  the slice, and the count is its length.
\<close>

theorem tm_in_slice2_text:
  assumes "clock_ranges tm" and "length (short_time_text tm) \<le> unat (sl_cap s)"
  shows "tm_in_slice2 m s tm =
    (of_nat (length (short_time_text tm)), st_bytes m (sl_base s) (short_time_text tm))"
  using tm_in_slice2_built[OF assms] by (simp add: built_def)

theorem tm_in_slice2_text_witness:
  "tm_in_slice2 (\<lambda>_. 0) (unsafe_slice 100 16) (tm_of_time 0) =
     (of_nat (length (short_time_text (tm_of_time 0))),
      st_bytes (\<lambda>_. 0) 100 (short_time_text (tm_of_time 0)))"
proof -
  have r: "clock_ranges (tm_of_time 0)" by (rule valid_tm_clock) (simp add: tm_of_time_correct)
  then have "length (short_time_text (tm_of_time 0)) \<le> 16"
    using length_dec_hour[of "tm_hour (tm_of_time 0)"] by (simp add: clock_ranges_def short_time_text_def)
  with r show ?thesis using tm_in_slice2_text[of "tm_of_time 0" "unsafe_slice 100 16" "\<lambda>_. 0"] by simp
qed

text \<open>
  The long form of a valid date is exactly \<open>dd.mm.yyyy hh:mm:ss MSK\<close>.
\<close>

theorem tm_in_slice_text:
  assumes "valid_tm tm" and "tm_year tm + 1900 < 2 ^ 31" and "- (2 ^ 31) \<le> tm_year tm"
    and "length (date_time_text tm) \<le> unat (sl_cap s)"
  shows "tm_in_slice m s tm =
    Inr (of_nat (length (date_time_text tm)), st_bytes m (sl_base s) (date_time_text tm))"
  using tm_in_slice_built[OF assms] by (simp add: built_def)

definition leap_day :: tm where
  "leap_day = \<lparr>tm_sec = 5, tm_min = 4, tm_hour = 3, tm_mday = 29, tm_mon = 1, tm_year = 100,
     tm_wday = 2, tm_yday = 59, tm_isdst = -1, tm_gmtoff = 10800, tm_zone = 0\<rparr>"

lemma leap_day_valid: "valid_tm leap_day"
  by (simp add: leap_day_def valid_tm_def Let_def month_start_def month_days_def gregorian_leap_def
      year_length_def days_before_year_def upto.simps)

theorem tm_in_slice_text_witness:
  "tm_in_slice (\<lambda>_. 0) (unsafe_slice 100 30) leap_day =
     Inr (of_nat (length (date_time_text leap_day)), st_bytes (\<lambda>_. 0) 100 (date_time_text leap_day))"
  using tm_in_slice_text[of leap_day "unsafe_slice 100 30" "\<lambda>_. 0"] leap_day_valid
  by (simp add: leap_day_def date_time_text_def dec_int_def dec_nat_def digits10.simps)

text \<open>
  C31: the mail form of a valid date is exactly \<open>Www, dd Mmm yyyy hh:mm:ss +0300\<close> with the
  first three letters of the English names of the day of the week and of the month, and the function
  returns: the day of the week and the month are within the code's tables.
\<close>

theorem tm_rfc822_text:
  assumes "valid_tm tm" and "tm_year tm + 1900 < 2 ^ 31" and "- (2 ^ 31) \<le> tm_year tm"
    and "name_at lit m s (wdays ! nat (tm_wday tm))" and "name_at lit m s (months ! nat (tm_mon tm))"
    and "slice_ok s" and "sl_len s = sl_cap s" and "length (rfc822_text tm) \<le> unat (sl_cap s)"
  shows "tm_rfc822_in_slice lit m s tm =
    Inr (of_nat (length (rfc822_text tm)), st_bytes m (sl_base s) (rfc822_text tm))"
proof -
  have r: "clock_ranges tm" "0 \<le> tm_mon tm" "tm_mon tm < 12" "1 \<le> tm_mday tm"
    using assms(1) by (simp_all add: valid_tm_clock valid_tm_def Let_def)
  note w = valid_tm_wday[OF assms(1)] and mday = valid_tm_mday[OF assms(1)]
  note l = in_names(1)[of "tm_wday tm"] in_names(2)[of "tm_mon tm"]
  have len: "length (wdays ! nat (tm_wday tm)) = 3" "length (months ! nat (tm_mon tm)) = 3"
    using names_length l w r by blast+
  have mail: "rfc822_text tm = bytes_of (wdays ! nat (tm_wday tm)) @ bytes_of '', '' @
      two_digits (tm_mday tm) @ bytes_of '' '' @ bytes_of (months ! nat (tm_mon tm)) @ bytes_of '' '' @
      dec_int (tm_year tm + 1900) @ bytes_of '' '' @ two_digits (tm_hour tm) @ bytes_of '':'' @
      clock_text tm @ bytes_of '' +0300''"
    unfolding rfc822_text_def using w r(2,3) by (simp only: code_names simp_thms)
  have cap: "3 + 2 + 2 + 1 + 3 + 1 + length (dec_int (tm_year tm + 1900)) + 1 + 2 + 1 + 5 + 6 \<le> unat (sl_cap s)"
    using assms(8) len by (simp add: mail)
  have "tm_rfc822_in_slice lit m s tm = Inr (built m (sl_base s) (rfc822_text tm))"
    using r w mday assms(2,3) cap l len unfolding tm_rfc822_in_slice_def Let_def
    by (simp add: first_name[OF assms(4) _ assms(6,7)] append_name[OF assms(5) _ assms(6,7)]
        clock_ranges_def text_built mail clock_text_def)
  then show ?thesis by (simp add: built_def)
qed

text \<open>A memory with the two names that the leap day needs.\<close>

definition demo_names :: mem where
  "demo_names = st_bytes (st_bytes (\<lambda>_. 0) 1000 (bytes_of ''Tue'')) 1008 (bytes_of ''Feb'')"

definition demo_lit :: literals where
  "demo_lit x = (if x = ''Tue'' then 1000 else 1008)"

lemma demo_names_at:
  "name_at demo_lit demo_names (unsafe_slice 100 40) ''Tue''"
  "name_at demo_lit demo_names (unsafe_slice 100 40) ''Feb''"
proof -
  have "span 1000 4 \<inter> span (100 :: u64) 40 = {}" "span 1008 4 \<inter> span (100 :: u64) 40 = {}"
    by (rule disj_spans, simp add: disj_def)+
  then show "name_at demo_lit demo_names (unsafe_slice 100 40) ''Tue''"
    "name_at demo_lit demo_names (unsafe_slice 100 40) ''Feb''"
    by (simp_all add: name_at_def demo_lit_def demo_names_def cstr_at_def ld_bytes_def st_bytes_def)
qed

theorem tm_rfc822_text_witness:
  "tm_rfc822_in_slice demo_lit demo_names (unsafe_slice 100 40) leap_day =
   Inr (of_nat (length (rfc822_text leap_day)), st_bytes demo_names 100 (rfc822_text leap_day))"
proof -
  have d: "wdays ! nat (tm_wday leap_day) = ''Tue''" "months ! nat (tm_mon leap_day) = ''Feb''"
    by (simp_all add: leap_day_def wdays_def months_def)
  have "length (rfc822_text leap_day) \<le> 40"
    by (simp add: rfc822_text_def weekday_names_def month_names_def leap_day_def dec_int_def dec_nat_def
        digits10.simps)
  then show ?thesis
    using tm_rfc822_text[of leap_day demo_lit demo_names "unsafe_slice 100 40"] leap_day_valid
      demo_names_at d by (simp add: leap_day_def slice_ok_def)
qed

end
