(* ===== verification/Session.thy ===== *)
theory Session
  imports Arena Time_Format
begin

text \<open>
  The sessions of the chat server, \<^verbatim>\<open>src/chat_server.c\<close>: the layout of a client and of a
  client pool in memory, and the functions from \<^verbatim>\<open>hton\<close> to \<^verbatim>\<open>session_new\<close>. The
  server structure is a record; everything that the program reaches through a pointer is in the
  byte memory. A list of clients is walked with the fuel of the platform, and so are the loops
  that end when the kernel says so.
\<close>

section \<open>Messages and sizes\<close>

definition welcome_msg :: string where "welcome_msg = ''Welcome to the chat, you are known as ''"
definition entered_msg :: string where "entered_msg = '' has entered the chat'' @ newline"
definition left_msg :: string where "left_msg = '' has left the chat'' @ newline"
definition too_long_msg :: string where "too_long_msg = ''Line too long! Good bye...'' @ newline"
definition too_long_name :: string where "too_long_name = ''Name too long! Good bye...'' @ newline"
definition limit_conn_msg :: string where
  "limit_conn_msg = ''Connection limit reached, rejecting client'' @ newline"
definition name_prompt :: string where "name_prompt = ''Your name please (max 29): ''"

definition backlog :: u32 where "backlog = 128"
definition max_line_len :: nat where "max_line_len = 512"
definition max_name_len :: nat where "max_name_len = 32"
definition max_events :: nat where "max_events = 16"
definition max_clients_in_pool :: nat where "max_clients_in_pool = 1023"
definition max_pools :: nat where "max_pools = 16"

section \<open>Layout\<close>

text \<open>
  A \<^verbatim>\<open>client\<close> takes 568 bytes: \<open>fd\<close>, \<open>buf_used\<close>, 512 bytes of \<open>buf\<close>, 32 bytes of
  \<open>name\<close>, \<open>name_used\<close>, \<open>name_ok\<close> and the link to the next client. A
  \<^verbatim>\<open>client_pool\<close> takes 48: the \<^verbatim>\<open>pool\<close>, two counters and the first client in use.
\<close>

definition sizeof_client :: nat where "sizeof_client = 568"
definition sizeof_client_pool :: nat where "sizeof_client_pool = 48"
definition pool_size :: nat where "pool_size = sizeof_client * max_clients_in_pool"

definition cl_fd :: "mem \<Rightarrow> u64 \<Rightarrow> u32" where "cl_fd m c = ld32 m c"
definition cl_buf_used :: "mem \<Rightarrow> u64 \<Rightarrow> u32" where "cl_buf_used m c = ld32 m (c + 4)"
definition cl_buf :: "u64 \<Rightarrow> u64" where "cl_buf c = c + 8"
definition cl_name :: "u64 \<Rightarrow> u64" where "cl_name c = c + 520"
definition cl_name_used :: "mem \<Rightarrow> u64 \<Rightarrow> u32" where "cl_name_used m c = ld32 m (c + 552)"
definition cl_name_ok :: "mem \<Rightarrow> u64 \<Rightarrow> u32" where "cl_name_ok m c = ld32 m (c + 556)"
definition cl_next :: "mem \<Rightarrow> u64 \<Rightarrow> u64" where "cl_next m c = ld64 m (c + 560)"

definition set_fd :: "u64 \<Rightarrow> u32 \<Rightarrow> mem \<Rightarrow> mem" where "set_fd c v m = st32 m c v"
definition set_buf_used :: "u64 \<Rightarrow> u32 \<Rightarrow> mem \<Rightarrow> mem" where "set_buf_used c v m = st32 m (c + 4) v"
definition set_name_used :: "u64 \<Rightarrow> u32 \<Rightarrow> mem \<Rightarrow> mem" where "set_name_used c v m = st32 m (c + 552) v"
definition set_name_ok :: "u64 \<Rightarrow> u32 \<Rightarrow> mem \<Rightarrow> mem" where "set_name_ok c v m = st32 m (c + 556) v"
definition set_next :: "u64 \<Rightarrow> u64 \<Rightarrow> mem \<Rightarrow> mem" where "set_next c v m = st64 m (c + 560) v"

definition clp_free_ch :: "mem \<Rightarrow> u64 \<Rightarrow> u32" where "clp_free_ch m q = ld32 m (q + 32)"
definition clp_used_ch :: "mem \<Rightarrow> u64 \<Rightarrow> u32" where "clp_used_ch m q = ld32 m (q + 36)"
definition clp_client :: "mem \<Rightarrow> u64 \<Rightarrow> u64" where "clp_client m q = ld64 m (q + 40)"

definition set_free_ch :: "u64 \<Rightarrow> u32 \<Rightarrow> mem \<Rightarrow> mem" where "set_free_ch q v m = st32 m (q + 32) v"
definition set_used_ch :: "u64 \<Rightarrow> u32 \<Rightarrow> mem \<Rightarrow> mem" where "set_used_ch q v m = st32 m (q + 36) v"
definition set_client :: "u64 \<Rightarrow> u64 \<Rightarrow> mem \<Rightarrow> mem" where "set_client q v m = st64 m (q + 40) v"

text \<open>The server structure; \<open>first_clp\<close> is the array of \<open>max_pools\<close> pool pointers.\<close>

record server =
  ls :: u32
  n_pls :: nat
  first_clp :: "u64 list"

definition pool_at :: "server \<Rightarrow> nat \<Rightarrow> halt + u64" where
  "pool_at serv i = (if i < length (first_clp serv) then Inr (first_clp serv ! i) else Inl Undefined)"

definition on_mem :: "(mem \<Rightarrow> mem) \<Rightarrow> world \<Rightarrow> world" where
  "on_mem f w = w\<lparr>wmem := f (wmem w)\<rparr>"

definition hton :: "u16 \<Rightarrow> u16" where
  "hton port = push_bit 8 port OR drop_bit 8 port"

section \<open>Sending\<close>

fun send_list :: "nat \<Rightarrow> platform \<Rightarrow> str \<Rightarrow> u64 \<Rightarrow> u64 \<Rightarrow> world \<Rightarrow> halt + world" where
  "send_list 0 P msg exc c w = Inl Out_of_fuel"
| "send_list (Suc k) P msg exc c w =
     (if c \<noteq> 0 then
        let w = (if exc \<noteq> c then world_of (sys_write P w (cl_fd (wmem w) c) (str_base msg) (str_len msg))
                 else w)
        in send_list k P msg exc (cl_next (wmem w) c) w
      else Inr w)"

fun send_pools :: "nat \<Rightarrow> platform \<Rightarrow> str \<Rightarrow> u64 \<Rightarrow> server \<Rightarrow> nat \<Rightarrow> world \<Rightarrow> halt + world" where
  "send_pools 0 P msg exc serv i w = Inr w"
| "send_pools (Suc k) P msg exc serv i w =
     andthen (pool_at serv i) (\<lambda>q.
     andthen (send_list (fuel P) P msg exc (clp_client (wmem w) q) w)
       (send_pools k P msg exc serv (Suc i)))"

definition session_send_all :: "platform \<Rightarrow> str \<Rightarrow> u64 \<Rightarrow> server \<Rightarrow> world \<Rightarrow> halt + world" where
  "session_send_all P msg exc serv w = send_pools (n_pls serv) P msg exc serv 0 w"

section \<open>Lines\<close>

fun find_newline :: "nat \<Rightarrow> mem \<Rightarrow> u64 \<Rightarrow> nat \<Rightarrow> nat option" where
  "find_newline 0 m c i = None"
| "find_newline (Suc k) m c i =
     (if m (cl_buf c + of_nat i) = 10 then Some i else find_newline k m c (Suc i))"

definition write_tm2 :: "tm \<Rightarrow> mem \<Rightarrow> slice \<Rightarrow> u64 \<times> mem" where
  "write_tm2 t m s = tm_in_slice2 m s t"

definition clock_error_format :: string where
  "clock_error_format = ''sys_clock_gettime: %s'' @ newline"

text \<open>
  The counter \<open>i\<close> of the message is an \<^verbatim>\<open>int\<close> in C; it stays below the length of the
  buffer, so it is kept as the word that the calls take.
\<close>

text \<open>The first field of a \<^verbatim>\<open>timespec\<close>.\<close>

definition tv_sec :: "mem \<Rightarrow> u64 \<Rightarrow> int" where "tv_sec m tp = sint (ld64 m tp)"

definition line_message :: "platform \<Rightarrow> slice \<Rightarrow> u64 \<Rightarrow> nat \<Rightarrow> world \<Rightarrow> halt + u64 \<times> world" where
  "line_message P s c pos w =
    (let tp = stk P ''check_line_and_send.tp'' in
     andthen (c_string_in_slice (wmem w) s (cl_name c)) (\<lambda>(i, m).
     let w = w\<lparr>wmem := m\<rparr>;
         (err, w) = sys_clock_gettime P w clock_realtime tp in
     case err of
       Some e \<Rightarrow>
         andthen (fmt_fprintf P w stderr (lit P clock_error_format) [lit P (err_msg e)]) (\<lambda>(_, w).
         let st = append_write write_nstring s (lit P '': '', 2) (i, wmem w);
             (i, m) = append_write write_nstring s (cl_buf c, of_nat (pos + 1)) st
         in Inr (i, w\<lparr>wmem := m\<rparr>))
     | None \<Rightarrow>
         andthen (time_to_tm (tv_sec (wmem w) tp)) (\<lambda>t.
         let st = append_write write_nstring s (lit P '' ('', 2) (i, wmem w);
             st = append_write write_tm2 s t st;
             st = append_write write_nstring s (lit P ''): '', 3) st;
             (i, m) = append_write write_nstring s (cl_buf c, of_nat (pos + 1)) st
         in Inr (i, w\<lparr>wmem := m\<rparr>))))"

definition check_line_and_send :: "platform \<Rightarrow> u64 \<Rightarrow> server \<Rightarrow> world \<Rightarrow> halt + world" where
  "check_line_and_send P c serv w =
    (case find_newline (nat (sint (cl_buf_used (wmem w) c))) (wmem w) c 0 of
       None \<Rightarrow> Inr w
     | Some pos \<Rightarrow>
       (let s = unsafe_slice (stk P ''check_line_and_send.msg'')
                  (of_nat (max_line_len + max_name_len + 17)) in
        andthen (line_message P s c pos w) (\<lambda>(i, w).
        andthen (slice_right s i) (\<lambda>msg.
        andthen (session_send_all P (get_string msg) c serv w) (\<lambda>w.
        let w = on_mem (set_buf_used c (cl_buf_used (wmem w) c - of_nat (pos + 1))) w
        in Inr (w\<lparr>wmem := snd (memmove (wmem w) (cl_buf c) (cl_buf c + of_nat (pos + 1))
                     (scast (cl_buf_used (wmem w) c)))\<rparr>))))))"

section \<open>Closing a session\<close>

text \<open>The address of the link that points to the client, as \<^verbatim>\<open>pcur\<close> in the loop.\<close>

fun find_link :: "nat \<Rightarrow> mem \<Rightarrow> u64 \<Rightarrow> u64 \<Rightarrow> halt + u64 option" where
  "find_link 0 m pcur c = Inl Out_of_fuel"
| "find_link (Suc k) m pcur c =
     (if ld64 m pcur \<noteq> 0 then
        if ld64 m pcur = c then Inr (Some pcur) else find_link k m (ld64 m pcur + 560) c
      else Inr None)"

function shift_left :: "u64 list \<Rightarrow> nat \<Rightarrow> nat \<Rightarrow> u64 list" where
  "shift_left clps i n =
     (if i < n then shift_left (clps[i := clps ! (i + 1)]) (i + 1) n else clps[i := 0])"
  by pat_completeness auto
termination
  by (relation "measure (\<lambda>(clps, i, n). n - i)") auto

declare shift_left.simps [simp del]

definition munmap_error_format :: string where
  "munmap_error_format = ''session_close: sys_munmap failed: %s'' @ newline"

definition unlink ::
  "platform \<Rightarrow> server \<Rightarrow> nat \<Rightarrow> u64 \<Rightarrow> u64 \<Rightarrow> world \<Rightarrow> halt + server \<times> world" where
  "unlink P serv i q pcur w =
    (let t = ld64 (wmem w) pcur;
         w = on_mem (\<lambda>m. st64 m pcur (cl_next m t)) w;
         w = on_mem (\<lambda>m. set_free_ch q (clp_free_ch m q + 1) m) w;
         w = on_mem (\<lambda>m. set_used_ch q (clp_used_ch m q - 1) m) w
     in if n_pls serv > 1 \<and> clp_used_ch (wmem w) q = 0 then
          let (err, w) = sys_munmap P w q page_size in
          andthen
            (case err of
               Some e \<Rightarrow> fmt_fprintf P w stderr (lit P munmap_error_format) [lit P (err_msg e)]
             | None \<Rightarrow> Inr (0, w))
            (\<lambda>(_, w).
          let n = n_pls serv - 1
          in if n < length (first_clp serv)
             then Inr (serv\<lparr>n_pls := n, first_clp := shift_left (first_clp serv) i n\<rparr>, w)
             else Inl Undefined)
        else andthen (pool_put (wmem w) q t) (\<lambda>m. Inr (serv, w\<lparr>wmem := m\<rparr>)))"

fun close_pools ::
  "nat \<Rightarrow> platform \<Rightarrow> u64 \<Rightarrow> server \<Rightarrow> nat \<Rightarrow> world \<Rightarrow> halt + server \<times> world" where
  "close_pools 0 P c serv i w = Inr (serv, w)"
| "close_pools (Suc k) P c serv i w =
     andthen (pool_at serv i) (\<lambda>q.
     andthen (find_link (fuel P) (wmem w) (q + 40) c) (\<lambda>r.
       case r of None \<Rightarrow> close_pools k P c serv (Suc i) w
       | Some pcur \<Rightarrow> unlink P serv i q pcur w))"

definition session_close :: "platform \<Rightarrow> u64 \<Rightarrow> server \<Rightarrow> world \<Rightarrow> halt + server \<times> world" where
  "session_close P c serv w =
    andthen
      (if cl_name_ok (wmem w) c = 1 then
         let s = unsafe_slice (stk P ''session_close.msg'') (of_nat (max_line_len + length left_msg + 1));
             st = c_nstring_in_slice (wmem w) s (cl_name c) (scast (cl_name_used (wmem w) c));
             (i, m) = append_write write_nstring s (lit P left_msg, of_nat (length left_msg)) st
         in andthen (slice_right s i) (\<lambda>msg.
            session_send_all P (get_string msg) c serv (w\<lparr>wmem := m\<rparr>))
       else Inr w)
      (\<lambda>w.
    let (_, w) = sys_close P w (cl_fd (wmem w) c)
    in close_pools (n_pls serv) P c serv 0 w)"

section \<open>Reading the name\<close>

text \<open>A session that is closed while it reads ends the handler: \<open>False\<close>.\<close>

definition close_and_stop :: "platform \<Rightarrow> u64 \<Rightarrow> server \<Rightarrow> world \<Rightarrow> halt + bool \<times> server \<times> world" where
  "close_and_stop P c serv w =
    andthen (session_close P c serv w) (\<lambda>(serv, w). Inr (False, serv, w))"

definition read_error_format :: string where
  "read_error_format = ''session_read: sys_read failed: %s'' @ newline"

fun name_read_loop ::
  "nat \<Rightarrow> platform \<Rightarrow> u64 \<Rightarrow> u32 \<Rightarrow> server \<Rightarrow> world \<Rightarrow> halt + bool \<times> server \<times> world" where
  "name_read_loop 0 P c bufn serv w = Inl Out_of_fuel"
| "name_read_loop (Suc k) P c bufn serv w =
     (let (v, err, w) = sys_read P w (cl_fd (wmem w) c) (cl_name c + scast bufn)
                          (scast (of_nat max_name_len - bufn));
          n = ucast v
      in case err of
           Some e \<Rightarrow>
             if err_code e = EAGAIN then Inr (True, serv, w)
             else if err_code e = EINTR then name_read_loop k P c bufn serv w
             else andthen (fmt_fprintf P w stderr (lit P read_error_format) [lit P (err_msg e)])
                    (\<lambda>(_, w). close_and_stop P c serv w)
         | None \<Rightarrow>
             if n = 0 then close_and_stop P c serv w
             else let w = on_mem (\<lambda>m. set_name_used c (cl_name_used m c + n) m) w
                  in if sint (cl_name_used (wmem w) c) > int max_name_len then
                       let w = world_of (sys_write P w (cl_fd (wmem w) c) (lit P too_long_name)
                                 (of_nat (length too_long_name)))
                       in close_and_stop P c serv w
                     else name_read_loop k P c bufn serv w)"

text \<open>
  The scan for the end of the name: a hit lowers \<open>name_used\<close> to the index, which ends the
  loop.
\<close>

function scan_name :: "mem \<Rightarrow> u64 \<Rightarrow> nat \<Rightarrow> mem" where
  "scan_name m c n =
    (if int n < sint (cl_name_used m c) then
       if m (cl_name c + of_nat n) = 10 \<or> m (cl_name c + of_nat n) = 13
       then scan_name (set_name_used c (of_nat n) (set_name_ok c 1 (m(cl_name c + of_nat n := 0)))) c (n + 1)
       else scan_name m c (n + 1)
     else m)"
  by pat_completeness auto
termination
proof (relation "measure (\<lambda>(m, c, n). nat (sint (cl_name_used m c) - int n))", goal_cases)
  case (2 m c n)
  have "sint (cl_name_used m c) < 2 ^ 31" using sint_lt[of "cl_name_used m c"] by simp
  then have n: "n < 2 ^ 31" using 2(1) by simp
  then have "sint (of_nat n :: u32) = int n" by (rule sint_of_nat32)
  then show ?case using 2 by (simp add: cl_name_used_def set_name_used_def c32.ld_st_same)
qed auto

declare scan_name.simps [simp del]

definition session_name_read :: "platform \<Rightarrow> u64 \<Rightarrow> server \<Rightarrow> world \<Rightarrow> halt + server \<times> world" where
  "session_name_read P c serv w =
    andthen (name_read_loop (fuel P) P c (cl_name_used (wmem w) c) serv w) (\<lambda>(go, serv, w).
    if \<not> go then Inr (serv, w)
    else let w = on_mem (\<lambda>m. scan_name m c 0) w
         in if cl_name_ok (wmem w) c = 1 then
              let s = unsafe_slice (stk P ''session_name_read.msg'')
                        (of_nat (length welcome_msg + 1 + max_name_len));
                  name = (cl_name c, scast (cl_name_used (wmem w) c));
                  st = c_nstring_in_slice (wmem w) s (lit P welcome_msg) (of_nat (length welcome_msg));
                  st = append_write write_nstring s name st;
                  (n, m) = append_write write_nstring s (lit P newline, 1) st;
                  w = world_of (sys_write P (w\<lparr>wmem := m\<rparr>) (cl_fd m c) (sl_base s) n);
                  st = c_nstring_in_slice (wmem w) s (cl_name c) (scast (cl_name_used (wmem w) c));
                  (n, m) = append_write write_nstring s (lit P entered_msg, of_nat (length entered_msg)) st
              in andthen (slice_right s n) (\<lambda>msg.
                 andthen (session_send_all P (get_string msg) c serv (w\<lparr>wmem := m\<rparr>)) (\<lambda>w.
                 Inr (serv, w)))
            else Inr (serv, w))"

section \<open>Reading lines\<close>

fun line_read_loop ::
  "nat \<Rightarrow> platform \<Rightarrow> u64 \<Rightarrow> u32 \<Rightarrow> server \<Rightarrow> world \<Rightarrow> halt + bool \<times> server \<times> world" where
  "line_read_loop 0 P c bufp serv w = Inl Out_of_fuel"
| "line_read_loop (Suc k) P c bufp serv w =
     (let (v, err, w) = sys_read P w (cl_fd (wmem w) c) (cl_buf c + scast bufp)
                          (scast (of_nat max_line_len - bufp));
          n = ucast v
      in case err of
           Some e \<Rightarrow>
             if err_code e = EAGAIN then Inr (True, serv, w)
             else if err_code e = EINTR then line_read_loop k P c bufp serv w
             else andthen (fmt_fprintf P w stderr (lit P read_error_format) [lit P (err_msg e)])
                    (\<lambda>(_, w). close_and_stop P c serv w)
         | None \<Rightarrow>
             if n = 0 then
               andthen (check_line_and_send P c serv w) (close_and_stop P c serv)
             else let w = on_mem (\<lambda>m. set_buf_used c (cl_buf_used m c + n) m) w
                  in if sint (cl_buf_used (wmem w) c) > int max_line_len then
                       let w = world_of (sys_write P w (cl_fd (wmem w) c) (lit P too_long_msg)
                                 (of_nat (length too_long_msg)))
                       in close_and_stop P c serv w
                     else line_read_loop k P c bufp serv w)"

definition session_line_read :: "platform \<Rightarrow> u64 \<Rightarrow> server \<Rightarrow> world \<Rightarrow> halt + server \<times> world" where
  "session_line_read P c serv w =
    andthen (line_read_loop (fuel P) P c (cl_buf_used (wmem w) c) serv w) (\<lambda>(go, serv, w).
    if \<not> go then Inr (serv, w)
    else andthen (check_line_and_send P c serv w) (\<lambda>w. Inr (serv, w)))"

section \<open>New sessions\<close>

definition clp_alloc_format :: string where
  "clp_alloc_format = ''session_new_clp: arena_alloc (client_pool) failed'' @ newline"
definition pool_alloc_format :: string where
  "pool_alloc_format = ''session_new_clp: arena_alloc (pool) failed'' @ newline"

definition session_new_clp :: "platform \<Rightarrow> server \<Rightarrow> world \<Rightarrow> halt + server \<times> world" where
  "session_new_clp P serv w =
    andthen (arena_create P w (of_nat (pool_size + sizeof_client_pool))) (\<lambda>(a, w).
    andthen (arena_alloc a (of_nat sizeof_client_pool)) (\<lambda>(clp_new, a).
    if clp_new = 0 then
      andthen (fmt_fprintf P w stderr (lit P clp_alloc_format) []) (\<lambda>_. sys_exit 1)
    else
    andthen (arena_alloc a (of_nat pool_size)) (\<lambda>(pbuf, a).
    if pbuf = 0 then
      andthen (fmt_fprintf P w stderr (lit P pool_alloc_format) []) (\<lambda>_. sys_exit 2)
    else
    andthen (pool_init (wmem w) clp_new pbuf (of_nat pool_size) (of_nat sizeof_client) 8) (\<lambda>m.
    let m = set_used_ch clp_new 0 m;
        m = set_free_ch clp_new (ucast (p_buf_len m clp_new div p_chunk_size m clp_new)) m;
        m = set_client clp_new 0 m
    in if n_pls serv < length (first_clp serv)
       then Inr (serv\<lparr>first_clp := (first_clp serv)[n_pls serv := clp_new], n_pls := n_pls serv + 1\<rparr>,
                 w\<lparr>wmem := m\<rparr>)
       else Inl Undefined))))"

text \<open>Taking a chunk from a pool; storing through a null result is undefined behaviour.\<close>

definition take_client :: "platform \<Rightarrow> bool \<Rightarrow> u64 \<Rightarrow> world \<Rightarrow> halt + u64 \<times> world" where
  "take_client P fresh q w =
    andthen (pool_get P w q) (\<lambda>(c, w).
    if fresh then
      Inr (c, on_mem (\<lambda>m. let m = set_client q c m; m = set_free_ch q (clp_free_ch m q - 1) m
                          in set_used_ch q (clp_used_ch m q + 1) m) w)
    else
      let w = on_mem (\<lambda>m. let m = set_free_ch q (clp_free_ch m q - 1) m
                          in set_used_ch q (clp_used_ch m q + 1) m) w
      in if c = 0 then Inl Undefined
         else Inr (c, on_mem (\<lambda>m. set_client q c (set_next c (clp_client m q) m)) w))"

fun find_free :: "nat \<Rightarrow> mem \<Rightarrow> server \<Rightarrow> nat \<Rightarrow> halt + u64 option" where
  "find_free 0 m serv i = Inr None"
| "find_free (Suc k) m serv i =
     andthen (pool_at serv i) (\<lambda>q.
     if sint (clp_free_ch m q) > 0 then Inr (Some q) else find_free k m serv (Suc i))"

definition session_new :: "platform \<Rightarrow> server \<Rightarrow> world \<Rightarrow> halt + u64 \<times> server \<times> world" where
  "session_new P serv w =
    andthen (find_free (n_pls serv) (wmem w) serv 0) (\<lambda>r.
    case r of
      Some q \<Rightarrow> andthen (take_client P False q w) (\<lambda>(c, w). Inr (c, serv, w))
    | None \<Rightarrow>
        if n_pls serv = max_pools then Inr (0, serv, w)
        else andthen (session_new_clp P serv w) (\<lambda>(serv, w).
             andthen (pool_at serv (n_pls serv - 1)) (\<lambda>q.
             andthen (take_client P True q w) (\<lambda>(c, w). Inr (c, serv, w)))))"

section \<open>Properties\<close>

text \<open>
  Converting a port to network order swaps its two bytes, so converting twice gives the port
  back.
\<close>

theorem hton_swaps:
  fixes lo hi :: u8
  shows "hton (hton port) = port \<and>
    hton (push_bit 8 (ucast hi) OR ucast lo) = push_bit 8 (ucast lo) OR ucast hi"
proof
  show "hton (hton port) = port"
    by (auto intro!: bit_word_eqI simp: hton_def bit_simps add.commute)
  show "hton (push_bit 8 (ucast hi) OR ucast lo) = push_bit 8 (ucast lo) OR ucast hi"
  proof -
    have b: "bit x n \<Longrightarrow> n < 8" for x :: u8 and n using bit_imp_le_length[of x n] by simp
    show ?thesis by (rule bit_word_eqI) (auto simp: hton_def bit_simps dest: b)
  qed
qed

end
