(* ===== verification/Server.thy ===== *)
theory Server
  imports Session
begin

text \<open>
  The server loop of \<^verbatim>\<open>src/chat_server.c\<close>: accepting clients, dispatching the events of
  \<^verbatim>\<open>epoll\<close>, and the start of the program.
\<close>

section \<open>Accepting\<close>

text \<open>A packed \<^verbatim>\<open>epoll_event\<close>: four bytes of flags, eight bytes of data.\<close>

definition store_event :: "u64 \<Rightarrow> u32 \<Rightarrow> u64 \<Rightarrow> mem \<Rightarrow> mem" where
  "store_event ev events ptr m = st64 (st32 m ev events) (ev + 4) ptr"

definition event_ptr :: "mem \<Rightarrow> u64 \<Rightarrow> nat \<Rightarrow> u64" where
  "event_ptr m evt i = ld64 m (evt + of_nat (12 * i) + 4)"

definition accept_error_format :: string where
  "accept_error_format = ''server_handle: sys_accept4 failed: %s'' @ newline"
definition handle_ctl_error_format :: string where
  "handle_ctl_error_format = ''server_handle: sys_epoll_ctl failed: %s'' @ newline"

definition init_client :: "u64 \<Rightarrow> u32 \<Rightarrow> mem \<Rightarrow> mem" where
  "init_client c fd m =
    (let m = set_fd c fd m; m = set_buf_used c 0 m; m = set_name_used c 0 m in set_name_ok c 0 m)"

fun handle_loop :: "nat \<Rightarrow> platform \<Rightarrow> u32 \<Rightarrow> server \<Rightarrow> world \<Rightarrow> halt + server \<times> world" where
  "handle_loop 0 P epfd serv w = Inl Out_of_fuel"
| "handle_loop (Suc k) P epfd serv w =
     (let (conn_sock, err, w) = sys_accept4 P w (ls serv) 0 0 sock_nonblock
      in case err of
           Some e \<Rightarrow>
             if err_code e = EAGAIN then Inr (serv, w)
             else andthen (fmt_fprintf P w stderr (lit P accept_error_format) [lit P (err_msg e)])
                    (\<lambda>(_, w). handle_loop k P epfd serv w)
         | None \<Rightarrow>
             andthen (session_new P serv w) (\<lambda>(c, serv, w).
             if c = 0 then
               let w = world_of (sys_write P w conn_sock (lit P limit_conn_msg) (of_nat (length limit_conn_msg)));
                   (_, w) = sys_close P w conn_sock
               in handle_loop k P epfd serv w
             else
               let ev = stk P ''server_handle.ev'';
                   w = on_mem (store_event ev EPOLLIN_EPOLLET c) w;
                   (err, w) = sys_epoll_ctl P w epfd epoll_ctl_add conn_sock ev
               in case err of
                    Some e \<Rightarrow>
                      andthen (fmt_fprintf P w stderr (lit P handle_ctl_error_format) [lit P (err_msg e)])
                        (\<lambda>(_, w). andthen (session_close P c serv w)
                        (\<lambda>(serv, w). handle_loop k P epfd serv w))
                  | None \<Rightarrow>
                      let w = on_mem (init_client c conn_sock) w;
                          w = world_of (sys_write P w conn_sock (lit P name_prompt) 27)
                      in handle_loop k P epfd serv w))"

definition server_handle :: "platform \<Rightarrow> u32 \<Rightarrow> server \<Rightarrow> world \<Rightarrow> halt + server \<times> world" where
  "server_handle P epfd serv w = handle_loop (fuel P) P epfd serv w"

section \<open>The event loop\<close>

definition handle_event :: "platform \<Rightarrow> u32 \<Rightarrow> u64 \<Rightarrow> server \<Rightarrow> world \<Rightarrow> halt + server \<times> world" where
  "handle_event P epfd ptr serv w =
    (if ptr = stk P ''_start.serv'' then server_handle P epfd serv w
     else let c = ptr
          in if cl_name_ok (wmem w) c = 0 then session_name_read P c serv w
             else session_line_read P c serv w)"

fun dispatch :: "nat \<Rightarrow> platform \<Rightarrow> u32 \<Rightarrow> nat \<Rightarrow> server \<Rightarrow> world \<Rightarrow> halt + server \<times> world" where
  "dispatch 0 P epfd i serv w = Inr (serv, w)"
| "dispatch (Suc k) P epfd i serv w =
     andthen (handle_event P epfd (event_ptr (wmem w) (stk P ''server_go.evt'') i) serv w)
       (\<lambda>(serv, w). dispatch k P epfd (Suc i) serv w)"

definition wait_error_format :: string where
  "wait_error_format = ''server_go: sys_epoll_wait failed: %s'' @ newline"

text \<open>One iteration of the endless loop of \<^verbatim>\<open>server_go\<close>.\<close>

definition server_round :: "platform \<Rightarrow> u32 \<Rightarrow> server \<Rightarrow> world \<Rightarrow> halt + server \<times> world" where
  "server_round P epfd serv w =
    (let (ev_count, err, w) = sys_epoll_wait P w epfd (stk P ''server_go.evt'') (of_nat max_events) (-1)
     in case err of
          Some e \<Rightarrow>
            if err_code e \<noteq> EINTR then
              andthen (fmt_fprintf P w stderr (lit P wait_error_format) [lit P (err_msg e)])
                (\<lambda>(_, w). Inr (serv, w))
            else Inr (serv, w)
        | None \<Rightarrow> dispatch (nat (sint ev_count)) P epfd 0 serv w)"

fun server_rounds :: "nat \<Rightarrow> platform \<Rightarrow> u32 \<Rightarrow> server \<Rightarrow> world \<Rightarrow> halt + 'a" where
  "server_rounds 0 P epfd serv w = Inl Out_of_fuel"
| "server_rounds (Suc k) P epfd serv w =
     andthen (server_round P epfd serv w) (\<lambda>(serv, w). server_rounds k P epfd serv w)"

definition create_error_format :: string where
  "create_error_format = ''server_go: sys_epoll_create1 failed: %s'' @ newline"
definition go_ctl_error_format :: string where
  "go_ctl_error_format = ''server_go: sys_epoll_ctl failed: %s'' @ newline"

definition server_go :: "platform \<Rightarrow> server \<Rightarrow> world \<Rightarrow> halt + int \<times> world" where
  "server_go P serv w =
    (let (epfd, err, w) = sys_epoll_create1 P w 0
     in case err of
          Some e \<Rightarrow>
            andthen (fmt_fprintf P w stderr (lit P create_error_format) [lit P (err_msg e)])
              (\<lambda>(_, w). Inr (1, snd (sys_close P w (ls serv))))
        | None \<Rightarrow>
            let ev = stk P ''server_go.ev'';
                w = on_mem (store_event ev EPOLLIN_EPOLLET (stk P ''_start.serv'')) w;
                (err, w) = sys_epoll_ctl P w epfd epoll_ctl_add (ls serv) ev
            in case err of
                 Some e \<Rightarrow>
                   andthen (fmt_fprintf P w stderr (lit P go_ctl_error_format) [lit P (err_msg e)])
                     (\<lambda>(_, w). let w = snd (sys_close P w epfd); w = snd (sys_close P w (ls serv))
                               in Inr (2, w))
               | None \<Rightarrow> server_rounds (fuel P) P epfd serv w)"

section \<open>Start\<close>

text \<open>A \<^verbatim>\<open>sockaddr_in\<close> of 16 bytes, and a 16-bit store for its first fields.\<close>

definition st16 :: "mem \<Rightarrow> u64 \<Rightarrow> u16 \<Rightarrow> mem" where
  "st16 m a v = st_bytes m a (le_bytes 2 (unat v))"

definition inaddr_any :: u32 where "inaddr_any = 0"

definition set_sin_family :: "u64 \<Rightarrow> u16 \<Rightarrow> mem \<Rightarrow> mem" where "set_sin_family addr v m = st16 m addr v"
definition set_sin_port :: "u64 \<Rightarrow> u16 \<Rightarrow> mem \<Rightarrow> mem" where "set_sin_port addr v m = st16 m (addr + 2) v"
definition set_sin_addr :: "u64 \<Rightarrow> u32 \<Rightarrow> mem \<Rightarrow> mem" where "set_sin_addr addr v m = st32 m (addr + 4) v"
definition set_sin_zero0 :: "u64 \<Rightarrow> u8 \<Rightarrow> mem \<Rightarrow> mem" where "set_sin_zero0 addr v m = m(addr + 8 := v)"

lemmas sockaddr_fields = set_sin_family_def set_sin_port_def set_sin_addr_def set_sin_zero0_def inaddr_any_def

definition socket_error_format :: string where
  "socket_error_format = ''server_init: sys_socket failed: %s'' @ newline"
definition sockopt_error_format :: string where
  "sockopt_error_format = ''server_init: sys_setsockopt failed: %s'' @ newline"
definition bind_error_format :: string where
  "bind_error_format = ''server_init: sys_bind failed: %s'' @ newline"
definition listen_error_format :: string where
  "listen_error_format = ''server_init: sys_listen failed: %s'' @ newline"

definition report_error ::
  "platform \<Rightarrow> string \<Rightarrow> c_error \<Rightarrow> int \<Rightarrow> server \<Rightarrow> world \<Rightarrow> halt + int \<times> server \<times> world" where
  "report_error P f e code serv w =
    andthen (fmt_fprintf P w stderr (lit P f) [lit P (err_msg e)]) (\<lambda>(_, w). Inr (code, serv, w))"

definition server_init :: "platform \<Rightarrow> u16 \<Rightarrow> server \<Rightarrow> world \<Rightarrow> halt + int \<times> server \<times> world" where
  "server_init P port serv w =
    (let enable = stk P ''server_init.enable''; addr = stk P ''server_init.addr'';
         w = on_mem (\<lambda>m. st32 m enable 1) w;
         (fd, err, w) = sys_socket P w af_inet sock_stream_nonblock 0;
         serv = serv\<lparr>ls := fd\<rparr>
     in case err of Some e \<Rightarrow> report_error P socket_error_format e 1 serv w
      | None \<Rightarrow>
     let (err, w) = sys_setsockopt P w (ls serv) sol_socket so_reuseaddr enable 4
     in case err of Some e \<Rightarrow> report_error P sockopt_error_format e 2 serv w
      | None \<Rightarrow>
     let w = on_mem (set_sin_family addr (ucast af_inet)) w;
         w = on_mem (set_sin_addr addr inaddr_any) w;
         w = on_mem (set_sin_port addr (hton port)) w;
         w = on_mem (set_sin_zero0 addr 0) w;
         (err, w) = sys_bind P w (ls serv) addr 16
     in case err of Some e \<Rightarrow> report_error P bind_error_format e 3 serv w
      | None \<Rightarrow>
     let (err, w) = sys_listen P w (ls serv) backlog
     in case err of Some e \<Rightarrow> report_error P listen_error_format e 4 serv w
      | None \<Rightarrow> Inr (0, serv, w))"

text \<open>
  \<^verbatim>\<open>_start\<close>; its array of pool pointers is not initialised, so its contents and the value
  of \<^verbatim>\<open>serv.ls\<close> are arguments. It never returns: the result is a \<open>halt\<close>.
\<close>

definition start :: "platform \<Rightarrow> u32 \<Rightarrow> u64 list \<Rightarrow> world \<Rightarrow> halt" where
  "start P ls0 p w =
    (case andthen (session_new_clp P \<lparr>ls = ls0, n_pls = 0, first_clp = take max_pools p\<rparr> w) (\<lambda>(serv, w).
          andthen (server_init P 7070 serv w) (\<lambda>(code, serv, w).
          if code \<noteq> 0 then sys_exit 1
          else andthen (server_go P serv w) (\<lambda>(code, _). sys_exit code :: halt + unit)))
     of Inl h \<Rightarrow> h | Inr _ \<Rightarrow> Undefined)"

end
