(* ===== verification/Server_State.thy ===== *)
theory Server_State
  imports Server
begin

text \<open>
  The state of the chat server in memory: which chunks of a client pool are in use, what a
  client holds, and which writes leave it alone. \<open>clp_ok m q fs us\<close> describes the pool at
  \<open>q\<close> with the free chunks \<open>fs\<close> and the clients \<open>us\<close>.
\<close>

section \<open>Slots\<close>

definition block_len :: nat where "block_len = 581632"

definition pool_block :: "u64 \<Rightarrow> u64 set" where
  "pool_block q = span q block_len"

definition block_ok :: "u64 \<Rightarrow> bool" where
  "block_ok q \<longleftrightarrow> q \<noteq> 0 \<and> unat q + block_len \<le> 2 ^ 47"

definition slot :: "u64 \<Rightarrow> nat \<Rightarrow> u64" where
  "slot q i = q + 48 + of_nat i * 568"

definition slots :: "u64 \<Rightarrow> u64 list" where
  "slots q = map (slot q) [0..<max_clients_in_pool]"

definition client_span :: "u64 \<Rightarrow> u64 set" where
  "client_span c = span c sizeof_client"

lemmas structure_sizes = block_len_def sizeof_client_def sizeof_client_pool_def pool_size_def
  max_clients_in_pool_def

declare structure_sizes [layout_defs]

lemma unat_slot:
  assumes "block_ok q" and "i < max_clients_in_pool"
  shows "unat (slot q i) = unat q + 48 + 568 * i"
proof -
  have q: "unat q + 581632 \<le> 2 ^ 47" and i: "i < 1023"
    using assms by (simp_all add: block_ok_def layout_defs)
  have "unat (of_nat (i * 568) :: u64) = i * 568" using i by (intro unat_of_nat_less) simp
  then have 1: "unat (of_nat i * 568 :: u64) = i * 568" by simp
  have 2: "unat (q + 48) = unat q + 48" using q by (subst unat_plus_less) simp_all
  have "unat (q + 48) + unat (of_nat i * 568 :: u64) < 2 ^ 64" unfolding 1 2 using q i by simp
  from unat_plus_less[OF this] show ?thesis unfolding slot_def 1 2 by simp
qed

text \<open>Where the slots are, as facts of linear arithmetic.\<close>

lemma slot_bounds:
  assumes "block_ok q" and "c \<in> set (slots q)"
  shows "unat q + 48 \<le> unat c" and "unat c + 568 \<le> unat q + 581632" and "unat c + 568 \<le> 2 ^ 47"
proof -
  obtain i where i: "i < max_clients_in_pool" "c = slot q i" using assms(2) by (auto simp: slots_def)
  have l: "i < 1023" using i(1) by (simp add: layout_defs)
  note u = unat_slot[OF assms(1) i(1), folded i(2)]
  show "unat q + 48 \<le> unat c" "unat c + 568 \<le> unat q + 581632" using u l by linarith+
  then show "unat c + 568 \<le> 2 ^ 47" using assms(1) by (simp add: block_ok_def layout_defs)
qed

lemma slots_apart:
  assumes "block_ok q" and "c \<in> set (slots q)" and "d \<in> set (slots q)" and "c \<noteq> d"
  shows "unat c + 568 \<le> unat d \<or> unat d + 568 \<le> unat c"
proof -
  obtain i j where ij: "i < max_clients_in_pool" "c = slot q i" "j < max_clients_in_pool" "d = slot q j"
    using assms(2,3) by (auto simp: slots_def)
  then have "i \<noteq> j" using assms(4) by auto
  then show ?thesis using unat_slot[OF assms(1) ij(1)] unat_slot[OF assms(1) ij(3)] ij
    by (cases "i < j") simp_all
qed

lemma slot_nonnull: "block_ok q \<Longrightarrow> c \<in> set (slots q) \<Longrightarrow> c \<noteq> 0"
  using slot_bounds(1)[of q c] by auto

lemma distinct_slots: "block_ok q \<Longrightarrow> distinct (slots q)"
proof -
  assume q: "block_ok q"
  have "inj_on (slot q) {0..<max_clients_in_pool}"
    using unat_slot[OF q] by (intro inj_onI) (metis add_left_cancel atLeastLessThan_iff mult_cancel1 zero_neq_numeral)
  then show ?thesis by (simp add: slots_def distinct_map)
qed

lemma length_slots [simp]: "length (slots q) = 1023"
  by (simp add: slots_def layout_defs)

text \<open>Parts of a region with a small offset.\<close>

lemma span_part:
  assumes "unat c + n \<le> 2 ^ 47" and "unat k + j \<le> n"
  shows "x \<in> span (c + k) j \<longleftrightarrow> unat c + unat k \<le> unat x \<and> unat x < unat c + unat k + j"
proof -
  have "unat (c + k) = unat c + unat k" using assms by (intro unat_plus_less) simp
  then show ?thesis using assms by (subst span_nowrap) simp_all
qed

lemma in_client_span:
  "block_ok q \<Longrightarrow> c \<in> set (slots q) \<Longrightarrow> x \<in> client_span c \<longleftrightarrow> unat c \<le> unat x \<and> unat x < unat c + 568"
  using slot_bounds(3)[of q c] by (simp add: client_span_def layout_defs span_nowrap)

lemma in_pool_block: "block_ok q \<Longrightarrow> x \<in> pool_block q \<longleftrightarrow> unat q \<le> unat x \<and> unat x < unat q + 581632"
  by (simp add: pool_block_def span_nowrap block_ok_def layout_defs)

lemma in_pool_head: "block_ok q \<Longrightarrow> x \<in> span q 48 \<longleftrightarrow> unat q \<le> unat x \<and> unat x < unat q + 48"
  by (simp add: span_nowrap block_ok_def layout_defs)

lemma client_span_block: "block_ok q \<Longrightarrow> c \<in> set (slots q) \<Longrightarrow> client_span c \<subseteq> pool_block q"
  using slot_bounds[of q c] by (auto simp: in_client_span in_pool_block)

lemma head_block: "block_ok q \<Longrightarrow> span q 48 \<subseteq> pool_block q"
  by (auto simp: in_pool_head in_pool_block)

lemma client_span_head: "block_ok q \<Longrightarrow> c \<in> set (slots q) \<Longrightarrow> client_span c \<inter> span q 48 = {}"
  using slot_bounds[of q c] by (auto simp: in_client_span in_pool_head)

lemma client_spans_disjoint:
  "block_ok q \<Longrightarrow> c \<in> set (slots q) \<Longrightarrow> d \<in> set (slots q) \<Longrightarrow> c \<noteq> d \<Longrightarrow> client_span c \<inter> client_span d = {}"
  using slots_apart[of q c d] by (auto simp: in_client_span)

section \<open>Agreement of memories\<close>

definition agree :: "u64 set \<Rightarrow> mem \<Rightarrow> mem \<Rightarrow> bool" where
  "agree S m m' \<longleftrightarrow> (\<forall>x \<in> S. m' x = m x)"

lemma agree_refl [simp]: "agree S m m"
  by (simp add: agree_def)

lemma agree_mono: "agree T m m' \<Longrightarrow> S \<subseteq> T \<Longrightarrow> agree S m m'"
  by (auto simp: agree_def)

lemma agree_trans: "agree S m m' \<Longrightarrow> agree S m' m'' \<Longrightarrow> agree S m m''"
  by (simp add: agree_def)

lemma only_agree: "only S m m' \<Longrightarrow> T \<inter> S = {} \<Longrightarrow> agree T m m'"
  by (auto simp: only_def agree_def)

lemma agree_ld32: "agree (span a 4) m m' \<Longrightarrow> ld32 m' a = ld32 m a"
  by (rule c32.ld_local) (simp add: agree_def)

lemma agree_ld64: "agree (span a 8) m m' \<Longrightarrow> ld64 m' a = ld64 m a"
  by (rule c64.ld_local) (simp add: agree_def)

section \<open>Clients\<close>

text \<open>
  \<open>stale_ok\<close> holds of every chunk, in use or not: a chunk with a name holds its terminator.
  \<open>live_ok\<close> holds of a client between two events: its counters are within its buffers.
\<close>

definition stale_ok :: "mem \<Rightarrow> u64 \<Rightarrow> bool" where
  "stale_ok m c \<longleftrightarrow> cl_name_ok m c = 0 \<or> cl_name_ok m c = 1 \<and>
     (\<exists>n < max_name_len. cl_name_used m c = of_nat n \<and> m (cl_name c + of_nat n) = 0)"

definition live_ok :: "mem \<Rightarrow> u64 \<Rightarrow> bool" where
  "live_ok m c \<longleftrightarrow> (\<exists>b \<le> max_line_len. cl_buf_used m c = of_nat b) \<and>
     (\<exists>n \<le> max_name_len. cl_name_used m c = of_nat n)"

lemma span_tail: "unat k + n \<le> 48 \<Longrightarrow> span (c + 520 + k) n \<subseteq> span (c + 520) 48"
  by (intro span_sub) simp_all

lemma tail_agree:
  assumes "agree (span (c + 520) 48) m m'"
  shows "cl_name_used m' c = cl_name_used m c" "cl_name_ok m' c = cl_name_ok m c"
    "cl_next m' c = cl_next m c" "n < max_name_len \<Longrightarrow> m' (cl_name c + of_nat n) = m (cl_name c + of_nat n)"
proof -
  note sub = agree_mono[OF assms span_tail]
  show "cl_name_used m' c = cl_name_used m c" "cl_name_ok m' c = cl_name_ok m c"
    "cl_next m' c = cl_next m c"
    using sub[of 32 4, THEN agree_ld32] sub[of 36 4, THEN agree_ld32] sub[of 40 8, THEN agree_ld64]
    by (simp_all add: cl_name_used_def cl_name_ok_def cl_next_def add.assoc)
  assume "n < max_name_len"
  then have "cl_name c + of_nat n \<in> span (c + 520) 48"
    unfolding cl_name_def by (intro in_span_of_nat) (simp_all add: max_name_len_def)
  then show "m' (cl_name c + of_nat n) = m (cl_name c + of_nat n)" using assms by (simp add: agree_def)
qed

lemma stale_ok_agree: "agree (span (c + 520) 48) m m' \<Longrightarrow> stale_ok m' c = stale_ok m c"
  using tail_agree[of c m m'] by (auto simp: stale_ok_def)

lemma client_part: "unat k + n \<le> 568 \<Longrightarrow> span (c + k) n \<subseteq> client_span c"
  unfolding client_span_def layout_defs by (intro span_sub) simp_all

lemma client_agree:
  assumes "agree (client_span c) m m'"
  shows "cl_fd m' c = cl_fd m c" "cl_buf_used m' c = cl_buf_used m c"
    "cl_name_used m' c = cl_name_used m c" "cl_name_ok m' c = cl_name_ok m c" "cl_next m' c = cl_next m c"
    "stale_ok m' c = stale_ok m c" "live_ok m' c = live_ok m c"
proof -
  note sub = agree_mono[OF assms client_part]
  have t: "agree (span (c + 520) 48) m m'" by (rule sub) simp
  note tail_agree(1-3)[OF t]
  moreover have "cl_fd m' c = cl_fd m c" "cl_buf_used m' c = cl_buf_used m c"
    using sub[of 0 4, THEN agree_ld32] sub[of 4 4, THEN agree_ld32]
    by (simp_all add: cl_fd_def cl_buf_used_def)
  ultimately show "cl_fd m' c = cl_fd m c" "cl_buf_used m' c = cl_buf_used m c"
    "cl_name_used m' c = cl_name_used m c" "cl_name_ok m' c = cl_name_ok m c" "cl_next m' c = cl_next m c"
    "stale_ok m' c = stale_ok m c" "live_ok m' c = live_ok m c"
    using stale_ok_agree[OF t] by (simp_all add: live_ok_def)
qed

section \<open>Client pools\<close>

definition clp_ok :: "mem \<Rightarrow> u64 \<Rightarrow> u64 list \<Rightarrow> u64 list \<Rightarrow> bool" where
  "clp_ok m q fs us \<longleftrightarrow> pool_ok m q fs \<and> p_buf m q = q + 48 \<and> p_buf_len m q = of_nat pool_size \<and>
     p_chunk_size m q = of_nat sizeof_client \<and> chain (cl_next m) (clp_client m q) us \<and>
     distinct (us @ fs) \<and> set (us @ fs) = set (slots q) \<and>
     clp_free_ch m q = of_nat (length fs) \<and> clp_used_ch m q = of_nat (length us) \<and>
     (\<forall>c \<in> set (slots q). stale_ok m c)"

lemma clp_counts: "block_ok q \<Longrightarrow> clp_ok m q fs us \<Longrightarrow> length us + length fs = 1023"
  using distinct_card[of "us @ fs"] distinct_card[OF distinct_slots, of q]
  by (simp add: clp_ok_def)

lemma clp_head_agree:
  assumes "agree (span q 48) m m'"
  shows "clp_free_ch m' q = clp_free_ch m q" "clp_used_ch m' q = clp_used_ch m q"
    "clp_client m' q = clp_client m q"
proof -
  note sub = agree_mono[OF assms span_sub]
  show "clp_free_ch m' q = clp_free_ch m q" "clp_used_ch m' q = clp_used_ch m q"
    "clp_client m' q = clp_client m q"
    using sub[of 32 4, THEN agree_ld32] sub[of 36 4, THEN agree_ld32] sub[of 40 8, THEN agree_ld64]
    by (simp_all add: clp_free_ch_def clp_used_ch_def clp_client_def)
qed

lemma pool_ok_agree:
  assumes "pool_ok m q fs" and "agree (span q 32) m m'" and "\<And>f. f \<in> set fs \<Longrightarrow> agree (link f) m m'"
  shows "pool_ok m' q fs" and "same_pool m m' q"
proof -
  let ?S = "{x. m' x \<noteq> m x}"
  have S: "only ?S m m'" "span q 32 \<inter> ?S = {}" "\<And>f. f \<in> set fs \<Longrightarrow> link f \<inter> ?S = {}"
    using assms(2,3) by (auto simp: only_def agree_def)
  show "pool_ok m' q fs" by (rule pool_ok_frame(1)[OF assms(1) S])
  show "same_pool m m' q" by (rule pool_ok_frame(2)[OF assms(1) S])
qed

lemma clp_ok_frame:
  assumes ok: "clp_ok m q fs us" and head: "agree (span q 48) m m'"
    and fs: "\<And>f. f \<in> set fs \<Longrightarrow> agree (link f) m m'"
    and us: "\<And>u. u \<in> set us \<Longrightarrow> cl_next m' u = cl_next m u"
    and st: "\<And>c. c \<in> set (slots q) \<Longrightarrow> stale_ok m' c"
  shows "clp_ok m' q fs us"
proof -
  have h: "agree (span q 32) m m'" by (rule agree_mono[OF head span_mono]) simp
  have "pool_ok m q fs" using ok by (simp add: clp_ok_def)
  note p = pool_ok_agree[OF this h fs]
  have "chain (cl_next m') (clp_client m q) us = chain (cl_next m) (clp_client m q) us"
    by (rule chain_cong) (rule us)
  with ok p st show ?thesis by (simp add: clp_ok_def clp_head_agree[OF head] same_pool_def)
qed

lemma clp_ok_block:
  assumes q: "block_ok q" and ok: "clp_ok m q fs us" and "agree (pool_block q) m m'"
  shows "clp_ok m' q fs us"
proof -
  have c: "agree (client_span c) m m'" if "c \<in> set (slots q)" for c
    by (rule agree_mono[OF assms(3) client_span_block[OF q that]])
  have s: "set (us @ fs) = set (slots q)" using ok by (simp add: clp_ok_def)
  show ?thesis
  proof (rule clp_ok_frame[OF ok])
    show "agree (span q 48) m m'" by (rule agree_mono[OF assms(3) head_block[OF q]])
    show "agree (link f) m m'" if "f \<in> set fs" for f
      using agree_mono[OF c client_part[of 0 8 f]] that s by (auto simp: link_def)
    show "cl_next m' u = cl_next m u" if "u \<in> set us" for u using client_agree(5)[OF c] that s by auto
    show "stale_ok m' d" if "d \<in> set (slots q)" for d
      using client_agree(6)[OF c[OF that]] ok that by (simp add: clp_ok_def)
  qed
qed

section \<open>The whole server\<close>

text \<open>
  \<open>scratch\<close> is where the functions of the server keep arrays and structures whose address
  they take, apart from the array of events, which is in use while all the others run;
  \<open>rodata\<close> is where the string literals are.
\<close>

definition locals :: "(string \<times> nat) list" where
  "locals = [(''fmt_fprintf.buf'', 2048), (''check_line_and_send.msg'', 561), (''check_line_and_send.tp'', 16),
    (''session_close.msg'', 532), (''session_name_read.msg'', 71), (''server_handle.ev'', 12),
    (''server_go.ev'', 12), (''server_init.addr'', 16), (''server_init.enable'', 4)]"

definition literals_used :: "string list" where
  "literals_used = [welcome_msg, entered_msg, left_msg, too_long_msg, too_long_name, limit_conn_msg,
     name_prompt, newline, '': '', '' ('', ''): '', clock_error_format, munmap_error_format,
     read_error_format, clp_alloc_format, pool_alloc_format, accept_error_format,
     handle_ctl_error_format, wait_error_format, create_error_format, go_ctl_error_format,
     socket_error_format, sockopt_error_format, bind_error_format, listen_error_format,
     arena_create_format]"

definition scratch :: "platform \<Rightarrow> u64 set" where
  "scratch P = (\<Union>(v, n) \<in> set locals. span (stk P v) n)"

definition events_area :: "platform \<Rightarrow> u64 set" where
  "events_area P = span (stk P ''server_go.evt'') (12 * max_events)"

definition rodata :: "platform \<Rightarrow> u64 set" where
  "rodata P = (\<Union>s \<in> set literals_used. span (lit P s) (Suc (length s)))"

definition statics :: "platform \<Rightarrow> u64 set" where
  "statics P = scratch P \<union> events_area P \<union> rodata P"

text \<open>
  What the linker, the loader and the compiler promise: nothing wraps, the literals and the array
  of events do not overlap the other locals, and neither do the locals of
  \<^verbatim>\<open>check_line_and_send\<close> and the buffer of \<^verbatim>\<open>fmt_fprintf\<close>, which are alive
  together.
\<close>

definition layout_ok :: "platform \<Rightarrow> bool" where
  "layout_ok P \<longleftrightarrow>
     (\<forall>(v, n) \<in> set ((''server_go.evt'', 192) # locals). stk P v \<noteq> 0 \<and> unat (stk P v) + n \<le> 2 ^ 47) \<and>
     (\<forall>s \<in> set literals_used. unat (lit P s) + length s < 2 ^ 47) \<and>
     scratch P \<inter> rodata P = {} \<and> events_area P \<inter> (scratch P \<union> rodata P) = {} \<and>
     span (stk P ''fmt_fprintf.buf'') max_buf \<inter> span (stk P ''check_line_and_send.msg'') 561 = {} \<and>
     span (stk P ''fmt_fprintf.buf'') max_buf \<inter> span (stk P ''check_line_and_send.tp'') 16 = {} \<and>
     span (stk P ''check_line_and_send.msg'') 561 \<inter> span (stk P ''check_line_and_send.tp'') 16 = {}"

definition literals_ok :: "platform \<Rightarrow> mem \<Rightarrow> bool" where
  "literals_ok P m \<longleftrightarrow> (\<forall>s \<in> set literals_used. cstr_at m (lit P s) (bytes_of s))"

definition platform_ok :: "platform \<Rightarrow> bool" where
  "platform_ok P \<longleftrightarrow> kernel_ok (kern P) \<and> layout_ok P \<and> 1024 \<le> fuel P"

type_synonym pools = "(u64 \<times> u64 list \<times> u64 list) list"

definition clients :: "pools \<Rightarrow> u64 list" where
  "clients pls = concat (map (\<lambda>(q, fs, us). us) pls)"

definition blocks :: "pools \<Rightarrow> u64 list" where
  "blocks pls = map fst pls"

definition blocks_apart :: "u64 list \<Rightarrow> bool" where
  "blocks_apart qs \<longleftrightarrow> distinct qs \<and> (\<forall>q \<in> set qs. \<forall>r \<in> set qs. q \<noteq> r \<longrightarrow> pool_block q \<inter> pool_block r = {})"

definition server_ok :: "platform \<Rightarrow> mem \<Rightarrow> server \<Rightarrow> pools \<Rightarrow> bool" where
  "server_ok P m s pls \<longleftrightarrow> n_pls s = length pls \<and> length pls \<le> max_pools \<and>
     length (first_clp s) = max_pools \<and> take (length pls) (first_clp s) = blocks pls \<and>
     blocks_apart (blocks pls) \<and> literals_ok P m \<and>
     (\<forall>(q, fs, us) \<in> set pls. block_ok q \<and> pool_block q \<inter> statics P = {} \<and> clp_ok m q fs us)"

definition all_live :: "mem \<Rightarrow> pools \<Rightarrow> bool" where
  "all_live m pls \<longleftrightarrow> (\<forall>c \<in> set (clients pls). live_ok m c)"

lemma server_okD:
  assumes "server_ok P m s pls" and e: "(q, fs, us) \<in> set pls"
  shows "block_ok q" "pool_block q \<inter> statics P = {}" "clp_ok m q fs us" "q \<in> set (blocks pls)"
    "set us \<subseteq> set (slots q)" "set fs \<subseteq> set (slots q)" "distinct (us @ fs)"
proof -
  have "\<forall>(q, fs, us) \<in> set pls. block_ok q \<and> pool_block q \<inter> statics P = {} \<and> clp_ok m q fs us"
    using assms(1) by (simp add: server_ok_def)
  from bspec[OF this e] show *: "block_ok q" "pool_block q \<inter> statics P = {}" "clp_ok m q fs us"
    by simp_all
  have "fst (q, fs, us) \<in> fst ` set pls" using e by (rule imageI)
  then show "q \<in> set (blocks pls)" by (simp add: blocks_def)
  have "set (us @ fs) = set (slots q)" "distinct (us @ fs)"
    using *(3) unfolding clp_ok_def by blast+
  then show "set us \<subseteq> set (slots q)" "set fs \<subseteq> set (slots q)" "distinct (us @ fs)" by auto
qed

lemma pool_entry:
  assumes "server_ok P m s pls" and "q \<in> set (blocks pls)"
  obtains fs us where "(q, fs, us) \<in> set pls"
  using assms by (auto simp: blocks_def)

lemma client_pool:
  assumes "server_ok P m s pls" and "c \<in> set (clients pls)"
  obtains q fs us where "(q, fs, us) \<in> set pls" "c \<in> set us" "c \<in> set (slots q)" "block_ok q"
proof -
  obtain q fs us where e: "(q, fs, us) \<in> set pls" "c \<in> set us"
    using assms(2) by (auto simp: clients_def)
  from that[OF e] server_okD(1,5)[OF assms(1) e(1)] e(2) show ?thesis by blast
qed

text \<open>Slots of different pools do not overlap either.\<close>

definition is_slot :: "pools \<Rightarrow> u64 \<Rightarrow> bool" where
  "is_slot pls c \<longleftrightarrow> (\<exists>q \<in> set (blocks pls). c \<in> set (slots q))"

lemma clients_slots:
  assumes "server_ok P m s pls" and "c \<in> set (clients pls)"
  shows "is_slot pls c"
proof -
  obtain q fs us where e: "(q, fs, us) \<in> set pls" "c \<in> set (slots q)"
    using client_pool[OF assms] by metis
  then show ?thesis using server_okD(4)[OF assms(1) e(1)] by (auto simp: is_slot_def)
qed

lemma entry_slots:
  assumes "server_ok P m s pls" and e: "(q, fs, us) \<in> set pls"
  shows "c \<in> set (slots q) \<Longrightarrow> is_slot pls c" "u \<in> set us \<Longrightarrow> is_slot pls u" "f \<in> set fs \<Longrightarrow> is_slot pls f"
  using server_okD(4-6)[OF assms] by (auto simp: is_slot_def)

lemma slot_block:
  assumes "server_ok P m s pls" and "is_slot pls c"
  obtains q where "q \<in> set (blocks pls)" "c \<in> set (slots q)" "block_ok q" "client_span c \<subseteq> pool_block q"
    "pool_block q \<inter> statics P = {}"
proof -
  obtain q where q: "q \<in> set (blocks pls)" "c \<in> set (slots q)" using assms(2) by (auto simp: is_slot_def)
  obtain fs us where e: "(q, fs, us) \<in> set pls" using pool_entry[OF assms(1) q(1)] .
  from that[OF q server_okD(1)[OF assms(1) e] client_span_block[OF _ q(2)]] server_okD(1,2)[OF assms(1) e]
  show ?thesis by simp
qed

lemma slots_disjoint:
  assumes ok: "server_ok P m s pls" and "is_slot pls c" "is_slot pls d" and "c \<noteq> d"
  shows "client_span c \<inter> client_span d = {}"
proof -
  obtain q where q: "q \<in> set (blocks pls)" "c \<in> set (slots q)" "block_ok q" "client_span c \<subseteq> pool_block q"
    using slot_block[OF ok assms(2)] .
  obtain r where r: "r \<in> set (blocks pls)" "d \<in> set (slots r)" "client_span d \<subseteq> pool_block r"
    using slot_block[OF ok assms(3)] .
  show ?thesis
  proof (cases "q = r")
    case True
    then show ?thesis using client_spans_disjoint[OF q(3,2)] r(2) assms(4) by simp
  next
    case False
    then have "pool_block q \<inter> pool_block r = {}" using ok q(1) r(1) by (simp add: server_ok_def blocks_apart_def)
    then show ?thesis using q(4) r(3) by auto
  qed
qed

lemma slot_head_disjoint:
  assumes ok: "server_ok P m s pls" and "is_slot pls c" and "r \<in> set (blocks pls)"
  shows "client_span c \<inter> span r 48 = {}"
proof -
  obtain q where q: "q \<in> set (blocks pls)" "c \<in> set (slots q)" "block_ok q" "client_span c \<subseteq> pool_block q"
    using slot_block[OF ok assms(2)] .
  obtain fs us where "(r, fs, us) \<in> set pls" using pool_entry[OF ok assms(3)] .
  then have r: "block_ok r" by (rule server_okD(1)[OF ok])
  show ?thesis
  proof (cases "q = r")
    case True
    then show ?thesis using client_span_head[OF q(3,2)] by simp
  next
    case False
    then have "pool_block q \<inter> pool_block r = {}" using ok q(1) assms(3) by (simp add: server_ok_def blocks_apart_def)
    then show ?thesis using q(4) head_block[OF r] by auto
  qed
qed

section \<open>Writes that leave the server alone\<close>

lemma scratch_outside:
  assumes "server_ok P m s pls"
  shows "is_slot pls c \<Longrightarrow> client_span c \<inter> statics P = {}"
    and "q \<in> set (blocks pls) \<Longrightarrow> span q 48 \<inter> statics P = {}"
proof -
  show "client_span c \<inter> statics P = {}" if "is_slot pls c"
    using slot_block[OF assms that] by (metis Int_assoc Int_empty_right inf.absorb_iff1)
  show "span q 48 \<inter> statics P = {}" if q: "q \<in> set (blocks pls)"
  proof -
    obtain fs us where e: "(q, fs, us) \<in> set pls" using pool_entry[OF assms q] .
    show ?thesis using server_okD(1,2)[OF assms e] head_block[of q] by auto
  qed
qed

lemma literals_ok_frame:
  assumes "literals_ok P m" and "only S m m'" and "rodata P \<inter> S = {}"
  shows "literals_ok P m'"
  unfolding literals_ok_def
proof
  fix s assume s: "s \<in> set literals_used"
  have "span (lit P s) (Suc (length s)) \<subseteq> rodata P" unfolding rodata_def using s by blast
  then have "span (lit P s) (Suc (length (bytes_of s))) \<inter> S = {}" using assms(3) by auto
  moreover have "cstr_at m (lit P s) (bytes_of s)" using assms(1) s by (simp add: literals_ok_def)
  ultimately show "cstr_at m' (lit P s) (bytes_of s)" using cstr_at_only[OF _ assms(2)] by blast
qed

lemma layout_ro: "layout_ok P \<Longrightarrow> rodata P \<inter> scratch P = {}"
  unfolding layout_ok_def by blast

text \<open>
  The main frame fact: a write into one client, apart from its link, and into the locals keeps
  the server as it is, if the client still has a terminated name.
\<close>

lemma client_write:
  assumes ok: "server_ok P m s pls" and lay: "layout_ok P" and c: "c \<in> set (clients pls)"
    and w: "only (span c 560 \<union> scratch P) m m'" and st: "stale_ok m' c"
  shows "server_ok P m' s pls"
    and "\<And>d. is_slot pls d \<Longrightarrow> d \<noteq> c \<Longrightarrow> agree (client_span d) m m'"
proof -
  have sc: "is_slot pls c" by (rule clients_slots[OF ok c])
  have c560: "span c 560 \<subseteq> client_span c" using client_part[of 0 560 c] by simp
  note out = scratch_outside[OF ok]
  have sub: "scratch P \<subseteq> statics P" "rodata P \<subseteq> statics P" by (auto simp: statics_def)
  show others: "agree (client_span d) m m'" if "is_slot pls d" "d \<noteq> c" for d
    using slots_disjoint[OF ok that(1) sc that(2)] out(1)[OF that(1)] c560 sub
    by (intro only_agree[OF w]) blast
  have head: "agree (span q 48) m m'" if "q \<in> set (blocks pls)" for q
    using slot_head_disjoint[OF ok sc that] out(2)[OF that] c560 sub by (intro only_agree[OF w]) blast
  have tail: "agree (span (c + 560) 8) m m'"
  proof (rule only_agree[OF w])
    have "disj (c + 560) 8 c 560" by (simp add: disj_def)
    from disj_spans[OF this] client_part[of 560 8 c] out(1)[OF sc] sub
    show "span (c + 560) 8 \<inter> (span c 560 \<union> scratch P) = {}" by auto
  qed
  have lits: "literals_ok P m'"
  proof (rule literals_ok_frame[OF _ w])
    show "literals_ok P m" using ok by (simp add: server_ok_def)
    show "rodata P \<inter> (span c 560 \<union> scratch P) = {}"
      using out(1)[OF sc] c560 sub layout_ro[OF lay] by blast
  qed
  have "clp_ok m' q fs us" if e: "(q, fs, us) \<in> set pls" for q fs us
  proof (rule clp_ok_frame)
    note D = server_okD[OF ok e]
    show "clp_ok m q fs us" by (rule D(3))
    show "agree (span q 48) m m'" by (rule head[OF D(4)])
    show "agree (link f) m m'" if f: "f \<in> set fs" for f
    proof -
      have "f \<noteq> c"
      proof
        assume "f = c"
        obtain r gs vs where r: "(r, gs, vs) \<in> set pls" "c \<in> set vs" "c \<in> set (slots r)"
          using client_pool[OF ok c] by metis
        have "r = q"
        proof (rule ccontr)
          assume "r \<noteq> q"
          then have "pool_block r \<inter> pool_block q = {}"
            using ok server_okD(4)[OF ok r(1)] D(4) by (simp add: server_ok_def blocks_apart_def)
          moreover have "client_span c \<subseteq> pool_block r" "client_span c \<subseteq> pool_block q"
            using client_span_block[OF server_okD(1)[OF ok r(1)] r(3)] client_span_block[OF D(1), of c]
              D(6) f \<open>f = c\<close> by auto
          moreover have "c \<in> client_span c" by (simp add: client_span_def span_def sizeof_client_def)
          ultimately show False by auto
        qed
        then have "(q, gs, vs) \<in> set pls" using r(1) by simp
        moreover have "distinct (map fst pls)"
          using ok by (simp add: server_ok_def blocks_apart_def blocks_def)
        ultimately have "(gs, vs) = (fs, us)" using e by (intro eq_key_imp_eq_value[of pls q])
        then show False using D(7) r(2) f \<open>f = c\<close> by auto
      qed
      from others[OF entry_slots(3)[OF ok e f] this] show ?thesis
        using agree_mono[OF _ client_part[of 0 8 f]] by (simp add: link_def)
    qed
    show "cl_next m' u = cl_next m u" if u: "u \<in> set us" for u
    proof (cases "u = c")
      case True
      then show ?thesis unfolding cl_next_def using agree_ld64[OF tail] by simp
    next
      case False
      then show ?thesis by (rule client_agree(5)[OF others[OF entry_slots(2)[OF ok e u]]])
    qed
    show "stale_ok m' d" if d: "d \<in> set (slots q)" for d
    proof (cases "d = c")
      case False
      from client_agree(6)[OF others[OF entry_slots(1)[OF ok e d] False]] D(3) d
      show ?thesis by (simp add: clp_ok_def)
    qed (use st in simp)
  qed
  then show "server_ok P m' s pls" using ok lits by (auto simp: server_ok_def)
qed

lemma scratch_write:
  assumes ok: "server_ok P m s pls" and lay: "layout_ok P" and w: "only (scratch P) m m'"
  shows "server_ok P m' s pls" and "is_slot pls d \<Longrightarrow> agree (client_span d) m m'"
    and "q \<in> set (blocks pls) \<Longrightarrow> agree (pool_block q) m m'"
proof -
  have sub: "scratch P \<subseteq> statics P" by (auto simp: statics_def)
  have blk: "agree (pool_block q) m m'" if "(q, fs, us) \<in> set pls" for q fs us
    using server_okD(2)[OF ok that] sub by (intro only_agree[OF w]) blast
  then have "clp_ok m' q fs us" if "(q, fs, us) \<in> set pls" for q fs us
    using clp_ok_block server_okD(1,3)[OF ok that] that by blast
  moreover have "literals_ok P m'"
  proof (rule literals_ok_frame[OF _ w])
    show "literals_ok P m" using ok by (simp add: server_ok_def)
    show "rodata P \<inter> scratch P = {}" by (rule layout_ro[OF lay])
  qed
  ultimately show "server_ok P m' s pls" using ok by (auto simp: server_ok_def)
  show "agree (client_span d) m m'" if "is_slot pls d"
    using scratch_outside(1)[OF ok that] sub by (intro only_agree[OF w]) blast
  show "agree (pool_block q) m m'" if "q \<in> set (blocks pls)"
    using pool_entry[OF ok that] blk by metis
qed

end
