(* ===== verification/Broadcast.thy ===== *)
theory Broadcast
  imports Server_State
begin

text \<open>
  What the server sends: \<open>session_send_all\<close> writes a message once to every client but one,
  pool by pool, and changes nothing else; \<open>check_line_and_send\<close> sends the first complete line
  of a client with its name and the time, and removes it from the buffer.
\<close>

section \<open>Sending to all\<close>

definition sent_bytes :: "mem \<Rightarrow> str \<Rightarrow> u8 list" where
  "sent_bytes m msg = ld_bytes m (str_base msg) (unat (str_len msg))"

text \<open>The calls of a broadcast, the latest one first, as in the trace.\<close>

definition broadcast :: "mem \<Rightarrow> str \<Rightarrow> u64 list \<Rightarrow> sys_call list" where
  "broadcast m msg ds = rev (map (\<lambda>d. write_call (cl_fd m d) (str_base msg) (sent_bytes m msg)) ds)"

lemma broadcast_append: "broadcast m msg (xs @ ys) = broadcast m msg ys @ broadcast m msg xs"
  by (simp add: broadcast_def)

lemma send_list_spec:
  assumes "kernel_ok (kern P)"
  shows "chain (cl_next (wmem w)) p us \<Longrightarrow> length us < k \<Longrightarrow>
    send_list k P msg exc p w =
      Inr (w\<lparr>trace := broadcast (wmem w) msg (filter (\<lambda>d. d \<noteq> exc) us) @ trace w\<rparr>)"
proof (induction us arbitrary: p k w)
  case Nil
  then obtain j where "k = Suc j" by (cases k) auto
  with Nil show ?case by (simp add: broadcast_def)
next
  case (Cons u us)
  then obtain j where k: "k = Suc j" "length us < j" by (cases k) auto
  have u: "p = u" "u \<noteq> 0" "chain (cl_next (wmem w)) (cl_next (wmem w) u) us" using Cons.prems(1) by auto
  let ?w = "if exc \<noteq> u then w\<lparr>trace := broadcast (wmem w) msg [u] @ trace w\<rparr> else w"
  have w: "wmem ?w = wmem w" by simp
  have "send_list k P msg exc p w = send_list j P msg exc (cl_next (wmem w) u) ?w"
    using u(1,2) k(1) sys_write_world[OF assms, of w "cl_fd (wmem w) u" "str_base msg" "str_len msg"]
    by (simp add: broadcast_def sent_bytes_def Let_def)
  also have "\<dots> = Inr (?w\<lparr>trace := broadcast (wmem w) msg (filter (\<lambda>d. d \<noteq> exc) us) @ trace ?w\<rparr>)"
    using Cons.IH[of ?w "cl_next (wmem w) u" j] u(3) k(2) unfolding w by simp
  finally show ?case by (simp add: broadcast_def)
qed

lemma pool_at_block:
  assumes "server_ok P m s pls" and "i < length pls"
  shows "pool_at s i = Inr (fst (pls ! i))"
proof -
  have t: "take (length pls) (first_clp s) = map fst pls" and l: "length (first_clp s) = max_pools"
    "length pls \<le> max_pools"
    using assms(1) by (simp_all add: server_ok_def blocks_def)
  have "first_clp s ! i = take (length pls) (first_clp s) ! i" using assms(2) by simp
  then show ?thesis using t l assms(2) by (simp add: pool_at_def)
qed

lemma pool_length:
  assumes "server_ok P m s pls" and "(q, fs, us) \<in> set pls"
  shows "length us \<le> 1023" "length us + length fs = 1023"
  using clp_counts[OF server_okD(1,3)[OF assms]] by simp_all

lemma send_pools_spec:
  assumes plat: "platform_ok P" and ok: "server_ok P (wmem w) s pls"
  shows "i + k = length pls \<Longrightarrow>
    send_pools k P msg exc s i w = Inr (w\<lparr>trace :=
      broadcast (wmem w) msg (filter (\<lambda>d. d \<noteq> exc) (clients (drop i pls))) @ trace w\<rparr>)"
  using ok
proof (induction k arbitrary: i w)
  case 0
  then show ?case by (simp add: clients_def broadcast_def)
next
  case (Suc k)
  obtain q fs us where e: "pls ! i = (q, fs, us)" by (cases "pls ! i") auto
  have i: "i < length pls" using Suc.prems(1) by simp
  then have mem: "(q, fs, us) \<in> set pls" using e nth_mem by metis
  have d: "clients (drop i pls) = us @ clients (drop (Suc i) pls)"
    using i by (simp add: clients_def Cons_nth_drop_Suc[symmetric] e)
  have ch: "chain (cl_next (wmem w)) (clp_client (wmem w) q) us"
    using server_okD(3)[OF Suc.prems(2) mem] by (simp add: clp_ok_def)
  have fuel: "length us < fuel P" "kernel_ok (kern P)"
    using pool_length(1)[OF Suc.prems(2) mem] plat by (simp_all add: platform_ok_def)
  let ?w = "w\<lparr>trace := broadcast (wmem w) msg (filter (\<lambda>d. d \<noteq> exc) us) @ trace w\<rparr>"
  have at: "pool_at s i = Inr q" using pool_at_block[OF Suc.prems(2) i] e by simp
  have "send_pools (Suc k) P msg exc s i w = send_pools k P msg exc s (Suc i) ?w"
    using send_list_spec[OF fuel(2) ch fuel(1)] at by simp
  also have "\<dots> = Inr (?w\<lparr>trace :=
      broadcast (wmem ?w) msg (filter (\<lambda>d. d \<noteq> exc) (clients (drop (Suc i) pls))) @ trace ?w\<rparr>)"
    using Suc.prems by (intro Suc.IH) simp_all
  finally show ?case by (simp add: d broadcast_append)
qed

lemma send_all_spec:
  assumes "platform_ok P" and "server_ok P (wmem w) s pls"
  shows "session_send_all P msg exc s w = Inr (w\<lparr>trace :=
    broadcast (wmem w) msg (filter (\<lambda>d. d \<noteq> exc) (clients pls)) @ trace w\<rparr>)"
  using send_pools_spec[OF assms, of 0 "length pls"] assms(2)
  by (simp add: session_send_all_def server_ok_def)

section \<open>Formats and literals\<close>

lemma format_args:
  "args_needed (bytes_of clock_error_format) = Some 1" "args_needed (bytes_of munmap_error_format) = Some 1"
  "args_needed (bytes_of read_error_format) = Some 1" "args_needed (bytes_of clp_alloc_format) = Some 0"
  "args_needed (bytes_of pool_alloc_format) = Some 0" "args_needed (bytes_of accept_error_format) = Some 1"
  "args_needed (bytes_of handle_ctl_error_format) = Some 1" "args_needed (bytes_of wait_error_format) = Some 1"
  "args_needed (bytes_of create_error_format) = Some 1" "args_needed (bytes_of go_ctl_error_format) = Some 1"
  "args_needed (bytes_of socket_error_format) = Some 1" "args_needed (bytes_of sockopt_error_format) = Some 1"
  "args_needed (bytes_of bind_error_format) = Some 1" "args_needed (bytes_of listen_error_format) = Some 1"
  "args_needed (bytes_of arena_create_format) = Some 1"
  by code_simp+

lemma local_scratch: "(v, n) \<in> set locals \<Longrightarrow> span (stk P v) n \<subseteq> scratch P"
  by (auto simp: scratch_def)

lemma local_room: "layout_ok P \<Longrightarrow> (v, n) \<in> set locals \<Longrightarrow> unat (stk P v) + n \<le> 2 ^ 47"
  unfolding layout_ok_def by (auto simp del: One_nat_def)

lemma locals_in:
  "(''fmt_fprintf.buf'', 2048) \<in> set locals" "(''check_line_and_send.msg'', 561) \<in> set locals"
  "(''check_line_and_send.tp'', 16) \<in> set locals" "(''session_close.msg'', 532) \<in> set locals"
  "(''session_name_read.msg'', 71) \<in> set locals" "(''server_handle.ev'', 12) \<in> set locals"
  "(''server_go.ev'', 12) \<in> set locals" "(''server_init.addr'', 16) \<in> set locals"
  "(''server_init.enable'', 4) \<in> set locals"
  by (simp_all add: locals_def)

lemma fmt_buf_scratch: "span (stk P ''fmt_fprintf.buf'') max_buf \<subseteq> scratch P"
  using local_scratch[OF locals_in(1)] by (simp add: max_buf_def)

lemma literal_span:
  "s \<in> set literals_used \<Longrightarrow> n \<le> Suc (length s) \<Longrightarrow> span (lit P s) n \<subseteq> rodata P"
  using span_mono[of n "Suc (length s)" "lit P s"] by (auto simp: rodata_def)

lemma literal_fmt:
  assumes "literals_ok P m" and "layout_ok P" and "f \<in> set literals_used"
    and "args_needed (bytes_of f) = Some n"
  shows "fmt_ok P m f n"
proof -
  have "span (lit P f) (Suc (length f)) \<inter> span (stk P ''fmt_fprintf.buf'') max_buf = {}"
    using literal_span[OF assms(3) order_refl, of P] fmt_buf_scratch[of P] layout_ro[OF assms(2)] by blast
  then show ?thesis using assms by (simp add: fmt_ok_def literals_ok_def)
qed

lemma literal_bytes:
  assumes "literals_ok P m" and "layout_ok P" and "s \<in> set literals_used"
  shows "ld_bytes m (lit P s) (length s) = bytes_of s" and "unat (lit P s) + length s \<le> 2 ^ 64"
proof -
  show "ld_bytes m (lit P s) (length s) = bytes_of s"
    using assms by (simp add: literals_ok_def cstr_at_def)
  show "unat (lit P s) + length s \<le> 2 ^ 64"
    using assms unfolding layout_ok_def by force
qed

text \<open>An error report of the server changes its own buffer only.\<close>

lemma server_report:
  assumes plat: "platform_ok P" and lits: "literals_ok P (wmem w)" and f: "f \<in> set literals_used"
    "args_needed (bytes_of f) = Some n" "n \<le> length args"
  obtains j w' where "fmt_fprintf P w stderr (lit P f) args = Inr (j, w')" "reported P stderr w w'"
    "only (scratch P) (wmem w) (wmem w')"
proof -
  have k: "kernel_ok (kern P)" and "layout_ok P" using plat by (simp_all add: platform_ok_def)
  from literal_fmt[OF lits this(2) f(1,2)] have "fmt_ok P (wmem w) f n" .
  then obtain j w' where r: "fmt_fprintf P w stderr (lit P f) args = Inr (j, w')" "reported P stderr w w'"
    by (rule fmt_report[OF k, where args = args]) (use f(3) in auto)
  then have "only (scratch P) (wmem w) (wmem w')"
    using only_mono[OF _ fmt_buf_scratch] by (auto simp: reported_def)
  with r show ?thesis by (rule that)
qed

section \<open>Names and lines\<close>

definition name_of :: "mem \<Rightarrow> u64 \<Rightarrow> u8 list" where
  "name_of m c = takeWhile (\<lambda>x. x \<noteq> 0) (ld_bytes m (cl_name c) max_name_len)"

definition pending :: "mem \<Rightarrow> u64 \<Rightarrow> u8 list" where
  "pending m c = ld_bytes m (cl_buf c) (nat (sint (cl_buf_used m c)))"

definition first_line :: "u8 list \<Rightarrow> u8 list" where
  "first_line bs = takeWhile (\<lambda>x. x \<noteq> 10) bs @ [10]"

lemma find_newline_spec:
  "find_newline k m c i =
    (let bs = ld_bytes m (cl_buf c + of_nat i) k
     in if 10 \<in> set bs then Some (i + length (takeWhile (\<lambda>x. x \<noteq> 10) bs)) else None)"
proof (induction k arbitrary: i)
  case (Suc k)
  have "cl_buf c + of_nat (Suc i) = cl_buf c + of_nat i + 1" by simp
  with Suc.IH[of "Suc i"] show ?case by (simp add: ld_bytes_Suc Let_def del: of_nat_Suc)
qed simp

lemma first_line_take:
  assumes "10 \<in> set bs"
  shows "first_line bs = take (length (takeWhile (\<lambda>x. x \<noteq> 10) bs) + 1) bs"
    and "length (takeWhile (\<lambda>x. x \<noteq> 10) bs) < length bs"
proof -
  let ?k = "length (takeWhile (\<lambda>x. x \<noteq> 10) bs)"
  show l: "?k < length bs" using assms by (intro takeWhile_stops) auto
  have "take ?k bs = takeWhile (\<lambda>x. x \<noteq> 10) bs" by (rule takeWhile_eq_take[symmetric])
  moreover have "bs ! ?k = 10" using nth_length_takeWhile[OF l] by simp
  ultimately show "first_line bs = take (?k + 1) bs"
    using l by (simp add: first_line_def take_Suc_conv_app_nth)
qed

lemma name_cstr:
  assumes "stale_ok m c" and "cl_name_ok m c = 1" and "c \<noteq> 0" "unat c + 568 \<le> 2 ^ 47"
  shows "cstr_at m (cl_name c) (name_of m c)" and "length (name_of m c) < max_name_len"
proof -
  let ?bs = "ld_bytes m (cl_name c) max_name_len" and ?P = "\<lambda>x :: u8. x \<noteq> 0"
  obtain n where n: "n < max_name_len" "m (cl_name c + of_nat n) = 0"
    using assms(1,2) by (auto simp: stale_ok_def)
  then have "?bs ! n = 0" "n < length ?bs" by simp_all
  then have "\<exists>x \<in> set ?bs. \<not> ?P x" by (metis nth_mem)
  then have l: "length (takeWhile ?P ?bs) < max_name_len"
    using takeWhile_stops[of ?bs ?P] by simp
  then show "length (name_of m c) < max_name_len" by (simp add: name_of_def)
  have "ld_bytes m (cl_name c) (length (takeWhile ?P ?bs)) = take (length (takeWhile ?P ?bs)) ?bs"
    using l by simp
  then have "ld_bytes m (cl_name c) (length (name_of m c)) = name_of m c"
    by (simp add: name_of_def takeWhile_eq_take[symmetric] del: take_ld_bytes)
  moreover have "m (cl_name c + of_nat (length (name_of m c))) = 0"
    using nth_length_takeWhile[of ?P ?bs] l by (simp add: name_of_def)
  moreover have "0 \<notin> set (name_of m c)" by (auto simp: name_of_def dest: set_takeWhileD)
  moreover have "unat (cl_name c) = unat c + 520"
    using assms(4) unfolding cl_name_def by (subst unat_plus_less) simp_all
  then have "cl_name c \<noteq> 0" by auto
  ultimately show "cstr_at m (cl_name c) (name_of m c)"
    using l by (simp add: cstr_at_def name_of_def max_name_len_def)
qed

section \<open>The message of a line\<close>

interpretation tms: slice_writer write_tm2 "\<lambda>t m. short_time_text t"
  "\<lambda>t m s. clock_ranges t \<and> length (short_time_text t) \<le> unat (sl_cap s)"
  by unfold_locales (simp add: write_tm2_def tm_in_slice2_built)

lemma append_tm:
  assumes "clock_ranges t" and "length bs + length (short_time_text t) \<le> cap" and "cap < 2 ^ 47"
  shows "append_write write_tm2 (unsafe_slice base (of_nat cap)) t (built m base bs) =
    built m base (bs @ short_time_text t)"
proof -
  let ?s = "unsafe_slice base (of_nat cap)"
  have cap: "unat (of_nat cap :: u64) = cap" using assms(3) by (simp add: unat_of_nat_less)
  have "unat (of_nat cap - of_nat (length bs) :: u64) = cap - length bs"
    using unat_left_cap[of "length bs" "of_nat cap"] assms(2) cap by simp
  then have "append_write write_tm2 ?s t (built m (sl_base ?s) bs) = built m (sl_base ?s) (bs @ short_time_text t)"
    using assms by (intro tms.append_built) (simp_all add: slice_left_def)
  then show ?thesis by simp
qed

text \<open>
  Between the name and the line stands the time, as the kernel gives it, or only a colon when the
  kernel gives none.
\<close>

definition now_call :: "platform \<Rightarrow> sys_call" where
  "now_call P = clock_call clock_realtime (stk P ''check_line_and_send.tp'')"

definition clock_stamp :: "platform \<Rightarrow> sys_call list \<Rightarrow> nat option" where
  "clock_stamp P h =
    (let r = kern P (now_call P # h) in if succeeded r then Some (le_val (take 8 (out_bytes r))) else None)"

definition stamp_text :: "nat option \<Rightarrow> u8 list" where
  "stamp_text s = (case s of None \<Rightarrow> bytes_of '': ''
     | Some t \<Rightarrow> bytes_of '' ('' @ short_time_text (tm_of_time (int t)) @ bytes_of ''): '')"

lemma short_time_bounds:
  assumes "t < 2 ^ 55"
  shows "clock_ranges (tm_of_time (int t))" and "length (short_time_text (tm_of_time (int t))) \<le> 12"
proof -
  have "int t < 2 ^ 55" using assms by simp
  then have "valid_tm (tm_of_time (int t))" using tm_of_time_correct[of "int t"] by simp
  then show r: "clock_ranges (tm_of_time (int t))" by (rule valid_tm_clock)
  have h: "0 \<le> tm_hour (tm_of_time (int t))" "tm_hour (tm_of_time (int t)) < 100"
    using r by (simp_all add: clock_ranges_def)
  from length_dec_hour[OF h] show "length (short_time_text (tm_of_time (int t))) \<le> 12"
    by (simp add: short_time_text_def)
qed

lemma clock_converts: "t < 2 ^ 55 \<Longrightarrow> time_to_tm (int t) = Inr (tm_of_time (int t))"
  by (rule time_to_tm_returns) simp

lemma length_stamp_text: "s = None \<or> (\<exists>t. s = Some t \<and> t < 2 ^ 55) \<Longrightarrow> length (stamp_text s) \<le> 17"
  using short_time_bounds(2) by (auto simp: stamp_text_def)

text \<open>What a source of a message needs: it does not wrap and is outside the locals.\<close>

definition source :: "platform \<Rightarrow> u64 \<Rightarrow> nat \<Rightarrow> bool" where
  "source P p n \<longleftrightarrow> unat p + n \<le> 2 ^ 64 \<and> span p n \<inter> scratch P = {}"

lemma source_literal:
  assumes "layout_ok P" and "s \<in> set literals_used"
  shows "source P (lit P s) (length s)"
proof -
  have "span (lit P s) (length s) \<subseteq> rodata P" by (rule literal_span[OF assms(2)]) simp
  moreover have "unat (lit P s) + length s < 2 ^ 47" using assms unfolding layout_ok_def by blast
  ultimately show ?thesis using layout_ro[OF assms(1)] by (auto simp: source_def)
qed

lemma source_client:
  assumes ok: "server_ok P m s pls" and c: "is_slot pls c" and k: "unat k + n \<le> 568"
  shows "source P (c + k) n"
proof -
  obtain q where q: "c \<in> set (slots q)" "block_ok q" using slot_block[OF ok c] .
  have "unat c + 568 \<le> 2 ^ 47" by (rule slot_bounds(3)[OF q(2,1)])
  then have "unat (c + k) + n \<le> 2 ^ 64" using k by (subst unat_plus_less) simp_all
  moreover have "span (c + k) n \<subseteq> client_span c" by (rule client_part[OF k])
  moreover have "client_span c \<inter> statics P = {}" by (rule scratch_outside(1)[OF ok c])
  ultimately show ?thesis by (auto simp: source_def statics_def)
qed

text \<open>Appending from a source to a message that stands at the start of a local array.\<close>

lemma append_source:
  assumes "layout_ok P" and v: "(v, cap) \<in> set locals" and "source P p n" and "length bs + n \<le> cap"
    and only: "only (scratch P) m0 m"
  shows "append_write write_nstring (unsafe_slice (stk P v) (of_nat cap)) (p, of_nat n)
      (built m (stk P v) bs) = built m (stk P v) (bs @ ld_bytes m0 p n)"
proof (rule append_nstring)
  show "unat (stk P v) + cap \<le> 2 ^ 47" by (rule local_room[OF assms(1) v])
  show "span p n \<inter> span (stk P v) cap = {}" using assms(3) local_scratch[OF v, of P] by (auto simp: source_def)
  have "n \<le> 2 ^ 64" using assms(3) by (simp add: source_def)
  then show "ld_bytes m p n = ld_bytes m0 p n"
    using assms(3) by (intro only_ld_bytes[OF only]) (simp_all add: source_def)
qed (use assms(3,4) in \<open>simp_all add: source_def\<close>)

lemma built_only:
  "(v, cap) \<in> set locals \<Longrightarrow> length bs \<le> cap \<Longrightarrow> only (scratch P) m0 m \<Longrightarrow>
   only (scratch P) m0 (snd (built m (stk P v) bs))"
  using local_scratch[of v cap P] span_mono[of "length bs" cap "stk P v"]
  by (simp add: built_def only_st_bytes_in)

text \<open>The calls that the time costs: the question, and a report when there is no answer.\<close>

definition stamp_calls :: "platform \<Rightarrow> nat option \<Rightarrow> sys_call list \<Rightarrow> bool" where
  "stamp_calls P s cs \<longleftrightarrow> (case s of Some t \<Rightarrow> cs = [now_call P]
     | None \<Rightarrow> \<exists>bs. length bs \<le> max_buf \<and>
         cs = [write_call stderr (stk P ''fmt_fprintf.buf'') bs, now_call P])"

definition line_text :: "platform \<Rightarrow> u64 \<Rightarrow> nat \<Rightarrow> world \<Rightarrow> u8 list" where
  "line_text P c pos w = name_of (wmem w) c @ stamp_text (clock_stamp P (trace w)) @
     ld_bytes (wmem w) (cl_buf c) (pos + 1)"

abbreviation msg_slice :: "platform \<Rightarrow> slice" where
  "msg_slice P \<equiv> unsafe_slice (stk P ''check_line_and_send.msg'') (of_nat 561)"

lemma msg_apart:
  assumes "layout_ok P" and "n \<le> 561"
  shows "span (stk P ''check_line_and_send.msg'') n \<inter> span (stk P ''fmt_fprintf.buf'') max_buf = {}"
    and "span (stk P ''check_line_and_send.msg'') n \<inter> span (stk P ''check_line_and_send.tp'') 16 = {}"
  using assms span_mono[of n 561 "stk P ''check_line_and_send.msg''"] unfolding layout_ok_def by blast+

lemma literals_in:
  "'': '' \<in> set literals_used" "'' ('' \<in> set literals_used" "''): '' \<in> set literals_used"
  "newline \<in> set literals_used" "welcome_msg \<in> set literals_used" "entered_msg \<in> set literals_used"
  "left_msg \<in> set literals_used" "clock_error_format \<in> set literals_used"
  "munmap_error_format \<in> set literals_used" "read_error_format \<in> set literals_used"
  "accept_error_format \<in> set literals_used" "handle_ctl_error_format \<in> set literals_used"
  "wait_error_format \<in> set literals_used" "arena_create_format \<in> set literals_used"
  "too_long_msg \<in> set literals_used" "too_long_name \<in> set literals_used"
  by (simp_all add: literals_used_def)

lemma literal_after:
  assumes "literals_ok P m" and "layout_ok P" and "s \<in> set literals_used"
  shows "ld_bytes m (lit P s) (length s) = bytes_of s" "source P (lit P s) (length s)"
  using literal_bytes(1)[OF assms] source_literal[OF assms(2,3)] by simp_all

lemma line_message_spec:
  assumes plat: "platform_ok P" and ok: "server_ok P (wmem w) s pls" and c: "is_slot pls c"
    and st: "stale_ok (wmem w) c" "cl_name_ok (wmem w) c = 1" and pos: "pos < max_line_len"
  shows "\<exists>w' cs. line_message P (msg_slice P) c pos w = Inr (of_nat (length (line_text P c pos w)), w') \<and>
    ld_bytes (wmem w') (stk P ''check_line_and_send.msg'') (length (line_text P c pos w)) = line_text P c pos w \<and>
    length (line_text P c pos w) \<le> 561 \<and> only (scratch P) (wmem w) (wmem w') \<and>
    trace w' = cs @ trace w \<and> stamp_calls P (clock_stamp P (trace w)) cs"
proof -
  let ?b = "stk P ''check_line_and_send.msg''" and ?tp = "stk P ''check_line_and_send.tp''"
  let ?m0 = "wmem w" and ?name = "name_of (wmem w) c" and ?text = "line_text P c pos w"
  have lay: "layout_ok P" and kern: "kernel_ok (kern P)" using plat by (simp_all add: platform_ok_def)
  have lits: "literals_ok P ?m0" using ok by (simp add: server_ok_def)
  have room: "unat ?b + 561 \<le> 2 ^ 47" by (rule local_room[OF lay locals_in(2)])
  obtain q where q: "c \<in> set (slots q)" "block_ok q" using slot_block[OF ok c] .
  note nm = name_cstr[OF st slot_nonnull[OF q(2,1)] slot_bounds(3)[OF q(2,1)]]
  have nlen: "length ?name \<le> 31" using nm(2) by (simp add: max_name_len_def)
  have "source P (c + 520) 32" by (rule source_client[OF ok c]) simp
  then have src: "unat (cl_name c) + 32 \<le> 2 ^ 64" by (simp add: source_def cl_name_def)
  have first: "c_string_in_slice ?m0 (msg_slice P) (cl_name c) = Inr (built ?m0 ?b ?name)"
    using nlen room src by (intro first_c_string[OF nm(1)]) simp_all
  define m1 where "m1 = st_bytes ?m0 ?b ?name"
  have m1: "built ?m0 ?b ?name = (of_nat (length ?name), m1)" by (simp add: m1_def built_def)
  have o1: "only (scratch P) ?m0 m1"
    using built_only[OF locals_in(2), of ?name P ?m0 ?m0] nlen by (simp add: m1)
  have ld1: "ld_bytes m1 ?b (length ?name) = ?name"
    unfolding m1_def using nlen by (intro ld_bytes_st_bytes_same) simp
  have buf: "source P (cl_buf c) (pos + 1)"
    unfolding cl_buf_def using pos by (intro source_client[OF ok c]) (simp add: max_line_len_def)
  have ro: "rodata P \<inter> scratch P = {}" by (rule layout_ro[OF lay])
  note app = append_source[OF lay locals_in(2)]
  note litb = literal_after[OF lits lay]
  have fin: ?thesis
    if "line_message P (msg_slice P) c pos w = Inr (fst (built m2 ?b ?text), w2\<lparr>wmem := snd (built m2 ?b ?text)\<rparr>)"
      "length ?text \<le> 561" "only (scratch P) ?m0 m2" "trace w2 = cs @ trace w"
      "stamp_calls P (clock_stamp P (trace w)) cs" for m2 w2 cs
    using that built_mem[of ?text m2 ?b] built_only[OF locals_in(2) that(2,3)]
    by (intro exI[of _ "w2\<lparr>wmem := snd (built m2 ?b ?text)\<rparr>"] exI[of _ cs]) (simp add: built_def)
  show ?thesis
  proof (cases rule: sys_clock_gettime_cases[OF kern, of "w\<lparr>wmem := m1\<rparr>" clock_realtime ?tp])
    case (1 e)
    let ?w1 = "w\<lparr>wmem := m1, trace := now_call P # trace w\<rparr>"
    have stamp: "clock_stamp P (trace w) = None" using 1(2) by (simp add: clock_stamp_def now_call_def)
    have "literals_ok P (wmem ?w1)" using literals_ok_frame[OF lits o1 ro] by simp
    then obtain j w2 where r: "fmt_fprintf P ?w1 stderr (lit P clock_error_format) [lit P (err_msg e)] = Inr (j, w2)"
      "reported P stderr ?w1 w2" "only (scratch P) (wmem ?w1) (wmem w2)"
      by (rule server_report[OF plat _ literals_in(8) format_args(1), where args = "[lit P (err_msg e)]"]) auto
    have o2: "only (scratch P) ?m0 (wmem w2)" using o1 r(3) by (auto intro: only_trans)
    obtain bs where bs: "length bs \<le> max_buf"
      "trace w2 = write_call stderr (stk P ''fmt_fprintf.buf'') bs # now_call P # trace w"
      "only (span (stk P ''fmt_fprintf.buf'') max_buf) m1 (wmem w2)"
      using r(2) by (auto simp: reported_def)
    have "ld_bytes (wmem w2) ?b (length ?name) = ?name"
      using only_ld_bytes[OF bs(3) msg_apart(1)[OF lay]] nlen ld1 by simp
    from built_from[OF this] have b2: "(of_nat (length ?name), wmem w2) = built (wmem w2) ?b ?name" .
    have tx: "?text = (?name @ bytes_of '': '') @ ld_bytes ?m0 (cl_buf c) (pos + 1)"
      by (simp add: line_text_def stamp_text_def stamp)
    have len: "length ?text \<le> 561" using nlen pos by (simp add: tx max_line_len_def)
    have a1: "append_write write_nstring (msg_slice P) (lit P '': '', 2) (built (wmem w2) ?b ?name) =
        built (wmem w2) ?b (?name @ bytes_of '': '')"
      using app[OF litb(2)[OF literals_in(1)] _ o2, of ?name] litb(1)[OF literals_in(1)] nlen by simp
    have a2: "append_write write_nstring (msg_slice P) (cl_buf c, of_nat (pos + 1))
        (built (wmem w2) ?b (?name @ bytes_of '': '')) = built (wmem w2) ?b ?text"
      unfolding tx using nlen pos by (intro app[OF buf _ o2]) (simp add: max_line_len_def)
    show ?thesis
    proof (rule fin[OF _ len o2])
      show "line_message P (msg_slice P) c pos w =
          Inr (fst (built (wmem w2) ?b ?text), w2\<lparr>wmem := snd (built (wmem w2) ?b ?text)\<rparr>)"
        using 1(1) r(1) by (simp add: line_message_def first m1 now_call_def Let_def b2 a1 a2 split_def
            del: of_nat_numeral of_nat_add of_nat_Suc One_nat_def bytes_of_simps append_assoc)
      show "trace w2 = [write_call stderr (stk P ''fmt_fprintf.buf'') bs, now_call P] @ trace w"
        using bs(2) by simp
      show "stamp_calls P (clock_stamp P (trace w)) [write_call stderr (stk P ''fmt_fprintf.buf'') bs, now_call P]"
        using bs(1) by (auto simp: stamp_calls_def stamp)
    qed
  next
    case (2 bs)
    define m2 where "m2 = st_bytes m1 ?tp bs"
    let ?w2 = "w\<lparr>wmem := m2, trace := now_call P # trace w\<rparr>"
    let ?t = "le_val (take 8 bs)"
    have stamp: "clock_stamp P (trace w) = Some ?t"
      using 2(2,3) by (simp add: clock_stamp_def now_call_def Let_def)
    have otp: "only (span ?tp 16) m1 m2" using only_st_bytes[of ?tp bs m1] 2(4) by (simp add: m2_def)
    have o2: "only (scratch P) ?m0 m2"
      using only_trans[OF o1 only_mono[OF otp local_scratch[OF locals_in(3)]]] .
    have "ld_bytes m2 ?b (length ?name) = ?name"
      using only_ld_bytes[OF otp msg_apart(2)[OF lay]] nlen ld1 by simp
    from built_from[OF this] have b2: "(of_nat (length ?name), m2) = built m2 ?b ?name" .
    have "ld_bytes m2 ?tp 16 = bs" using ld_bytes_st_bytes_same[of bs m1 ?tp] 2(4) by (simp add: m2_def)
    then have "take 8 bs = ld_bytes m2 ?tp 8" using take_ld_bytes[of 8 "m2" ?tp 16] by simp
    then have "ld64 m2 ?tp = of_nat ?t" by (simp add: ld64_def)
    then have sec: "sint (ld64 m2 ?tp) = int ?t"
      using 2(5) by (simp add: signed_of_nat signed_take_bit_int_eq_self)
    let ?tm = "tm_of_time (int ?t)"
    note sh = short_time_bounds[OF 2(5)]
    have tx: "?text = (((?name @ bytes_of '' ('') @ short_time_text ?tm) @ bytes_of ''): '') @
        ld_bytes ?m0 (cl_buf c) (pos + 1)"
      by (simp add: line_text_def stamp_text_def stamp)
    have len: "length ?text \<le> 561" using nlen pos sh(2) by (simp add: tx max_line_len_def)
    have a1: "append_write write_nstring (msg_slice P) (lit P '' ('', 2) (built m2 ?b ?name) =
        built m2 ?b (?name @ bytes_of '' ('')"
      using app[OF litb(2)[OF literals_in(2)] _ o2, of ?name] litb(1)[OF literals_in(2)] nlen by simp
    have a2: "append_write write_tm2 (msg_slice P) ?tm (built m2 ?b (?name @ bytes_of '' ('')) =
        built m2 ?b ((?name @ bytes_of '' ('') @ short_time_text ?tm)"
      using nlen sh(2) by (intro append_tm[OF sh(1)]) simp_all
    have a3: "append_write write_nstring (msg_slice P) (lit P ''): '', 3)
        (built m2 ?b ((?name @ bytes_of '' ('') @ short_time_text ?tm)) =
        built m2 ?b (((?name @ bytes_of '' ('') @ short_time_text ?tm) @ bytes_of ''): '')"
      using app[OF litb(2)[OF literals_in(3)] _ o2, of "(?name @ bytes_of '' ('') @ short_time_text ?tm"]
        litb(1)[OF literals_in(3)] nlen sh(2) by simp
    have a4: "append_write write_nstring (msg_slice P) (cl_buf c, of_nat (pos + 1))
        (built m2 ?b (((?name @ bytes_of '' ('') @ short_time_text ?tm) @ bytes_of ''): '')) =
        built m2 ?b ?text"
      unfolding tx using nlen pos sh(2) by (intro app[OF buf _ o2]) (simp add: max_line_len_def)
    show ?thesis
    proof (rule fin[OF _ len o2])
      show "line_message P (msg_slice P) c pos w =
          Inr (fst (built m2 ?b ?text), ?w2\<lparr>wmem := snd (built m2 ?b ?text)\<rparr>)"
        using 2(1) sec clock_converts[OF 2(5)]
        by (simp add: line_message_def tv_sec_def first m1 m2_def[symmetric] now_call_def Let_def split_def b2 a1 a2 a3 a4
            del: of_nat_numeral of_nat_add of_nat_Suc One_nat_def bytes_of_simps append_assoc)
      show "trace ?w2 = [now_call P] @ trace w" by simp
      show "stamp_calls P (clock_stamp P (trace w)) [now_call P]" by (simp add: stamp_calls_def stamp)
    qed
  qed
qed

section \<open>A complete line\<close>

definition to_others :: "platform \<Rightarrow> mem \<Rightarrow> u64 \<Rightarrow> u8 list \<Rightarrow> u64 \<Rightarrow> pools \<Rightarrow> sys_call list" where
  "to_others P m buf bs c pls = rev (map (\<lambda>d. write_call (cl_fd m d) buf bs) (filter (\<lambda>d. d \<noteq> c) (clients pls)))"

lemma write_client_buf:
  assumes "unat k + n \<le> 512"
  shows "span (cl_buf c + k) n \<subseteq> span (c + 4) 516" "span (c + 4) 4 \<subseteq> span (c + 4) 516"
    "span (c + 4) 516 \<subseteq> span (c + 4) 556" "span (c + 520) 48 \<inter> span (c + 4) 516 = {}"
proof -
  have "unat (4 + k) = 4 + unat k" using assms by (subst unat_plus_less) simp_all
  moreover have "c + 4 + (4 + k) = cl_buf c + k" by (simp add: cl_buf_def)
  ultimately show "span (cl_buf c + k) n \<subseteq> span (c + 4) 516"
    using span_sub[of "4 + k" n 516 "c + 4"] assms by (simp only:) simp
  show "span (c + 4) 4 \<subseteq> span (c + 4) 516" "span (c + 4) 516 \<subseteq> span (c + 4) 556"
    by (rule span_mono, simp)+
  show "span (c + 520) 48 \<inter> span (c + 4) 516 = {}" by (rule disj_spans) (simp add: disj_def)
qed

lemma all_live_write:
  assumes ok: "server_ok P m s pls" and "all_live m pls" and "live_ok m' c"
    and "\<And>d. is_slot pls d \<Longrightarrow> d \<noteq> c \<Longrightarrow> agree (client_span d) m m'"
  shows "all_live m' pls"
  unfolding all_live_def
proof
  fix d assume d: "d \<in> set (clients pls)"
  show "live_ok m' d"
  proof (cases "d = c")
    case False
    from client_agree(7)[OF assms(4)[OF clients_slots[OF ok d] False]] assms(2) d show ?thesis
      by (simp add: all_live_def)
  qed (use assms(3) in simp)
qed

lemma check_line_None:
  "10 \<notin> set (pending (wmem w) c) \<Longrightarrow> check_line_and_send P c s w = Inr w"
  by (simp add: check_line_and_send_def find_newline_spec pending_def Let_def)

text \<open>
  The first complete line of a client goes once to every other client, with the name and the
  time, and leaves the buffer of the client; the rest of the buffer stays.
\<close>

lemma check_line_Some:
  assumes plat: "platform_ok P" and ok: "server_ok P (wmem w) s pls" and live: "all_live (wmem w) pls"
    and c: "c \<in> set (clients pls)" and named: "cl_name_ok (wmem w) c = 1"
    and nl: "10 \<in> set (pending (wmem w) c)"
  defines "bs \<equiv> pending (wmem w) c"
  defines "tx \<equiv> name_of (wmem w) c @ stamp_text (clock_stamp P (trace w)) @ first_line bs"
  shows "\<exists>w' cs. check_line_and_send P c s w = Inr w' \<and> stamp_calls P (clock_stamp P (trace w)) cs \<and>
    trace w' = to_others P (wmem w) (stk P ''check_line_and_send.msg'') tx c pls @ cs @ trace w \<and>
    pending (wmem w') c = drop (length (first_line bs)) bs \<and> length tx \<le> 561 \<and>
    cl_name_ok (wmem w') c = 1 \<and> server_ok P (wmem w') s pls \<and> all_live (wmem w') pls \<and>
    only (span (c + 4) 556 \<union> scratch P) (wmem w) (wmem w') \<and> agree (span (c + 520) 48) (wmem w) (wmem w')"
proof -
  let ?m = "wmem w" and ?b = "stk P ''check_line_and_send.msg''"
  have lay: "layout_ok P" and kern: "kernel_ok (kern P)" using plat by (simp_all add: platform_ok_def)
  have sc: "is_slot pls c" by (rule clients_slots[OF ok c])
  obtain q fs us where e: "(q, fs, us) \<in> set pls" "c \<in> set us" "c \<in> set (slots q)"
    using client_pool[OF ok c] by metis
  have st: "stale_ok ?m c" using server_okD(3)[OF ok e(1)] e(3) by (simp add: clp_ok_def)
  have "live_ok ?m c" using live c by (simp add: all_live_def)
  then obtain b n where b: "cl_buf_used ?m c = of_nat b" "b \<le> 512" and n: "cl_name_used ?m c = of_nat n" "n \<le> 32"
    by (auto simp: live_ok_def max_line_len_def max_name_len_def)
  have sb: "nat (sint (cl_buf_used ?m c)) = b" using b sint_of_nat32[of b] by simp
  have bs: "bs = ld_bytes ?m (cl_buf c) b" by (simp add: bs_def pending_def sb)
  define pos where "pos = length (takeWhile (\<lambda>x. x \<noteq> 10) bs)"
  note fl = first_line_take[OF nl[folded bs_def], folded pos_def]
  have pos: "pos < b" "pos < max_line_len" using fl(2) b(2) by (simp_all add: bs max_line_len_def)
  have flen: "length (first_line bs) = pos + 1" by (simp add: first_line_def pos_def)
  have line: "ld_bytes ?m (cl_buf c) (pos + 1) = first_line bs"
  proof -
    have "take (pos + 1) bs = ld_bytes ?m (cl_buf c) (pos + 1)" using pos(1) by (simp add: bs min_def)
    then show ?thesis using fl(1) by simp
  qed
  then have tx: "line_text P c pos w = tx" by (simp add: line_text_def tx_def)
  have find: "find_newline (nat (sint (cl_buf_used ?m c))) ?m c 0 = Some pos"
    using nl[folded bs_def] by (simp add: find_newline_spec sb Let_def bs pos_def)
  obtain w1 cs where w1: "line_message P (msg_slice P) c pos w = Inr (of_nat (length tx), w1)"
    "ld_bytes (wmem w1) ?b (length tx) = tx" "length tx \<le> 561" "only (scratch P) ?m (wmem w1)"
    "trace w1 = cs @ trace w" "stamp_calls P (clock_stamp P (trace w)) cs"
    using line_message_spec[OF plat ok sc st named pos(2)] unfolding tx by blast
  note sw = scratch_write[OF ok lay w1(4)]
  have ulen: "unat (of_nat (length tx) :: u64) = length tx" using w1(3) by (intro unat_of_nat_less) simp
  let ?msg = "\<lparr>str_base = ?b, str_len = of_nat (length tx)\<rparr>"
  have right: "slice_right (msg_slice P) (of_nat (length tx)) =
      Inr \<lparr>sl_base = ?b, sl_len = of_nat (length tx), sl_cap = of_nat 561\<rparr>"
    using w1(3) ulen by (simp add: slice_right_def word_le_nat_alt)
  have fds: "cl_fd (wmem w1) d = cl_fd ?m d" if "d \<in> set (clients pls)" for d
    by (rule client_agree(1)[OF sw(2)[OF clients_slots[OF ok that]]])
  have bc: "broadcast (wmem w1) ?msg (filter (\<lambda>d. d \<noteq> c) (clients pls)) = to_others P ?m ?b tx c pls"
    using fds by (simp add: broadcast_def to_others_def sent_bytes_def ulen w1(2))
  define w2 where "w2 = w1\<lparr>trace := to_others P ?m ?b tx c pls @ cs @ trace w\<rparr>"
  have send: "session_send_all P ?msg c s w1 = Inr w2"
    using send_all_spec[OF plat sw(1), of ?msg c] by (simp add: bc w2_def w1(5))
  have m2: "wmem w2 = wmem w1" by (simp add: w2_def)
  have used: "cl_buf_used (wmem w1) c = of_nat b" using client_agree(2)[OF sw(2)[OF sc]] b(1) by simp
  define r where "r = b - (pos + 1)"
  have diff: "(of_nat b - of_nat (pos + 1) :: u32) = of_nat r" using pos(1) by (simp add: r_def of_nat_diff)
  have r: "r < 2 ^ 31" "pos + 1 + r = b" using b(2) pos(1) by (simp_all add: r_def)
  define m3 where "m3 = set_buf_used c (of_nat r) (wmem w1)"
  have u3: "cl_buf_used m3 c = of_nat r" by (simp add: m3_def set_buf_used_def cl_buf_used_def c32.ld_st_same)
  define m4 where "m4 = st_bytes m3 (cl_buf c) (ld_bytes m3 (cl_buf c + of_nat (pos + 1)) r)"
  have up: "unat (of_nat (pos + 1) :: u64) = pos + 1" by (rule unat_of_nat_less) (use pos b(2) in simp)
  have ur: "unat (of_nat r :: u64) = r" by (rule unat_of_nat_less) (use r(1) in simp)
  have "source P (cl_buf c) b" "source P (cl_buf c + of_nat (pos + 1)) r"
  proof -
    show "source P (cl_buf c) b" unfolding cl_buf_def by (rule source_client[OF ok sc]) (use b(2) in simp)
    have "unat (8 + of_nat (pos + 1) :: u64) = 8 + (pos + 1)"
      using up pos b(2) by (subst unat_plus_less) simp_all
    then show "source P (cl_buf c + of_nat (pos + 1)) r"
      using source_client[OF ok sc, of "8 + of_nat (pos + 1)" r] r(2) b(2) by (simp add: cl_buf_def add.assoc)
  qed
  then have nowrap: "unat (cl_buf c) + r \<le> 2 ^ 64" "unat (cl_buf c + of_nat (pos + 1)) + r \<le> 2 ^ 64"
    using r(2) by (simp_all add: source_def)
  have mv: "snd (memmove m3 (cl_buf c) (cl_buf c + of_nat (pos + 1)) (scast (cl_buf_used m3 c))) = m4"
    using memcpy_block_move[of "cl_buf c" "of_nat r" "cl_buf c + of_nat (pos + 1)" m3] nowrap
    by (simp add: memmove_def m4_def u3 scast_of_nat32[OF r(1)] ur del: of_nat_add of_nat_Suc)
  define w4 where "w4 = w2\<lparr>wmem := m4\<rparr>"
  have run: "check_line_and_send P c s w = Inr w4"
    using find w1(1) right send used mv
    by (simp add: check_line_and_send_def Let_def max_line_len_def max_name_len_def get_string_def on_mem_def
        m2 w4_def diff m3_def[symmetric] del: of_nat_add of_nat_Suc of_nat_numeral One_nat_def)
  note cb = write_client_buf[of 0 r c]
  have o3: "only (span (c + 4) 516) (wmem w1) m3"
    unfolding m3_def set_buf_used_def by (rule c32.only_st_in[OF only_refl]) (rule write_client_buf(2)[of 0 0], simp)
  have o4: "only (span (c + 4) 516) (wmem w1) m4"
    unfolding m4_def using cb(1) r b(2) by (intro only_st_bytes_in[OF o3]) simp
  have all: "only (span (c + 4) 556 \<union> scratch P) ?m m4"
    using only_mono[OF w1(4), of "span (c + 4) 556 \<union> scratch P"]
      only_mono[OF o4, of "span (c + 4) 556 \<union> scratch P"] write_client_buf(3)[of 0 0 c]
    by (auto intro: only_trans)
  have "agree (span (c + 520) 48) (wmem w1) m4"
    using only_agree[OF o4 write_client_buf(4)[of 0 0]] by simp
  moreover have "agree (span (c + 520) 48) ?m (wmem w1)"
    using agree_mono[OF sw(2)[OF sc] client_part[of 520 48 c]] by simp
  ultimately have tail: "agree (span (c + 520) 48) ?m m4" by (rule agree_trans[rotated])
  have st4: "stale_ok m4 c" using stale_ok_agree[OF tail] st by simp
  have "span (c + 4) 556 \<subseteq> span c 560" by (rule span_sub) simp_all
  then have all0: "only (span c 560 \<union> scratch P) ?m m4" by (intro only_mono[OF all]) auto
  note cw = client_write[OF ok lay c all0 st4]
  have "disj (c + 4) 4 (cl_buf c) r" using r b(2) unat_diff_swap[of "c + 4" "c + 8"]
    by (simp add: disj_def cl_buf_def)
  then have u4: "cl_buf_used m4 c = of_nat r"
    using c32.ld_st_bytes_disj[of "c + 4" "cl_buf c" "ld_bytes m3 (cl_buf c + of_nat (pos + 1)) r" m3] u3
    by (simp add: cl_buf_used_def m4_def)
  have "r \<le> 512" using r(2) b(2) by simp
  with u4 n tail_agree(1)[OF tail] have "live_ok m4 c"
    unfolding live_ok_def max_line_len_def max_name_len_def by metis
  from all_live_write[OF ok live this cw(2)] have live4: "all_live m4 pls" by simp
  have "pending m4 c = ld_bytes m4 (cl_buf c) r"
    using u4 sint_of_nat32[OF r(1)] by (simp add: pending_def)
  also have "\<dots> = ld_bytes m3 (cl_buf c + of_nat (pos + 1)) r"
    unfolding m4_def using ld_bytes_st_bytes_same[of "ld_bytes m3 (cl_buf c + of_nat (pos + 1)) r" m3 "cl_buf c"] r
    by simp
  also have "\<dots> = ld_bytes ?m (cl_buf c + of_nat (pos + 1)) r"
  proof -
    have "only (scratch P \<union> span (c + 4) 4) ?m m3"
      unfolding m3_def set_buf_used_def using only_mono[OF w1(4), of "scratch P \<union> span (c + 4) 4"]
      by (intro c32.only_st_in) auto
    moreover have "disj (cl_buf c + of_nat (pos + 1)) r (c + 4) 4"
    proof -
      have e: "c + 4 - (c + 8 + of_nat (pos + 1)) = - (4 + of_nat (pos + 1) :: u64)" by simp
      have u: "unat (4 + of_nat (pos + 1) :: u64) = 4 + (pos + 1)"
        using up pos b(2) by (subst unat_plus_less) simp_all
      then have "(4 + of_nat (pos + 1) :: u64) \<noteq> 0" by auto
      from unat_diff_swap[OF this] u have "unat (- (4 + of_nat (pos + 1) :: u64)) = 2 ^ 64 - (5 + pos)" by simp
      moreover have "c + 8 + of_nat (pos + 1) - (c + 4) = (4 + of_nat (pos + 1) :: u64)" by simp
      moreover have "5 + pos + r \<le> 2 ^ 64" using r(2) b(2) by simp
      then have "r \<le> 2 ^ 64 - (5 + pos)" by linarith
      ultimately show ?thesis using u by (simp add: disj_def cl_buf_def e del: of_nat_add of_nat_Suc)
    qed
    from disj_spans[OF this] \<open>source P (cl_buf c + of_nat (pos + 1)) r\<close>
    have "span (cl_buf c + of_nat (pos + 1)) r \<inter> (scratch P \<union> span (c + 4) 4) = {}"
      by (auto simp: source_def)
    ultimately show ?thesis using r(1) by (intro only_ld_bytes) simp_all
  qed
  also have "\<dots> = drop (length (first_line bs)) bs"
  proof -
    have "bs = ld_bytes ?m (cl_buf c) (pos + 1) @ ld_bytes ?m (cl_buf c + of_nat (pos + 1)) r"
      unfolding bs r(2)[symmetric] by (rule ld_bytes_add)
    then have "drop (pos + 1) bs = ld_bytes ?m (cl_buf c + of_nat (pos + 1)) r"
      by (metis append_eq_conv_conj length_ld_bytes)
    then show ?thesis by (simp only: flen)
  qed
  finally have "pending m4 c = drop (length (first_line bs)) bs" .
  moreover have "cl_name_ok m4 c = 1" using tail_agree(2)[OF tail] named by simp
  ultimately show ?thesis
    using run w1(3,6) cw(1) live4 all tail
    by (intro exI[of _ w4] exI[of _ cs]) (simp add: w4_def w2_def)
qed

end
