(* ===== verification/Closing.thy ===== *)
theory Closing
  imports Broadcast
begin

text \<open>
  Closing a session: the client leaves the list of its pool, its chunk returns to the free list,
  and a pool that has become empty is given up unless it is the last one.
\<close>

section \<open>Finding the link to a client\<close>

lemma find_link_None:
  "chain (cl_next m) (ld64 m pcur) us \<Longrightarrow> c \<notin> set us \<Longrightarrow> length us < k \<Longrightarrow> find_link k m pcur c = Inr None"
proof (induction us arbitrary: pcur k)
  case Nil
  then show ?case by (cases k) auto
next
  case (Cons u us)
  then obtain j where k: "k = Suc j" by (cases k) auto
  have "ld64 m (u + 560) = cl_next m u" by (simp add: cl_next_def)
  then have "chain (cl_next m) (ld64 m (u + 560)) us" using Cons.prems(1) by simp
  from Cons.IH[OF this] Cons.prems k show ?case by auto
qed

definition link_to :: "u64 \<Rightarrow> u64 list \<Rightarrow> u64" where
  "link_to pcur xs = (if xs = [] then pcur else last xs + 560)"

lemma find_link_Some:
  "chain (cl_next m) (ld64 m pcur) (xs @ c # ys) \<Longrightarrow> c \<notin> set xs \<Longrightarrow> length xs < k \<Longrightarrow>
   find_link k m pcur c = Inr (Some (link_to pcur xs))"
proof (induction xs arbitrary: pcur k)
  case Nil
  then obtain j where "k = Suc j" by (cases k) auto
  with Nil show ?case by (simp add: link_to_def)
next
  case (Cons x xs)
  then obtain j where k: "k = Suc j" by (cases k) auto
  have "ld64 m (x + 560) = cl_next m x" by (simp add: cl_next_def)
  then have "chain (cl_next m) (ld64 m (x + 560)) (xs @ c # ys)" using Cons.prems(1) by simp
  from Cons.IH[OF this] Cons.prems k show ?case by (auto simp: link_to_def)
qed

section \<open>The pool after the removal\<close>

lemma slot_part:
  "block_ok q \<Longrightarrow> c \<in> set (slots q) \<Longrightarrow> unat k + n \<le> 568 \<Longrightarrow>
   x \<in> span (c + k) n \<longleftrightarrow> unat c + unat k \<le> unat x \<and> unat x < unat c + unat k + n"
  using slot_bounds(3)[of q c] by (rule span_part)

lemma block_part:
  "block_ok q \<Longrightarrow> unat k + n \<le> 581632 \<Longrightarrow>
   x \<in> span (q + k) n \<longleftrightarrow> unat q + unat k \<le> unat x \<and> unat x < unat q + unat k + n"
  by (rule span_part) (simp_all add: block_ok_def layout_defs)

lemma part_simps:
  assumes "block_ok q"
  shows "x \<in> span (q + 24) 8 \<longleftrightarrow> unat q + 24 \<le> unat x \<and> unat x < 32 + unat q"
    "x \<in> span (q + 32) 4 \<longleftrightarrow> unat q + 32 \<le> unat x \<and> unat x < 36 + unat q"
    "x \<in> span (q + 36) 4 \<longleftrightarrow> unat q + 36 \<le> unat x \<and> unat x < 40 + unat q"
    "x \<in> span (q + 40) 8 \<longleftrightarrow> unat q + 40 \<le> unat x \<and> unat x < 48 + unat q"
    "x \<in> span (q + 32) 8 \<longleftrightarrow> unat q + 32 \<le> unat x \<and> unat x < 40 + unat q"
    "x \<in> span q 32 \<longleftrightarrow> unat q \<le> unat x \<and> unat x < unat q + 32"
    "c \<in> set (slots q) \<Longrightarrow> x \<in> span (c + 560) 8 \<longleftrightarrow> unat c + 560 \<le> unat x \<and> unat x < 568 + unat c"
    "c \<in> set (slots q) \<Longrightarrow> x \<in> span (c + 520) 40 \<longleftrightarrow> unat c + 520 \<le> unat x \<and> unat x < 560 + unat c"
    "c \<in> set (slots q) \<Longrightarrow> x \<in> span c 560 \<longleftrightarrow> unat c \<le> unat x \<and> unat x < unat c + 560"
    "c \<in> set (slots q) \<Longrightarrow> x \<in> link c \<longleftrightarrow> unat c \<le> unat x \<and> unat x < unat c + 8"
  using block_part[OF assms, of 0 32] slot_part[OF assms, of c 0 560] slot_part[OF assms, of c 0 8]
  by (simp_all add: block_part[OF assms] slot_part[OF assms] link_def)

lemma stale_agree:
  assumes "agree (span (c + 520) 40) m m'"
  shows "stale_ok m' c = stale_ok m c"
proof -
  have sub: "unat k + n \<le> 40 \<Longrightarrow> agree (span (c + 520 + k) n) m m'" for k n
    by (rule agree_mono[OF assms span_sub]) simp_all
  have "cl_name_used m' c = cl_name_used m c" "cl_name_ok m' c = cl_name_ok m c"
    using sub[of 32 4, THEN agree_ld32] sub[of 36 4, THEN agree_ld32]
    by (simp_all add: cl_name_used_def cl_name_ok_def add.assoc)
  moreover have "m' (cl_name c + of_nat n) = m (cl_name c + of_nat n)" if "n < max_name_len" for n
    using assms in_span_of_nat[of n 40 "c + 520"] that
    by (simp add: agree_def cl_name_def max_name_len_def)
  ultimately show ?thesis by (auto simp: stale_ok_def)
qed

lemma chunks_slots:
  assumes "p_buf m q = q + 48" "p_buf_len m q = of_nat pool_size" "p_chunk_size m q = of_nat sizeof_client"
  shows "chunks m q = slots q"
proof -
  have "chunk_count m q = max_clients_in_pool"
    using assms by (simp add: chunk_count_def layout_defs)
  moreover have "chunk m q = slot q"
    using assms by (auto simp: chunk_def slot_def layout_defs)
  ultimately show ?thesis by (simp add: chunks_def slots_def)
qed

text \<open>The unlinking: the link before the client skips it, and the counters follow.\<close>

definition removed :: "u64 \<Rightarrow> u64 \<Rightarrow> u64 \<Rightarrow> mem \<Rightarrow> mem" where
  "removed q pcur c m =
    (let m = st64 m pcur (cl_next m c); m = set_free_ch q (clp_free_ch m q + 1) m
     in set_used_ch q (clp_used_ch m q - 1) m)"

lemma removed_only:
  assumes q: "block_ok q"
  shows "only (span pcur 8 \<union> span (q + 32) 8) m (removed q pcur c m)"
proof -
  have "span (q + 32) 4 \<subseteq> span pcur 8 \<union> span (q + 32) 8" "span (q + 36) 4 \<subseteq> span pcur 8 \<union> span (q + 32) 8"
    by (auto simp: part_simps[OF q])
  then show ?thesis
    unfolding removed_def Let_def set_free_ch_def set_used_ch_def
    by (intro c32.only_st_in c64.only_st_in only_refl) auto
qed

text \<open>Where the link to a client can be: in the head of the pool, or at the end of another client.\<close>

lemma link_to_cases:
  assumes "set xs \<subseteq> set (slots q)"
  obtains "link_to (q + 40) xs = q + 40" "xs = []"
  | y where "link_to (q + 40) xs = y + 560" "y \<in> set (slots q)" "xs \<noteq> []" "y = last xs"
proof (cases "xs = []")
  case False
  then have "last xs \<in> set (slots q)" using assms last_in_set by blast
  then show ?thesis using False that(2)[of "last xs"] by (simp add: link_to_def)
qed (use that(1) in \<open>simp add: link_to_def\<close>)

lemma link_to_apart:
  assumes q: "block_ok q" and xs: "set xs \<subseteq> set (slots q)"
  shows "span (link_to (q + 40) xs) 8 \<inter> span (q + 32) 8 = {}"
    and "span (link_to (q + 40) xs) 8 \<inter> span q 32 = {}"
    and "d \<in> set (slots q) \<Longrightarrow> span (link_to (q + 40) xs) 8 \<inter> span d 560 = {}"
    and "span (link_to (q + 40) xs) 8 \<subseteq> pool_block q"
proof -
  consider "link_to (q + 40) xs = q + 40" | y where "link_to (q + 40) xs = y + 560" "y \<in> set (slots q)"
    using link_to_cases[OF xs] by metis
  then have "span (link_to (q + 40) xs) 8 \<inter> span (q + 32) 8 = {} \<and>
    span (link_to (q + 40) xs) 8 \<inter> span q 32 = {} \<and>
    (d \<in> set (slots q) \<longrightarrow> span (link_to (q + 40) xs) 8 \<inter> span d 560 = {}) \<and>
    span (link_to (q + 40) xs) 8 \<subseteq> pool_block q"
  proof cases
    case 1
    then show ?thesis using slot_bounds[OF q, of d]
      by (auto simp: part_simps[OF q] in_pool_block[OF q])
  next
    case (2 y)
    then show ?thesis using slot_bounds[OF q 2(2)] slots_apart[OF q 2(2), of d]
      by (cases "y = d") (auto simp: part_simps[OF q] in_pool_block[OF q])
  qed
  then show "span (link_to (q + 40) xs) 8 \<inter> span (q + 32) 8 = {}"
    "span (link_to (q + 40) xs) 8 \<inter> span q 32 = {}"
    "d \<in> set (slots q) \<Longrightarrow> span (link_to (q + 40) xs) 8 \<inter> span d 560 = {}"
    "span (link_to (q + 40) xs) 8 \<subseteq> pool_block q"
    by simp_all
qed

lemma removed_agree:
  assumes q: "block_ok q" and xs: "set xs \<subseteq> set (slots q)"
  shows "d \<in> set (slots q) \<Longrightarrow> agree (span d 560) m (removed q (link_to (q + 40) xs) c m)"
    and "agree (span q 32) m (removed q (link_to (q + 40) xs) c m)"
proof -
  note D = only_agree[OF removed_only[OF q]]
  show "agree (span q 32) m (removed q (link_to (q + 40) xs) c m)"
    using link_to_apart(2)[OF q xs] by (intro D) (auto simp: part_simps[OF q])
  assume d: "d \<in> set (slots q)"
  show "agree (span d 560) m (removed q (link_to (q + 40) xs) c m)"
    using link_to_apart(3)[OF q xs d] slot_bounds(1)[OF q d] d
    by (intro D) (auto simp: part_simps[OF q])
qed

lemma removed_counts:
  assumes q: "block_ok q" and xs: "set xs \<subseteq> set (slots q)"
  shows "clp_free_ch (removed q (link_to (q + 40) xs) c m) q = clp_free_ch m q + 1"
    and "clp_used_ch (removed q (link_to (q + 40) xs) c m) q = clp_used_ch m q - 1"
proof -
  let ?m1 = "st64 m (link_to (q + 40) xs) (cl_next m c)"
  have "span (q + 32) 4 \<subseteq> span (q + 32) 8" "span (q + 36) 4 \<subseteq> span (q + 32) 8"
    by (auto simp: part_simps[OF q])
  then have "span (q + 32) 4 \<inter> span (link_to (q + 40) xs) 8 = {}"
    "span (q + 36) 4 \<inter> span (link_to (q + 40) xs) 8 = {}"
    using link_to_apart(1)[OF q xs] by blast+
  then have 1: "ld32 ?m1 (q + 32) = ld32 m (q + 32)" "ld32 ?m1 (q + 36) = ld32 m (q + 36)"
    by (auto intro: c32.only_ld[OF c64.only_st])
  have d: "disj (q + 36) 4 (q + 32) 4" "disj (q + 32) 4 (q + 36) 4" by (simp_all add: disj_def)
  show "clp_free_ch (removed q (link_to (q + 40) xs) c m) q = clp_free_ch m q + 1"
    "clp_used_ch (removed q (link_to (q + 40) xs) c m) q = clp_used_ch m q - 1"
    using 1 by (simp_all add: removed_def Let_def clp_free_ch_def clp_used_ch_def set_free_ch_def set_used_ch_def
        c32.ld_st_same c32.ld_st_disj d)
qed

lemma removed_chain:
  assumes q: "block_ok q" and xs: "set xs \<subseteq> set (slots q)"
    and us: "set (xs @ c # ys) \<subseteq> set (slots q)" "distinct (xs @ c # ys)"
    and ch: "chain (cl_next m) (clp_client m q) (xs @ c # ys)"
  defines "m' \<equiv> removed q (link_to (q + 40) xs) c m"
  shows "chain (cl_next m') (clp_client m' q) (xs @ ys)"
proof -
  let ?p = "link_to (q + 40) xs"
  define m1 where "m1 = st64 m ?p (cl_next m c)"
  have o: "only (span (q + 32) 8) m1 m'"
    unfolding m'_def removed_def Let_def set_free_ch_def set_used_ch_def m1_def[symmetric]
    by (intro c32.only_st_in only_refl) (auto simp: part_simps[OF q])
  have nxt: "cl_next m' u = ld64 m1 (u + 560)" if "u \<in> set (slots q)" for u
    unfolding cl_next_def using slot_bounds(1)[OF q that] that
    by (intro c64.only_ld[OF o]) (auto simp: part_simps[OF q])
  have hd: "clp_client m' q = ld64 m1 (q + 40)"
    unfolding clp_client_def by (intro c64.only_ld[OF o]) (auto simp: part_simps[OF q])
  have other: "ld64 m1 (u + 560) = cl_next m u" if "u \<in> set (slots q)" "u + 560 \<noteq> ?p" for u
  proof -
    have "span (u + 560) 8 \<inter> span ?p 8 = {}"
    proof (cases rule: link_to_cases[OF xs])
      case 1
      then show ?thesis using slot_bounds(1)[OF q that(1)] that(1) by (auto simp: part_simps[OF q])
    next
      case (2 y)
      then have "y \<noteq> u" using that(2) by auto
      then show ?thesis using slots_apart[OF q 2(2) that(1)] that(1) 2 by (auto simp: part_simps[OF q])
    qed
    then have "ld64 m1 (u + 560) = ld64 m (u + 560)" unfolding m1_def by (rule c64.only_ld[OF c64.only_st])
    then show ?thesis by (simp add: cl_next_def)
  qed
  show ?thesis
  proof (cases rule: link_to_cases[OF xs])
    case 1
    then have "clp_client m' q = cl_next m c" by (simp add: hd m1_def c64.ld_st_same)
    moreover have "cl_next m' u = cl_next m u" if "u \<in> set ys" for u
    proof -
      have u: "u \<in> set (slots q)" using that us(1) by auto
      have "u + 560 \<noteq> ?p"
      proof
        assume e: "u + 560 = ?p"
        have "u + 560 \<in> span (u + 560) 8" by (simp add: span_def)
        moreover from this have "u + 560 \<in> span (q + 40) 8" unfolding e 1(1) .
        ultimately show False using slot_bounds(1)[OF q u] u by (simp add: part_simps[OF q])
      qed
      with u show ?thesis by (simp add: nxt other)
    qed
    then have "chain (cl_next m') (cl_next m c) ys = chain (cl_next m) (cl_next m c) ys" by (rule chain_cong)
    ultimately show ?thesis using ch 1 by simp
  next
    case (2 y)
    have y: "y \<in> set (xs @ ys)" using 2 last_in_set by auto
    have "span (q + 40) 8 \<inter> span ?p 8 = {}"
      using 2 slot_bounds(1)[OF q 2(2)] by (auto simp: part_simps[OF q])
    then have "ld64 m1 (q + 40) = ld64 m (q + 40)" unfolding m1_def by (rule c64.only_ld[OF c64.only_st])
    then have "clp_client m' q = clp_client m q" by (simp only: hd) (simp add: clp_client_def)
    moreover have "cl_next m' u = ((cl_next m)(y := cl_next m c)) u" if "u \<in> set (xs @ ys)" for u
    proof (cases "u = y")
      case True
      then show ?thesis using nxt[OF 2(2)] 2(1) by (simp add: m1_def c64.ld_st_same)
    next
      case False
      have "u \<in> set (slots q)" using that us(1) by auto
      moreover have "u + 560 \<noteq> ?p" using 2(1) False by simp
      ultimately show ?thesis using False by (simp add: nxt other)
    qed
    then have "chain (cl_next m') (clp_client m q) (xs @ ys) =
        chain ((cl_next m)(y := cl_next m c)) (clp_client m q) (xs @ ys)"
      by (rule chain_cong)
    ultimately show ?thesis using chain_remove[OF ch us(2)] 2(3,4) by simp
  qed
qed

lemma removed_pool:
  assumes q: "block_ok q" and ok: "clp_ok m q fs (xs @ c # ys)"
  defines "m' \<equiv> removed q (link_to (q + 40) xs) c m"
  shows "pool_ok m' q fs" "same_pool m m' q" "chain (cl_next m') (clp_client m' q) (xs @ ys)"
    "clp_free_ch m' q = of_nat (length (c # fs))" "clp_used_ch m' q = of_nat (length (xs @ ys))"
    "d \<in> set (slots q) \<Longrightarrow> agree (span d 560) m m'" "d \<in> set (slots q) \<Longrightarrow> stale_ok m' d"
    "only (pool_block q) m m'"
proof -
  note ok' = ok[unfolded clp_ok_def]
  have us: "set (xs @ c # ys) \<subseteq> set (slots q)" "set fs \<subseteq> set (slots q)" "distinct (xs @ c # ys)"
    using ok' by auto
  then have xs: "set xs \<subseteq> set (slots q)" by auto
  note agr = removed_agree(1)[OF q xs, of _ m c, folded m'_def] removed_agree(2)[OF q xs, of m c, folded m'_def]
  have "agree (link f) m m'" if "f \<in> set fs" for f
    using agree_mono[OF agr(1) span_mono[of 8 560 f]] that us(2) by (auto simp: link_def)
  then show "pool_ok m' q fs" "same_pool m m' q" using pool_ok_agree[OF _ agr(2)] ok' by auto
  show "chain (cl_next m') (clp_client m' q) (xs @ ys)"
    unfolding m'_def using ok' by (intro removed_chain[OF q xs us(1,3)]) simp
  show "clp_free_ch m' q = of_nat (length (c # fs))" "clp_used_ch m' q = of_nat (length (xs @ ys))"
    using removed_counts[OF q xs, of c m] ok' by (simp_all add: m'_def)
  show d: "agree (span d 560) m m'" if "d \<in> set (slots q)" by (rule agr(1)[OF that])
  show "stale_ok m' d" if "d \<in> set (slots q)"
  proof -
    have "span (d + 520) 40 \<subseteq> span d 560" by (rule span_sub) simp_all
    then have "stale_ok m' d = stale_ok m d" by (intro stale_agree agree_mono[OF d[OF that]])
    then show ?thesis using ok' that by simp
  qed
  have "span (q + 32) 8 \<subseteq> pool_block q" by (auto simp: part_simps[OF q] in_pool_block[OF q])
  with link_to_apart(4)[OF q xs] show "only (pool_block q) m m'"
    unfolding m'_def by (intro only_mono[OF removed_only[OF q]]) blast
qed

lemma pushed_pool:
  assumes q: "block_ok q" and ok: "clp_ok m q fs (xs @ c # ys)"
  defines "m' \<equiv> pool_push (removed q (link_to (q + 40) xs) c m) q c"
  shows "clp_ok m' q (c # fs) (xs @ ys)" and "d \<in> set (slots q) \<Longrightarrow> d \<noteq> c \<Longrightarrow> agree (span d 560) m m'"
    and "only (pool_block q) m m'"
proof -
  define m1 where "m1 = removed q (link_to (q + 40) xs) c m"
  note r = removed_pool[OF q ok, folded m1_def]
  note ok' = ok[unfolded clp_ok_def]
  have c: "c \<in> set (slots q)" "c \<notin> set fs" using ok' by auto
  have "chunks m q = slots q" using ok' by (intro chunks_slots) simp_all
  then have ch: "c \<in> set (chunks m1 q)" using c same_pool_simps(4)[OF r(2)] by simp
  note push = pool_push_ok[OF r(1) ch c(2)]
  have m': "m' = pool_push m1 q c" by (simp add: m'_def m1_def)
  note P = pool_push_only[of c q m1, folded m']
  note b = slot_bounds[OF q c(1)]
  have tail: "agree (span (d + 520) 40) m1 m' \<and> agree (span (d + 560) 8) m1 m'" if "d \<in> set (slots q)" for d
    using b slot_bounds(1)[OF q that] slots_apart[OF q that c(1)] that c(1)
    by (intro conjI only_agree[OF P]; cases "d = c") (auto simp: part_simps[OF q])
  have nxt: "cl_next m' u = cl_next m1 u" if "u \<in> set (slots q)" for u
    unfolding cl_next_def using tail[OF that] agree_ld64 by blast
  have hd: "agree (span (q + 32) 16) m1 m'"
  proof (rule only_agree[OF P])
    show "span (q + 32) 16 \<inter> (link c \<union> span (q + 24) 8) = {}"
      using b(1) c(1) by (auto simp: part_simps[OF q] block_part[OF q])
  qed
  have sub: "unat k + n \<le> 16 \<Longrightarrow> agree (span (q + 32 + k) n) m1 m'" for k n
    by (rule agree_mono[OF hd span_sub]) simp_all
  have flds: "clp_free_ch m' q = clp_free_ch m1 q" "clp_used_ch m' q = clp_used_ch m1 q"
    "clp_client m' q = clp_client m1 q"
    using sub[of 0 4, THEN agree_ld32] sub[of 4 4, THEN agree_ld32] sub[of 8 8, THEN agree_ld64]
    by (simp_all add: clp_free_ch_def clp_used_ch_def clp_client_def add.assoc)
  have "chain (cl_next m') (clp_client m1 q) (xs @ ys) = chain (cl_next m1) (clp_client m1 q) (xs @ ys)"
    by (rule chain_cong, rule nxt) (use ok' in auto)
  moreover have "stale_ok m' d" if "d \<in> set (slots q)" for d
    using stale_agree[of d m1 m'] tail[OF that] r(7)[OF that] by simp
  moreover have "distinct ((xs @ ys) @ c # fs)" "set ((xs @ ys) @ c # fs) = set (slots q)" using ok' by auto
  ultimately show "clp_ok m' q (c # fs) (xs @ ys)"
    using push r ok' flds by (simp add: clp_ok_def m' same_pool_def)
  have "link c \<union> span (q + 24) 8 \<subseteq> pool_block q"
    using b c(1) by (auto simp: part_simps[OF q] in_pool_block[OF q])
  from only_trans[OF r(8) only_mono[OF P this]] show "only (pool_block q) m m'" .
  show "agree (span d 560) m m'" if d: "d \<in> set (slots q)" "d \<noteq> c"
  proof (rule agree_trans[OF r(6)[OF d(1)] only_agree[OF P]])
    show "span d 560 \<inter> (link c \<union> span (q + 24) 8) = {}"
      using slot_bounds(1)[OF q d(1)] slots_apart[OF q d(1) c(1) d(2)] d(1) c(1)
      by (auto simp: part_simps[OF q])
  qed
qed

section \<open>The server after the removal\<close>

lemma clients_split [simp]: "clients (xs @ (q, fs, us) # ys) = clients xs @ us @ clients ys"
  by (simp add: clients_def)

lemma blocks_split [simp]: "blocks (xs @ (q, fs, us) # ys) = blocks xs @ q # blocks ys"
  by (simp add: blocks_def)

lemma slot_unique:
  assumes "server_ok P m s pls" and "q \<in> set (blocks pls)" "r \<in> set (blocks pls)"
    and "c \<in> set (slots q)" "c \<in> set (slots r)"
  shows "q = r"
proof (rule ccontr)
  assume ne: "q \<noteq> r"
  obtain fs us gs vs where e: "(q, fs, us) \<in> set pls" "(r, gs, vs) \<in> set pls"
    using pool_entry[OF assms(1)] assms(2,3) by metis
  have "client_span c \<subseteq> pool_block q" "client_span c \<subseteq> pool_block r"
    using client_span_block[OF server_okD(1)[OF assms(1) e(1)] assms(4)]
      client_span_block[OF server_okD(1)[OF assms(1) e(2)] assms(5)] by simp_all
  moreover have "pool_block q \<inter> pool_block r = {}"
    using assms(1-3) ne by (simp add: server_ok_def blocks_apart_def)
  moreover have "c \<in> client_span c" by (simp add: client_span_def span_def sizeof_client_def)
  ultimately show False by blast
qed

lemma client_elsewhere:
  assumes ok: "server_ok P m s (A @ (q, fs, us) # B)" and c: "c \<in> set (slots q)"
  shows "c \<notin> set (clients A)" "c \<notin> set (clients B)"
proof -
  have "\<not> c \<in> set vs" if e: "(r, gs, vs) \<in> set A \<union> set B" for r gs vs
  proof
    assume "c \<in> set vs"
    have mem: "(r, gs, vs) \<in> set (A @ (q, fs, us) # B)" using e by auto
    then have "c \<in> set (slots r)" using server_okD(5)[OF ok] \<open>c \<in> set vs\<close> by blast
    then have "q = r" using slot_unique[OF ok _ server_okD(4)[OF ok mem] c] by simp
    moreover have "r \<noteq> q"
      using ok e by (auto simp: server_ok_def blocks_apart_def blocks_def rev_image_eqI)
    ultimately show False by simp
  qed
  then show "c \<notin> set (clients A)" "c \<notin> set (clients B)" by (auto simp: clients_def)
qed

lemma block_write:
  assumes ok: "server_ok P m s (A @ (q, fs, us) # B)" and w: "only (pool_block q) m m'"
  shows "literals_ok P m'"
    and "(r, gs, vs) \<in> set (A @ B) \<Longrightarrow> clp_ok m' r gs vs \<and> agree (pool_block r) m m'"
proof -
  let ?pls = "A @ (q, fs, us) # B"
  have q: "(q, fs, us) \<in> set ?pls" by simp
  have "rodata P \<inter> pool_block q = {}" using server_okD(2)[OF ok q] by (auto simp: statics_def)
  then show "literals_ok P m'" using ok by (intro literals_ok_frame[OF _ w]) (simp_all add: server_ok_def)
  assume e: "(r, gs, vs) \<in> set (A @ B)"
  then have mem: "(r, gs, vs) \<in> set ?pls" by auto
  have "r \<noteq> q" using ok e by (auto simp: server_ok_def blocks_apart_def blocks_def rev_image_eqI)
  then have "pool_block r \<inter> pool_block q = {}"
    using ok server_okD(4)[OF ok mem] server_okD(4)[OF ok q] by (simp add: server_ok_def blocks_apart_def)
  then have a: "agree (pool_block r) m m'" by (rule only_agree[OF w])
  with clp_ok_block[OF server_okD(1,3)[OF ok mem] a]
  show "clp_ok m' r gs vs \<and> agree (pool_block r) m m'" by simp
qed

lemma server_ok_replace:
  assumes ok: "server_ok P m s (A @ (q, fs, us) # B)" and w: "only (pool_block q) m m'"
    and new: "clp_ok m' q fs' us'"
  shows "server_ok P m' s (A @ (q, fs', us') # B)"
proof -
  note bw = block_write[OF ok w]
  have "clp_ok m' r gs vs" if "(r, gs, vs) \<in> set A \<union> set B" for r gs vs using bw(2) that by auto
  then show ?thesis using ok bw(1) new unfolding server_ok_def by (auto simp: ball_Un)
qed

lemma shift_left_spec:
  "i \<le> n \<Longrightarrow> n < length xs \<Longrightarrow>
   shift_left xs i n = take i xs @ take (n - i) (drop (Suc i) xs) @ 0 # drop (Suc n) xs"
proof (induction "n - i" arbitrary: i xs)
  case 0
  then show ?case by (simp add: shift_left.simps[of xs i i] upd_conv_take_nth_drop)
next
  case (Suc k)
  then have i: "i < n" by simp
  have l: "take (Suc i) (xs[i := xs ! Suc i]) = take i xs @ [xs ! Suc i]"
    using i Suc.prems by (simp add: take_Suc_conv_app_nth)
  have "take (n - i) (drop (Suc i) xs) = xs ! Suc i # take (n - Suc i) (drop (Suc (Suc i)) xs)"
    using i Suc.prems by (simp add: Cons_nth_drop_Suc[symmetric] Suc_diff_Suc[symmetric] del: Suc_diff_Suc)
  moreover have "shift_left (xs[i := xs ! Suc i]) (Suc i) n =
      take (Suc i) (xs[i := xs ! Suc i]) @ take (n - Suc i) (drop (Suc (Suc i)) xs) @ 0 # drop (Suc n) xs"
    using Suc.hyps(1)[of "Suc i" "xs[i := xs ! Suc i]"] Suc.hyps(2) Suc.prems i by simp
  ultimately show ?case using i l by (simp add: shift_left.simps[of xs i n])
qed

lemma shift_left_blocks:
  assumes "take (length A + Suc (length B)) xs = A @ q # B" and "length A + length B < length xs"
  shows "take (length A + length B) (shift_left xs (length A) (length A + length B)) = A @ B"
    and "length (shift_left xs (length A) (length A + length B)) = length xs"
proof -
  let ?n = "length A + length B"
  have A: "take (length A) xs = A" using arg_cong[OF assms(1), of "take (length A)"] assms(2) by simp
  have "take (length B) (drop (Suc (length A)) xs) = B"
    using arg_cong[OF assms(1), of "drop (Suc (length A))"] assms(2) by (simp add: drop_take)
  then have s: "shift_left xs (length A) ?n = A @ B @ 0 # drop (Suc ?n) xs"
    using shift_left_spec[of "length A" ?n xs] assms(2) A by simp
  show "take ?n (shift_left xs (length A) ?n) = A @ B" by (simp add: s)
  show "length (shift_left xs (length A) ?n) = length xs" using assms(2) by (simp add: s)
qed

section \<open>Unlinking a client\<close>

text \<open>
  The calls of a removal: none, or the unmapping of a pool that has become empty, with a report
  when the kernel refuses. The unmapping asks for one page of the pool only.
\<close>

definition gave_up :: "platform \<Rightarrow> u64 \<Rightarrow> pools \<Rightarrow> pools \<Rightarrow> sys_call list \<Rightarrow> bool" where
  "gave_up P c pls pls' cs \<longleftrightarrow>
     cs = [] \<and> blocks pls' = blocks pls \<and> (length pls = 1 \<or> (\<forall>q fs. (q, fs, [c]) \<notin> set pls)) \<or>
     (\<exists>A q fs B r. pls = A @ (q, fs, [c]) # B \<and> A @ B \<noteq> [] \<and> blocks pls' = blocks (A @ B) \<and>
        cs = r @ [unmap_call q page_size] \<and>
        (r = [] \<or> (\<exists>bs. length bs \<le> max_buf \<and>
           r = [write_call stderr (stk P ''fmt_fprintf.buf'') bs])))"

definition pool_area :: "pools \<Rightarrow> u64 set" where
  "pool_area pls = (\<Union>q \<in> set (blocks pls). pool_block q)"

definition removal_ok ::
  "platform \<Rightarrow> u64 \<Rightarrow> pools \<Rightarrow> world \<Rightarrow> server \<Rightarrow> world \<Rightarrow> pools \<Rightarrow> sys_call list \<Rightarrow> bool" where
  "removal_ok P c pls w s' w' pls' cs \<longleftrightarrow> server_ok P (wmem w') s' pls' \<and>
     clients pls' = filter (\<lambda>d. d \<noteq> c) (clients pls) \<and> trace w' = cs @ trace w \<and>
     (\<forall>d. is_slot pls' d \<longrightarrow> d \<noteq> c \<longrightarrow> agree (span d 560) (wmem w) (wmem w')) \<and>
     only (scratch P \<union> pool_area pls) (wmem w) (wmem w') \<and> gave_up P c pls pls' cs"

lemma gave_up_blocks:
  assumes "gave_up P c pls pls' cs"
  shows "set (blocks pls') \<subseteq> set (blocks pls)"
proof -
  have "blocks (A @ (q, fs, us) # B) = blocks A @ q # blocks B" "blocks (A @ B) = blocks A @ blocks B"
    for A B :: pools and q fs us by (simp_all add: blocks_def)
  then show ?thesis using assms unfolding gave_up_def by fastforce
qed

lemma filter_out: "c \<notin> set xs \<Longrightarrow> filter (\<lambda>d. d \<noteq> c) xs = xs"
  by (induction xs) auto

lemma clients_remove:
  assumes ok: "server_ok P m s (A @ (q, fs, xs @ c # ys) # B)"
  shows "filter (\<lambda>d. d \<noteq> c) (clients (A @ (q, fs, xs @ c # ys) # B)) = clients A @ (xs @ ys) @ clients B"
proof -
  have e: "(q, fs, xs @ c # ys) \<in> set (A @ (q, fs, xs @ c # ys) # B)" by simp
  note D = server_okD[OF ok e]
  have "c \<in> set (slots q)" "c \<notin> set xs" "c \<notin> set ys" using D(5,7) by auto
  then show ?thesis using client_elsewhere[OF ok] by (simp add: filter_out)
qed

lemma server_ok_drop:
  assumes ok: "server_ok P m s (A @ (q, fs, us) # B)" and w: "only (pool_block q \<union> scratch P) m m'"
    and lay: "layout_ok P" and AB: "A @ B \<noteq> []"
  defines "n \<equiv> length A + length B"
  shows "server_ok P m' (s\<lparr>n_pls := n, first_clp := shift_left (first_clp s) (length A) n\<rparr>) (A @ B)"
proof -
  let ?pls = "A @ (q, fs, us) # B"
  have q: "(q, fs, us) \<in> set ?pls" by simp
  have "take (length (blocks A) + Suc (length (blocks B))) (first_clp s) = blocks A @ q # blocks B"
    using ok by (simp add: server_ok_def) (simp add: blocks_def)
  moreover have "length A + length B < length (first_clp s)" using ok by (simp add: server_ok_def)
  ultimately have sh: "take n (shift_left (first_clp s) (length A) n) = blocks A @ blocks B"
    "length (shift_left (first_clp s) (length A) n) = length (first_clp s)"
    using shift_left_blocks[of "blocks A" "blocks B" "first_clp s" q] by (simp_all add: n_def blocks_def)
  have lits: "literals_ok P m'"
  proof (rule literals_ok_frame[OF _ w])
    show "literals_ok P m" using ok by (simp add: server_ok_def)
    show "rodata P \<inter> (pool_block q \<union> scratch P) = {}"
      using server_okD(2)[OF ok q] layout_ro[OF lay] by (auto simp: statics_def)
  qed
  have keep: "clp_ok m' r gs vs" if e: "(r, gs, vs) \<in> set (A @ B)" for r gs vs
  proof -
    have mem: "(r, gs, vs) \<in> set ?pls" using e by auto
    have "r \<noteq> q" using ok e by (auto simp: server_ok_def blocks_apart_def blocks_def rev_image_eqI)
    then have "pool_block r \<inter> (pool_block q \<union> scratch P) = {}"
      using ok server_okD(2,4)[OF ok mem] server_okD(4)[OF ok q]
      by (auto simp: server_ok_def blocks_apart_def statics_def)
    from clp_ok_block[OF server_okD(1,3)[OF ok mem] only_agree[OF w this]] show ?thesis .
  qed
  have "block_ok r \<and> pool_block r \<inter> statics P = {} \<and> clp_ok m' r gs vs"
    if e: "(r, gs, vs) \<in> set (A @ B)" for r gs vs
    using keep[OF e] server_okD(1,2)[OF ok, of r gs vs] e by auto
  moreover have "blocks_apart (blocks (A @ B))"
    using ok by (auto simp: server_ok_def blocks_apart_def blocks_def)
  moreover have "n = length (A @ B)" "n \<le> max_pools" "length (first_clp s) = max_pools"
    using ok by (simp_all add: n_def server_ok_def)
  ultimately show ?thesis using sh lits by (auto simp: server_ok_def blocks_def)
qed

lemma slot_entry:
  assumes "is_slot pls d"
  obtains r gs vs where "(r, gs, vs) \<in> set pls" "d \<in> set (slots r)"
proof -
  obtain e where e: "e \<in> set pls" "d \<in> set (slots (fst e))"
    using assms by (auto simp: is_slot_def blocks_def)
  then show ?thesis using that[of "fst e" "fst (snd e)" "snd (snd e)"] by simp
qed

lemma unlink_memory:
  assumes "clp_ok (wmem w) q fs (xs @ c # ys)" and "1 < n_pls s \<and> xs @ ys = [] \<longleftrightarrow> drop_pool"
    and q: "block_ok q"
  shows "unlink P s i q (link_to (q + 40) xs) w =
    (let w = on_mem (removed q (link_to (q + 40) xs) c) w in
     if drop_pool then
       let (err, w) = sys_munmap P w q page_size in
       andthen
         (case err of
            Some e \<Rightarrow> fmt_fprintf P w stderr (lit P munmap_error_format) [lit P (err_msg e)]
          | None \<Rightarrow> Inr (0, w))
         (\<lambda>(_, w).
       let n = n_pls s - 1
       in if n < length (first_clp s)
          then Inr (s\<lparr>n_pls := n, first_clp := shift_left (first_clp s) i n\<rparr>, w)
          else Inl Undefined)
     else andthen (pool_put (wmem w) q c) (\<lambda>m. Inr (s, w\<lparr>wmem := m\<rparr>)))"
proof -
  have ch: "chain (cl_next (wmem w)) (clp_client (wmem w) q) (xs @ c # ys)"
    using assms(1) by (simp add: clp_ok_def)
  have t: "ld64 (wmem w) (link_to (q + 40) xs) = c"
    using chain_link[OF ch] by (simp add: link_to_def cl_next_def clp_client_def split: if_splits)
  let ?w = "on_mem (removed q (link_to (q + 40) xs) c) w"
  have len: "length (xs @ ys) < 2 ^ 32" using clp_counts[OF q assms(1)] by simp
  have "clp_used_ch (wmem ?w) q = of_nat (length (xs @ ys))"
    using removed_pool(5)[OF q assms(1)] by (simp add: on_mem_def)
  then have "clp_used_ch (wmem ?w) q = 0 \<longleftrightarrow> xs @ ys = []"
    using of_nat32_eq_0[OF len] by simp
  then have "1 < n_pls s \<and> clp_used_ch (wmem ?w) q = 0 \<longleftrightarrow> drop_pool" using assms(2) by simp
  then show ?thesis
    unfolding unlink_def by (simp add: t removed_def on_mem_def Let_def)
qed

lemma unlink_keep:
  assumes plat: "platform_ok P" and ok: "server_ok P (wmem w) s (A @ (q, fs, xs @ c # ys) # B)"
    and kept: "\<not> (1 < n_pls s \<and> xs @ ys = [])"
  shows "\<exists>w'. unlink P s i q (link_to (q + 40) xs) w = Inr (s, w') \<and>
    removal_ok P c (A @ (q, fs, xs @ c # ys) # B) w s w' (A @ (q, c # fs, xs @ ys) # B) []"
proof -
  let ?pls = "A @ (q, fs, xs @ c # ys) # B" and ?new = "A @ (q, c # fs, xs @ ys) # B"
  let ?m1 = "removed q (link_to (q + 40) xs) c (wmem w)"
  have e: "(q, fs, xs @ c # ys) \<in> set ?pls" by simp
  note D = server_okD[OF ok e]
  have c: "c \<in> set (slots q)" "c \<notin> set fs" using D(5,7) by auto
  note r = removed_pool[OF D(1,3)] and pp = pushed_pool[OF D(1,3)]
  have alone: "length ?pls = 1 \<or> (\<forall>r gs. (r, gs, [c]) \<notin> set ?pls)"
  proof (cases "xs @ ys = []")
    case True
    have "n_pls s = length ?pls" using ok by (simp add: server_ok_def)
    then show ?thesis using kept True by auto
  next
    case False
    have "(r, gs, [c]) \<notin> set ?pls" for r gs
    proof
      assume "(r, gs, [c]) \<in> set ?pls"
      moreover have "xs @ c # ys \<noteq> [c]" using False by (cases xs) auto
      ultimately have "(r, gs, [c]) \<in> set A \<or> (r, gs, [c]) \<in> set B" by auto
      then have "c \<in> set (clients A) \<or> c \<in> set (clients B)" by (force simp: clients_def)
      then show False using client_elsewhere[OF ok c(1)] by simp
    qed
    then show ?thesis by blast
  qed
  have fl: "p_buf (wmem w) q = q + 48" "p_buf_len (wmem w) q = of_nat pool_size"
    "p_chunk_size (wmem w) q = of_nat sizeof_client" using D(3) by (simp_all add: clp_ok_def)
  then have "c \<in> set (chunks ?m1 q)" using c(1) chunks_slots[OF fl] same_pool_simps(4)[OF r(2)] by simp
  moreover have "pool_geom ?m1 q" using r(1) by (simp add: pool_ok_def)
  ultimately have put: "pool_put ?m1 q c = Inr (pool_push ?m1 q c)" by (intro pool_put_chunk)
  let ?w' = "w\<lparr>wmem := pool_push ?m1 q c\<rparr>"
  have "unlink P s i q (link_to (q + 40) xs) w = Inr (s, ?w')"
    using unlink_memory[OF D(3) _ D(1), of s False] kept put by (simp add: on_mem_def)
  moreover have "agree (span d 560) (wmem w) (pool_push ?m1 q c)" if d: "is_slot ?new d" "d \<noteq> c" for d
  proof (cases "d \<in> set (slots q)")
    case True
    then show ?thesis by (rule pp(2)) (rule d(2))
  next
    case False
    obtain r gs vs where new: "(r, gs, vs) \<in> set ?new" "d \<in> set (slots r)"
      using slot_entry[OF d(1)] .
    with False have mem: "(r, gs, vs) \<in> set (A @ B)" "d \<in> set (slots r)" by auto
    then have "(r, gs, vs) \<in> set ?pls" by auto
    from client_span_block[OF server_okD(1)[OF ok this] mem(2)] block_write(2)[OF ok pp(3) mem(1)]
    show ?thesis using client_part[of 0 560 d] by (auto intro: agree_mono)
  qed
  moreover have "server_ok P (wmem ?w') s ?new" using server_ok_replace[OF ok pp(3,1)] by simp
  moreover have "only (scratch P \<union> pool_area ?pls) (wmem w) (wmem ?w')"
    using only_mono[OF pp(3), of "scratch P \<union> pool_area ?pls"] by (simp add: pool_area_def le_supI2)
  ultimately show ?thesis
    using clients_remove[OF ok] alone by (intro exI[of _ ?w']) (simp add: removal_ok_def gave_up_def)
qed

lemma unlink_drop:
  assumes plat: "platform_ok P" and ok: "server_ok P (wmem w) s (A @ (q, fs, xs @ c # ys) # B)"
    and gone: "1 < n_pls s" "xs @ ys = []"
  shows "\<exists>s' w' cs. unlink P s (length A) q (link_to (q + 40) xs) w = Inr (s', w') \<and>
    removal_ok P c (A @ (q, fs, xs @ c # ys) # B) w s' w' (A @ B) cs"
proof -
  let ?pls = "A @ (q, fs, xs @ c # ys) # B" and ?call = "unmap_call q page_size"
  let ?m1 = "removed q (link_to (q + 40) xs) c (wmem w)"
  let ?n = "length A + length B"
  let ?s = "s\<lparr>n_pls := ?n, first_clp := shift_left (first_clp s) (length A) ?n\<rparr>"
  let ?w1 = "w\<lparr>wmem := ?m1, trace := ?call # trace w\<rparr>"
  have lay: "layout_ok P" and kern: "kernel_ok (kern P)" using plat by (simp_all add: platform_ok_def)
  have e: "(q, fs, xs @ c # ys) \<in> set ?pls" by simp
  note D = server_okD[OF ok e]
  note r = removed_pool[OF D(1,3)]
  have n: "n_pls s = Suc ?n" "?n < length (first_clp s)" using ok by (simp_all add: server_ok_def)
  have AB: "A @ B \<noteq> []" using gone(1) n(1) by auto
  define err where "err = fst (sys_munmap P (w\<lparr>wmem := ?m1\<rparr>) q page_size)"
  have call: "sys_munmap P (w\<lparr>wmem := ?m1\<rparr>) q page_size = (err, ?w1)"
    using sys_munmap_world[OF kern, of "w\<lparr>wmem := ?m1\<rparr>" q page_size]
    by (cases "sys_munmap P (w\<lparr>wmem := ?m1\<rparr>) q page_size") (simp add: err_def)
  have o1: "only (pool_block q \<union> scratch P) (wmem w) ?m1" by (rule only_mono[OF r(8)]) simp
  have lits: "literals_ok P ?m1" by (rule block_write(1)[OF ok r(8)])
  have "\<exists>w2 rep. andthen (case err of
        Some e \<Rightarrow> fmt_fprintf P ?w1 stderr (lit P munmap_error_format) [lit P (err_msg e)]
      | None \<Rightarrow> Inr (0, ?w1)) (\<lambda>(_, w). Inr (?s, w)) = Inr (?s, w2) \<and> only (scratch P) ?m1 (wmem w2) \<and>
    trace w2 = rep @ ?call # trace w \<and>
    (rep = [] \<or> (\<exists>bs. length bs \<le> max_buf \<and> rep = [write_call stderr (stk P ''fmt_fprintf.buf'') bs]))"
  proof (cases err)
    case None
    then show ?thesis by simp
  next
    case (Some e)
    have "literals_ok P (wmem ?w1)" using lits by simp
    then obtain j w2 where r: "fmt_fprintf P ?w1 stderr (lit P munmap_error_format) [lit P (err_msg e)] = Inr (j, w2)"
      "reported P stderr ?w1 w2" "only (scratch P) (wmem ?w1) (wmem w2)"
      by (rule server_report[OF plat _ literals_in(9) format_args(2), where args = "[lit P (err_msg e)]"]) auto
    then show ?thesis using Some by (auto simp: reported_def)
  qed
  then obtain w2 rep where w2: "andthen (case err of
        Some e \<Rightarrow> fmt_fprintf P ?w1 stderr (lit P munmap_error_format) [lit P (err_msg e)]
      | None \<Rightarrow> Inr (0, ?w1)) (\<lambda>(_, w). Inr (?s, w)) = Inr (?s, w2)" "only (scratch P) ?m1 (wmem w2)"
    "trace w2 = rep @ ?call # trace w"
    "rep = [] \<or> (\<exists>bs. length bs \<le> max_buf \<and> rep = [write_call stderr (stk P ''fmt_fprintf.buf'') bs])"
    by blast
  have o2: "only (pool_block q \<union> scratch P) (wmem w) (wmem w2)"
    by (rule only_trans[OF o1 only_mono[OF w2(2)]]) simp
  have cond: "1 < n_pls s \<and> xs @ ys = [] \<longleftrightarrow> True" using gone by simp
  have "unlink P s (length A) q (link_to (q + 40) xs) w = Inr (?s, w2)"
    using n w2(1) by (simp add: unlink_memory[OF D(3) cond D(1)] on_mem_def call Let_def)
  moreover have "server_ok P (wmem w2) ?s (A @ B)" by (rule server_ok_drop[OF ok o2 lay AB])
  moreover have "agree (span d 560) (wmem w) (wmem w2)" if d: "is_slot (A @ B) d" for d
  proof -
    obtain r gs vs where mem: "(r, gs, vs) \<in> set (A @ B)" "d \<in> set (slots r)"
      using slot_entry[OF d] .
    then have m: "(r, gs, vs) \<in> set ?pls" by auto
    then have "is_slot ?pls d" using entry_slots(1)[OF ok _ mem(2)] by blast
    then have "client_span d \<inter> scratch P = {}" using scratch_outside(1)[OF ok] by (auto simp: statics_def)
    moreover have "r \<noteq> q"
      using ok mem(1) by (auto simp: server_ok_def blocks_apart_def blocks_def rev_image_eqI)
    then have "pool_block r \<inter> pool_block q = {}"
      using ok server_okD(4)[OF ok m] D(4) by (simp add: server_ok_def blocks_apart_def)
    ultimately have "client_span d \<inter> (pool_block q \<union> scratch P) = {}"
      using client_span_block[OF server_okD(1)[OF ok m] mem(2)] by blast
    then show ?thesis using client_part[of 0 560 d] by (intro only_agree[OF o2]) auto
  qed
  moreover have "only (scratch P \<union> pool_area ?pls) (wmem w) (wmem w2)"
    by (rule only_mono[OF o2]) (auto simp: pool_area_def)
  moreover have "gave_up P c ?pls (A @ B) (rep @ [?call])"
    unfolding gave_up_def using w2(4) gone(2) AB
    by (intro disjI2 exI[of _ A] exI[of _ q] exI[of _ fs] exI[of _ B] exI[of _ rep]) simp
  ultimately show ?thesis
    using clients_remove[OF ok] gone(2) w2(3)
    by (intro exI[of _ ?s] exI[of _ w2] exI[of _ "rep @ [?call]"]) (simp add: removal_ok_def clients_def)
qed

section \<open>Closing a session\<close>

lemma close_pools_unlink:
  assumes plat: "platform_ok P" and ok: "server_ok P (wmem w) s pls"
    and pls: "pls = A @ (q, fs, xs @ c # ys) # B"
  shows "i \<le> length A \<Longrightarrow> i + k = length pls \<Longrightarrow>
    close_pools k P c s i w = unlink P s (length A) q (link_to (q + 40) xs) w"
proof (induction k arbitrary: i)
  case (Suc k)
  have e: "(q, fs, xs @ c # ys) \<in> set pls" by (simp add: pls)
  note D = server_okD[OF ok e]
  have fuel: "n \<le> 1023 \<Longrightarrow> n < fuel P" for n using plat by (simp add: platform_ok_def)
  have il: "i < length pls" using Suc.prems by simp
  obtain r gs vs where r: "pls ! i = (r, gs, vs)" by (cases "pls ! i") auto
  then have mem: "(r, gs, vs) \<in> set pls" using nth_mem[OF il] by simp
  have at: "pool_at s i = Inr r" using pool_at_block[OF ok il] r by simp
  have ch: "chain (cl_next (wmem w)) (ld64 (wmem w) (r + 40)) vs"
    using server_okD(3)[OF ok mem] by (simp add: clp_ok_def clp_client_def)
  note len = fuel[OF pool_length(1)[OF ok mem]]
  show ?case
  proof (cases "i = length A")
    case True
    then have v: "r = q" "vs = xs @ c # ys" using r by (simp_all add: pls)
    have "c \<notin> set xs" using D(7) by simp
    moreover have "length xs < fuel P" using len v by simp
    ultimately have "find_link (fuel P) (wmem w) (q + 40) c = Inr (Some (link_to (q + 40) xs))"
      using find_link_Some ch v by metis
    then show ?thesis using at v True by simp
  next
    case False
    then have i: "i < length A" using Suc.prems by simp
    then have "(r, gs, vs) \<in> set A" using r nth_mem[OF i] by (simp add: pls nth_append)
    then have "c \<notin> set vs" using client_elsewhere(1)[of P "wmem w" s A q fs "xs @ c # ys" B c] ok D(5)
      by (auto simp: pls clients_def)
    from find_link_None[OF ch this len] show ?thesis using Suc.IH[of "Suc i"] Suc.prems i at by simp
  qed
qed (simp add: pls)

lemma close_pools_spec:
  assumes plat: "platform_ok P" and ok: "server_ok P (wmem w) s pls" and c: "c \<in> set (clients pls)"
  shows "\<exists>s' w' pls' cs. close_pools (n_pls s) P c s 0 w = Inr (s', w') \<and> removal_ok P c pls w s' w' pls' cs"
proof -
  obtain q fs us where e: "(q, fs, us) \<in> set pls" "c \<in> set us" using client_pool[OF ok c] by metis
  obtain A B where pls: "pls = A @ (q, fs, us) # B" using split_list[OF e(1)] by auto
  obtain xs ys where us: "us = xs @ c # ys" using split_list[OF e(2)] by auto
  note pls = pls[unfolded us]
  have n: "n_pls s = length pls" using ok by (simp add: server_ok_def)
  have run: "close_pools (n_pls s) P c s 0 w = unlink P s (length A) q (link_to (q + 40) xs) w"
    using close_pools_unlink[OF plat ok pls, of 0] n by simp
  note ok' = ok[unfolded pls]
  show ?thesis
  proof (cases "1 < n_pls s \<and> xs @ ys = []")
    case True
    then show ?thesis using unlink_drop[OF plat ok'] unfolding run pls by blast
  next
    case False
    then show ?thesis using unlink_keep[OF plat ok' False] unfolding run pls by blast
  qed
qed

text \<open>The name as the messages on joining and leaving give it: \<open>name_used\<close> bytes.\<close>

definition used_name :: "mem \<Rightarrow> u64 \<Rightarrow> u8 list" where
  "used_name m c = ld_bytes m (cl_name c) (nat (sint (cl_name_used m c)))"

definition left_calls :: "platform \<Rightarrow> mem \<Rightarrow> u64 \<Rightarrow> pools \<Rightarrow> sys_call list" where
  "left_calls P m c pls =
    (if cl_name_ok m c = 1
     then to_others P m (stk P ''session_close.msg'') (used_name m c @ bytes_of left_msg) c pls else [])"

lemma length_left_msg: "length left_msg = 19"
  by (simp add: left_msg_def newline_def)

text \<open>A message that stands in a local array and is sent from there.\<close>

lemma send_built:
  assumes plat: "platform_ok P" and ok: "server_ok P (wmem w) s pls" and v: "(v, cap) \<in> set locals"
    and len: "length tx \<le> cap"
  shows "andthen (slice_right (unsafe_slice (stk P v) (of_nat cap)) (fst (built (wmem w) (stk P v) tx)))
      (\<lambda>msg. session_send_all P (get_string msg) c s (w\<lparr>wmem := snd (built (wmem w) (stk P v) tx)\<rparr>)) =
    Inr (w\<lparr>wmem := st_bytes (wmem w) (stk P v) tx,
      trace := to_others P (wmem w) (stk P v) tx c pls @ trace w\<rparr>)"
proof -
  have lay: "layout_ok P" using plat by (simp add: platform_ok_def)
  have cap: "unat (of_nat cap :: u64) = cap" "unat (of_nat (length tx) :: u64) = length tx"
    using local_room[OF lay v] len by (simp_all add: unat_of_nat_less)
  let ?m = "st_bytes (wmem w) (stk P v) tx" and ?msg = "\<lparr>str_base = stk P v, str_len = of_nat (length tx)\<rparr>"
  have o: "only (scratch P) (wmem w) ?m" using built_only[OF v len only_refl] by (simp add: built_def)
  note sw = scratch_write[OF ok lay o]
  have "length tx \<le> 2 ^ 64" using local_room[OF lay v] len by simp
  then have tx: "sent_bytes ?m ?msg = tx" by (simp add: sent_bytes_def cap ld_bytes_st_bytes_same)
  have fds: "cl_fd ?m d = cl_fd (wmem w) d" if "d \<in> set (clients pls)" for d
    by (rule client_agree(1)[OF sw(2)[OF clients_slots[OF ok that]]])
  have "broadcast ?m ?msg (filter (\<lambda>d. d \<noteq> c) (clients pls)) = to_others P (wmem w) (stk P v) tx c pls"
    using fds by (simp add: broadcast_def to_others_def tx)
  then have "session_send_all P ?msg c s (w\<lparr>wmem := ?m\<rparr>) =
      Inr (w\<lparr>wmem := ?m, trace := to_others P (wmem w) (stk P v) tx c pls @ trace w\<rparr>)"
    using send_all_spec[OF plat, of "w\<lparr>wmem := ?m\<rparr>" s pls ?msg c] sw(1) by simp
  then show ?thesis using len cap by (simp add: slice_right_def built_def get_string_def word_le_nat_alt)
qed

lemma named_count:
  assumes "stale_ok m c" and "cl_name_ok m c = 1"
  obtains n where "n < 32" "cl_name_used m c = of_nat n" "scast (cl_name_used m c) = (of_nat n :: u64)"
    "used_name m c = ld_bytes m (cl_name c) n"
proof -
  obtain n where n: "n < 32" "cl_name_used m c = of_nat n"
    using assms by (auto simp: stale_ok_def max_name_len_def)
  then show ?thesis using that[of n] scast_of_nat32[of n] sint_of_nat32[of n] by (simp add: used_name_def)
qed

lemma source_name:
  "server_ok P m s pls \<Longrightarrow> is_slot pls c \<Longrightarrow> n \<le> 32 \<Longrightarrow> source P (cl_name c) n"
  unfolding cl_name_def by (rule source_client) simp_all

lemma first_source:
  assumes "layout_ok P" and v: "(v, cap) \<in> set locals" and "source P p n" and "n \<le> cap"
  shows "c_nstring_in_slice m (unsafe_slice (stk P v) (of_nat cap)) p (of_nat n) =
    built m (stk P v) (ld_bytes m p n)"
  using assms(3,4) local_room[OF assms(1) v] local_scratch[OF v, of P]
  by (intro first_nstring) (auto simp: source_def)

lemma left_message:
  assumes plat: "platform_ok P" and ok: "server_ok P (wmem w) s pls" and c: "is_slot pls c"
    and st: "stale_ok (wmem w) c" "cl_name_ok (wmem w) c = 1"
  shows "append_write write_nstring (unsafe_slice (stk P ''session_close.msg'') (of_nat 532))
      (lit P left_msg, of_nat (length left_msg))
      (c_nstring_in_slice (wmem w) (unsafe_slice (stk P ''session_close.msg'') (of_nat 532)) (cl_name c)
        (scast (cl_name_used (wmem w) c))) =
    built (wmem w) (stk P ''session_close.msg'') (used_name (wmem w) c @ bytes_of left_msg)"
    and "length (used_name (wmem w) c @ bytes_of left_msg) \<le> 532"
proof -
  have lay: "layout_ok P" and lits: "literals_ok P (wmem w)"
    using plat ok by (simp_all add: platform_ok_def server_ok_def)
  obtain n where n: "n < 32" "scast (cl_name_used (wmem w) c) = (of_nat n :: u64)"
    "used_name (wmem w) c = ld_bytes (wmem w) (cl_name c) n" using named_count[OF st] by metis
  note lb = literal_after[OF lits lay literals_in(7)]
  have "source P (cl_name c) n" using source_name[OF ok c] n(1) by simp
  from first_source[OF lay locals_in(4) this] n
  have 1: "c_nstring_in_slice (wmem w) (unsafe_slice (stk P ''session_close.msg'') (of_nat 532)) (cl_name c)
        (scast (cl_name_used (wmem w) c)) = built (wmem w) (stk P ''session_close.msg'') (used_name (wmem w) c)"
    by simp
  show "length (used_name (wmem w) c @ bytes_of left_msg) \<le> 532" using n by (simp add: length_left_msg)
  show "append_write write_nstring (unsafe_slice (stk P ''session_close.msg'') (of_nat 532))
      (lit P left_msg, of_nat (length left_msg))
      (c_nstring_in_slice (wmem w) (unsafe_slice (stk P ''session_close.msg'') (of_nat 532)) (cl_name c)
        (scast (cl_name_used (wmem w) c))) =
    built (wmem w) (stk P ''session_close.msg'') (used_name (wmem w) c @ bytes_of left_msg)"
    unfolding 1 lb(1)[symmetric]
    using n by (intro append_source[OF lay locals_in(4) lb(2) _ only_refl]) (simp add: length_left_msg)
qed

text \<open>
  The whole function: the farewell to the other clients, the closing of the descriptor, and the
  removal from the pool. Only the memory of the client, of the locals and of the links changes.
\<close>

lemma session_close_spec:
  assumes plat: "platform_ok P" and ok: "server_ok P (wmem w) s pls" and c: "c \<in> set (clients pls)"
  shows "\<exists>s' w' pls' cs. session_close P c s w = Inr (s', w') \<and> server_ok P (wmem w') s' pls' \<and>
    clients pls' = filter (\<lambda>d. d \<noteq> c) (clients pls) \<and>
    (\<forall>d. is_slot pls' d \<longrightarrow> d \<noteq> c \<longrightarrow> agree (span d 560) (wmem w) (wmem w')) \<and>
    trace w' = cs @ close_call (cl_fd (wmem w) c) # left_calls P (wmem w) c pls @ trace w \<and>
    only (scratch P \<union> pool_area pls) (wmem w) (wmem w') \<and> gave_up P c pls pls' cs"
proof -
  let ?m = "wmem w"
  have lay: "layout_ok P" and kern: "kernel_ok (kern P)" using plat by (simp_all add: platform_ok_def)
  have sc: "is_slot pls c" by (rule clients_slots[OF ok c])
  obtain q fs us where e: "(q, fs, us) \<in> set pls" "c \<in> set (slots q)" using client_pool[OF ok c] by metis
  have st: "stale_ok ?m c" using server_okD(3)[OF ok e(1)] e(2) by (simp add: clp_ok_def)
  define st0 where "st0 = c_nstring_in_slice ?m (unsafe_slice (stk P ''session_close.msg'') (of_nat 532))
    (cl_name c) (scast (cl_name_used ?m c))"
  define farewell where "farewell = (if cl_name_ok ?m c = 1 then
      let (i, m) = append_write write_nstring (unsafe_slice (stk P ''session_close.msg'') (of_nat 532))
            (lit P left_msg, of_nat (length left_msg)) st0
      in andthen (slice_right (unsafe_slice (stk P ''session_close.msg'') (of_nat 532)) i) (\<lambda>msg.
         session_send_all P (get_string msg) c s (w\<lparr>wmem := m\<rparr>))
    else Inr w)"
  have "\<exists>w1. farewell = Inr w1 \<and> only (scratch P) ?m (wmem w1) \<and> trace w1 = left_calls P ?m c pls @ trace w"
  proof (cases "cl_name_ok ?m c = 1")
    case True
    note lm = left_message[OF plat ok sc st True, folded st0_def]
    from send_built[OF plat ok locals_in(4) lm(2), of c] True
    have "farewell = Inr (w\<lparr>wmem := st_bytes ?m (stk P ''session_close.msg'') (used_name ?m c @ bytes_of left_msg),
        trace := left_calls P ?m c pls @ trace w\<rparr>)"
      by (simp add: farewell_def lm(1) split_def left_calls_def Let_def del: of_nat_numeral)
    moreover have "only (scratch P) ?m (st_bytes ?m (stk P ''session_close.msg'') (used_name ?m c @ bytes_of left_msg))"
      using built_only[OF locals_in(4) lm(2) only_refl] by (simp add: built_def)
    ultimately show ?thesis by simp
  qed (simp add: farewell_def left_calls_def)
  then obtain w1 where w1: "farewell = Inr w1" "only (scratch P) ?m (wmem w1)"
    "trace w1 = left_calls P ?m c pls @ trace w" by blast
  note sw = scratch_write[OF ok lay w1(2)]
  let ?w2 = "w1\<lparr>trace := close_call (cl_fd ?m c) # left_calls P ?m c pls @ trace w\<rparr>"
  have "cl_fd (wmem w1) c = cl_fd ?m c" by (rule client_agree(1)[OF sw(2)[OF sc]])
  then have close: "snd (sys_close P w1 (cl_fd (wmem w1) c)) = ?w2"
    using sys_close_world[OF kern, of w1 "cl_fd ?m c"] w1(3) by simp
  have "server_ok P (wmem ?w2) s pls" using sw(1) by simp
  then obtain s' w' pls' cs where r: "close_pools (n_pls s) P c s 0 ?w2 = Inr (s', w')"
    "removal_ok P c pls ?w2 s' w' pls' cs"
    using close_pools_spec[OF plat _ c] by blast
  have "session_close P c s w = andthen farewell (\<lambda>w. close_pools (n_pls s) P c s 0
      (snd (sys_close P w (cl_fd (wmem w) c))))"
    by (simp add: session_close_def farewell_def st0_def split_def Let_def max_line_len_def length_left_msg
        del: of_nat_numeral of_nat_add)
  then have "session_close P c s w = Inr (s', w')" using w1(1) close r(1) by simp
  moreover have "agree (span d 560) ?m (wmem w')" if d: "is_slot pls' d" "d \<noteq> c" for d
  proof -
    obtain r gs vs where "(r, gs, vs) \<in> set pls'" "d \<in> set (slots r)" using slot_entry[OF d(1)] .
    then have "r \<in> set (blocks pls')" by (auto simp: blocks_def rev_image_eqI)
    then have "r \<in> set (blocks pls)" using r(2) gave_up_blocks[of P c pls pls' cs]
      by (auto simp: removal_ok_def)
    then have "is_slot pls d" using \<open>d \<in> set (slots r)\<close> by (auto simp: is_slot_def)
    from agree_mono[OF sw(2)[OF this], of "span d 560"] client_part[of 0 560 d]
    have "agree (span d 560) ?m (wmem ?w2)" by simp
    moreover have "agree (span d 560) (wmem ?w2) (wmem w')" using r(2) d by (simp add: removal_ok_def)
    ultimately show ?thesis by (rule agree_trans)
  qed
  moreover have "only (scratch P \<union> pool_area pls) (wmem w) (wmem w')"
    using only_trans[OF only_mono[OF w1(2)], of "scratch P \<union> pool_area pls" "wmem w'"] r(2)
    by (simp add: removal_ok_def)
  ultimately show ?thesis using r(2) unfolding removal_ok_def
    by (intro exI[of _ s'] exI[of _ w'] exI[of _ pls'] exI[of _ cs]) simp
qed

end
