(* ===== verification/Opening.thy ===== *)
theory Opening
  imports Closing
begin

text \<open>
  Opening a session: a new pool of clients in fresh memory of the kernel, and a client taken from
  a pool. The kernel hands out addresses that the process does not use: \<open>mapped\<close> is what a
  history of calls leaves mapped.
\<close>

section \<open>Mapped memory\<close>

fun mapped :: "kernel \<Rightarrow> sys_call list \<Rightarrow> u64 set" where
  "mapped k [] = {}"
| "mapped k (c # h) =
     (if \<not> succeeded (k (c # h)) then mapped k h
      else if sc_nr c = s_mmap then mapped k h \<union> span (rax (k (c # h))) (unat (sc_args c ! 1))
      else if sc_nr c = s_munmap then mapped k h - span (sc_args c ! 0) (unat (sc_args c ! 1))
      else mapped k h)"

definition kernel_fresh :: "kernel \<Rightarrow> u64 set \<Rightarrow> bool" where
  "kernel_fresh k S \<longleftrightarrow> (\<forall>c h. sc_nr c = s_mmap \<longrightarrow> succeeded (k (c # h)) \<longrightarrow>
     span (rax (k (c # h))) (unat (sc_args c ! 1)) \<inter> (S \<union> mapped k h) = {})"

text \<open>Calls that neither unmap memory nor register a descriptor for events.\<close>

definition ordinary :: "sys_call \<Rightarrow> bool" where
  "ordinary c \<longleftrightarrow> sc_nr c \<noteq> s_munmap \<and> sc_nr c \<noteq> s_epoll_ctl"

definition harmless :: "sys_call list \<Rightarrow> bool" where
  "harmless cs \<longleftrightarrow> (\<forall>c \<in> set cs. ordinary c)"

lemma harmless_simps [simp]:
  "harmless []" "harmless (c # cs) \<longleftrightarrow> ordinary c \<and> harmless cs"
  "harmless (cs @ ds) \<longleftrightarrow> harmless cs \<and> harmless ds"
  by (auto simp: harmless_def)

lemma mapped_grows: "harmless cs \<Longrightarrow> mapped k h \<subseteq> mapped k (cs @ h)"
  by (induction cs) (auto simp: ordinary_def)

lemma harmless_calls [simp]:
  "ordinary (write_call fd buf bs)" "ordinary (close_call fd)" "ordinary (read_call fd buf n)"
  "ordinary (mmap_call args)" "ordinary (clock_call clk tp)" "ordinary (epoll_wait_call e ev k t)"
  by (simp_all add: ordinary_def call_defs syscall_numbers)

definition blocks_mapped :: "platform \<Rightarrow> pools \<Rightarrow> sys_call list \<Rightarrow> bool" where
  "blocks_mapped P pls h \<longleftrightarrow> pool_area pls \<subseteq> mapped (kern P) h"

lemma blocks_mapped_grows: "blocks_mapped P pls h \<Longrightarrow> harmless cs \<Longrightarrow> blocks_mapped P pls (cs @ h)"
  using mapped_grows[of cs "kern P" h] by (auto simp: blocks_mapped_def)

lemma mapped_unmap:
  "mapped k h - span a (unat n) \<subseteq> mapped k (unmap_call a n # h)"
  by (auto simp: unmap_call_def syscall_numbers)

text \<open>Giving up a pool unmaps only addresses of that pool.\<close>

lemma gave_up_mapped:
  assumes ok: "server_ok P m s pls" and b: "blocks_mapped P pls h" and g: "gave_up P c pls pls' cs"
  shows "blocks_mapped P pls' (cs @ h)"
proof -
  consider "cs = []" "blocks pls' = blocks pls"
    | A q B r where "blocks pls = A @ q # B" "blocks pls' = A @ B" "cs = r @ [unmap_call q page_size]"
      "harmless r"
    using g by (auto simp: gave_up_def blocks_def)
  then show ?thesis
  proof cases
    case 1
    then show ?thesis using b by (simp add: blocks_mapped_def pool_area_def)
  next
    case 2
    have ap: "blocks_apart (blocks pls)" using ok by (simp add: server_ok_def)
    have "span q (unat page_size) \<subseteq> pool_block q"
      unfolding pool_block_def by (rule span_mono) (simp add: page_size_def block_len_def)
    moreover have "pool_block x \<inter> pool_block q = {}" if "x \<in> set (A @ B)" for x
      using ap that unfolding 2(1) by (auto simp: blocks_apart_def)
    ultimately have "pool_area pls' \<subseteq> pool_area pls - span q (unat page_size)"
      unfolding pool_area_def 2(1,2) by auto
    also have "\<dots> \<subseteq> mapped (kern P) h - span q (unat page_size)" using b by (auto simp: blocks_mapped_def)
    also have "\<dots> \<subseteq> mapped (kern P) (unmap_call q page_size # h)" by (rule mapped_unmap)
    also have "\<dots> \<subseteq> mapped (kern P) (cs @ h)"
      using mapped_grows[OF 2(4), of "kern P" "unmap_call q page_size # h"] by (simp add: 2(3))
    finally show ?thesis by (simp add: blocks_mapped_def)
  qed
qed

section \<open>A new pool of clients\<close>

lemma align_forward_aligned: "8 dvd unat p \<Longrightarrow> align_forward p 8 = Inr p"
  using unat_and_pow2[of p 3]
  by (simp add: align_forward_def is_power_of_two_def word_unat_eq_iff mod_eq_0_iff_dvd)

text \<open>The two allocations of a new pool: its head at the start of the mapping, its chunks behind.\<close>

lemma new_clp_allocs:
  assumes "p \<noteq> 0" "4096 dvd unat p" "unat p + block_len \<le> 2 ^ 47"
  shows "\<exists>a1 a2. arena_alloc (arena_init p (of_nat block_len)) (of_nat sizeof_client_pool) = Inr (p, a1) \<and>
    arena_alloc a1 (of_nat pool_size) = Inr (p + 48, a2) \<and> p + 48 \<noteq> 0"
proof -
  have d: "8 dvd unat p" using assms(2) by (rule dvd_trans[rotated]) simp
  have u: "unat (p + 48) = unat p + 48" using assms(3) by (subst unat_plus_less) (simp_all add: layout_defs)
  then have "8 dvd unat (p + 48)" using d by simp
  then have al: "align_forward p 8 = Inr p" "align_forward (p + 48) 8 = Inr (p + 48)"
    using d by (simp_all add: align_forward_aligned)
  have "p + 48 \<noteq> 0" using u by auto
  with al show ?thesis
    by (simp add: arena_alloc_def arena_alloc_align_def arena_init_def default_alignment_def layout_defs Let_def)
qed

lemma page_round_pool: "page_round (of_nat (pool_size + sizeof_client_pool)) = of_nat block_len"
  by (simp add: page_round_def page_size_def layout_defs)

lemma pool_fits_clp:
  assumes "block_ok q"
  shows "pool_fits q (q + 48) (of_nat pool_size) (of_nat sizeof_client)"
proof -
  have u: "unat (q + 48) = unat q + 48"
    using assms by (subst unat_plus_less) (simp_all add: block_ok_def layout_defs)
  have "span q 32 \<inter> span (q + 48) 581064 = {}"
    by (rule disj_spans) (simp add: disj_def)
  then show ?thesis using u assms by (simp add: pool_fits_def block_ok_def layout_defs)
qed

text \<open>The contents of a new pool.\<close>

definition new_clp :: "u64 \<Rightarrow> mem \<Rightarrow> mem" where
  "new_clp q m =
    (let m = set_used_ch q 0 m;
         m = set_free_ch q (ucast (p_buf_len m q div p_chunk_size m q)) m
     in set_client q 0 m)"

lemma new_clp_only: "only (span (q + 32) 16) m (new_clp q m)"
  unfolding new_clp_def Let_def set_used_ch_def set_free_ch_def set_client_def
  using span_sub[of 0 4 16 "q + 32"] span_sub[of 4 4 16 "q + 32"] span_sub[of 8 8 16 "q + 32"]
  by (intro c64.only_st_in c32.only_st_in only_refl) (simp_all add: add.assoc)

lemma ld_zero: "ld32 (\<lambda>_. 0) a = 0" "ld64 (\<lambda>_. 0) a = 0"
  by (simp_all add: ld32_def ld64_def ld_bytes_def numeral_eq_Suc)

lemma ld_zero_area:
  "\<forall>x \<in> span a 4. m x = 0 \<Longrightarrow> ld32 m a = 0" "\<forall>x \<in> span a 8. m x = 0 \<Longrightarrow> ld64 m a = 0"
  using agree_ld32[of a "\<lambda>_. 0" m] agree_ld64[of a "\<lambda>_. 0" m] by (simp_all add: agree_def ld_zero)

lemma slot_zero:
  assumes q: "block_ok q" and c: "c \<in> set (slots q)" and k: "8 \<le> unat k" "unat k + n \<le> 568"
    and w: "only (span q 48 \<union> (\<Union>d \<in> set (slots q). link d)) m m'"
    and zero: "\<forall>x \<in> pool_block q. m x = 0"
  shows "\<forall>x \<in> span (c + k) n. m' x = 0"
proof
  fix x assume x: "x \<in> span (c + k) n"
  have "span (c + k) n \<subseteq> client_span c" by (rule client_part[OF k(2)])
  then have xc: "x \<in> client_span c" using x by auto
  have "x \<notin> span q 48" using client_span_head[OF q c] xc by auto
  moreover have "x \<notin> link d" if d: "d \<in> set (slots q)" for d
  proof (cases "d = c")
    case True
    have "unat c + 568 \<le> 2 ^ 47" by (rule slot_bounds(3)[OF q c])
    then have "unat c + unat k \<le> unat x" "x \<in> span c 8 \<longrightarrow> unat x < unat c + 8"
      using span_part[of c 568 k n x] span_part[of c 568 0 8 x] x k by auto
    then show ?thesis using k(1) True by (auto simp: link_def)
  next
    case False
    have "link d \<subseteq> client_span d" using client_part[of 0 8 d] by (simp add: link_def)
    then show ?thesis using client_spans_disjoint[OF q c d] False xc by auto
  qed
  ultimately have "m' x = m x" using w by (auto simp: only_def)
  then show "m' x = 0" using zero client_span_block[OF q c] xc by auto
qed

lemma ld32_st64_disj: "disj a 4 b 8 \<Longrightarrow> ld32 (st64 m b v) a = ld32 m a"
  by (rule c32.only_ld[OF c64.only_st]) (rule disj_spans)

lemma ld64_st32_disj: "disj a 8 b 4 \<Longrightarrow> ld64 (st32 m b v) a = ld64 m a"
  by (rule c64.only_ld[OF c32.only_st]) (rule disj_spans)

lemma new_pool_ok:
  assumes q: "block_ok q" and al: "8 dvd unat q" and zero: "\<forall>x \<in> pool_block q. m x = 0"
  shows "\<exists>m1. pool_init m q (q + 48) (of_nat pool_size) (of_nat sizeof_client) 8 = Inr m1 \<and>
    clp_ok (new_clp q m1) q (rev (slots q)) [] \<and> only (pool_block q) m (new_clp q m1) \<and>
    (\<forall>c \<in> set (slots q). cl_next (new_clp q m1) c = 0)"
proof -
  have u: "unat (q + 48) = unat q + 48"
    using q by (subst unat_plus_less) (simp_all add: block_ok_def layout_defs)
  have a: "8 dvd unat (q + 48)" "8 dvd unat (of_nat sizeof_client :: u64)"
    using al unfolding u by (simp_all add: layout_defs)
  obtain m1 where m1: "pool_init m q (q + 48) (of_nat pool_size) (of_nat sizeof_client) 8 = Inr m1"
    "pool_ok m1 q (rev (chunks m1 q))" "p_buf m1 q = q + 48" "p_buf_len m1 q = of_nat pool_size"
    "p_chunk_size m1 q = of_nat sizeof_client" "only (span q 32 \<union> links m1 q) m m1"
    using pool_init_ok[OF pool_fits_clp[OF q] a, of m] by blast
  have ch: "chunks m1 q = slots q" by (rule chunks_slots[OF m1(3-5)])
  let ?m = "new_clp q m1" and ?L = "\<Union>d \<in> set (slots q). link d"
  have l: "link d \<subseteq> pool_block q" "link d \<inter> span q 48 = {}" if "d \<in> set (slots q)" for d
    using client_span_block[OF q that] client_span_head[OF q that] client_part[of 0 8 d]
    by (auto simp: link_def)
  have o1: "only (span q 48 \<union> ?L) m m1"
    using span_mono[of 32 48 q] by (intro only_mono[OF m1(6)]) (auto simp: links_def ch)
  have s: "span (q + 32) 16 \<subseteq> span q 48" by (rule span_sub) simp_all
  have o: "only (span q 48 \<union> ?L) m ?m" by (rule only_trans[OF o1 only_mono[OF new_clp_only]]) (use s in auto)
  have "span q 32 \<inter> span (q + 32) 16 = {}" by (rule disj_spans) (simp add: disj_def)
  then have h: "agree (span q 32) m1 ?m" by (rule only_agree[OF new_clp_only])
  have "agree (link f) m1 ?m" if "f \<in> set (rev (chunks m1 q))" for f
    using l(2)[of f] that s by (intro only_agree[OF new_clp_only]) (auto simp: ch)
  note p = pool_ok_agree[OF m1(2) h this]
  have nx: "cl_next ?m c = 0" if "c \<in> set (slots q)" for c
    unfolding cl_next_def by (rule ld_zero_area(2)) (rule slot_zero[OF q that _ _ o zero], simp_all)
  have "cl_name_ok ?m c = 0" if "c \<in> set (slots q)" for c
    unfolding cl_name_ok_def by (rule ld_zero_area(1)) (rule slot_zero[OF q that _ _ o zero], simp_all)
  then have stale: "\<forall>c \<in> set (slots q). stale_ok ?m c" by (simp add: stale_ok_def)
  have fields: "clp_used_ch ?m q = 0" "clp_client ?m q = 0" "clp_free_ch ?m q = 1023"
    using m1(4,5) by (simp_all add: new_clp_def clp_used_ch_def clp_client_def clp_free_ch_def set_used_ch_def
        p_buf_len_def p_chunk_size_def set_free_ch_def set_client_def ld_st_same c32.ld_st_disj c64.ld_st_disj ld32_st64_disj ld64_st32_disj disj_def Let_def layout_defs)
  show ?thesis
  proof (intro exI[of _ m1] conjI m1(1))
    show "clp_ok ?m q (rev (slots q)) []"
      using p m1(3-5) fields stale distinct_slots[OF q] unfolding clp_ok_def
      by (simp add: same_pool_def ch)
    show "only (pool_block q) m ?m"
      using head_block[OF q] l(1) by (intro only_mono[OF o]) auto
  qed (use nx in simp)
qed

text \<open>
  The kernel gives the process addresses that it does not use already; the memory for a pool is
  therefore apart from the other pools and from the variables and literals of the program.
\<close>

lemma no_pools [simp]: "clients [] = []" "blocks [] = []"
  by (simp_all add: clients_def blocks_def)

lemma server_ok_extend:
  assumes ok: "server_ok P m s pls" and len: "length pls < max_pools" and q: "block_ok q"
    and apart: "pool_block q \<inter> (statics P \<union> pool_area pls) = {}" and w: "only (pool_block q) m m'"
    and new: "clp_ok m' q fs us"
  shows "server_ok P m' (s\<lparr>first_clp := (first_clp s)[n_pls s := q], n_pls := n_pls s + 1\<rparr>) (pls @ [(q, fs, us)])"
proof -
  have n: "n_pls s = length pls" "length (first_clp s) = max_pools" "take (length pls) (first_clp s) = blocks pls"
    using ok by (simp_all add: server_ok_def)
  have "take (Suc (length pls)) ((first_clp s)[length pls := q]) = blocks pls @ [q]"
    using n(2,3) len by (simp add: take_Suc_conv_app_nth)
  moreover have "literals_ok P m'"
  proof (rule literals_ok_frame[OF _ w])
    show "literals_ok P m" using ok by (simp add: server_ok_def)
    show "rodata P \<inter> pool_block q = {}" using apart by (auto simp: statics_def)
  qed
  moreover have "q \<notin> set (blocks pls)"
  proof
    assume "q \<in> set (blocks pls)"
    then have "pool_block q \<subseteq> pool_area pls" by (auto simp: pool_area_def)
    moreover have "q \<in> pool_block q" by (simp add: pool_block_def span_def block_len_def)
    ultimately show False using apart by auto
  qed
  moreover have "pool_block r \<inter> pool_block q = {}" if "r \<in> set (blocks pls)" for r
    using apart that by (auto simp: pool_area_def)
  ultimately have "blocks_apart (blocks pls @ [q])"
    "take (Suc (length pls)) ((first_clp s)[length pls := q]) = blocks pls @ [q]" "literals_ok P m'"
    using ok by (auto simp: server_ok_def blocks_apart_def)
  moreover have "clp_ok m' r gs vs" if e: "(r, gs, vs) \<in> set pls" for r gs vs
  proof -
    have "pool_block r \<inter> pool_block q = {}"
      using apart server_okD(4)[OF ok e] by (auto simp: pool_area_def)
    from clp_ok_block[OF server_okD(1,3)[OF ok e] only_agree[OF w this]] show ?thesis .
  qed
  ultimately show ?thesis
    using ok n len q apart new by (auto simp: server_ok_def)
qed

definition pool_map_call :: sys_call where
  "pool_map_call = mmap_call [0, of_nat block_len, prot_read_write, map_private_anonymous, -1, 0]"

lemma session_new_clp_spec:
  assumes plat: "platform_ok P" and fresh: "kernel_fresh (kern P) (statics P)"
    and ok: "server_ok P (wmem w) s pls" and maps: "blocks_mapped P pls (trace w)"
    and len: "length pls < max_pools"
  obtains "session_new_clp P s w = Inl (Exited 1)" "\<not> succeeded (kern P (pool_map_call # trace w))"
  | q s' w' where "session_new_clp P s w = Inr (s', w')"
    "s' = s\<lparr>first_clp := (first_clp s)[n_pls s := q], n_pls := n_pls s + 1\<rparr>"
    "server_ok P (wmem w') s' (pls @ [(q, rev (slots q), [])])"
    "blocks_mapped P (pls @ [(q, rev (slots q), [])]) (trace w')"
    "only (pool_block q) (wmem w) (wmem w')" "pool_block q \<inter> (statics P \<union> pool_area pls) = {}"
    "\<forall>c \<in> set (slots q). cl_next (wmem w') c = 0" "trace w' = pool_map_call # trace w"
proof -
  have k: "kernel_ok (kern P)" "layout_ok P" using plat by (simp_all add: platform_ok_def)
  have "literals_ok P (wmem w)" using ok by (simp add: server_ok_def)
  from literal_fmt[OF this k(2) literals_in(14) format_args(15)]
  have fmt: "fmt_ok P (wmem w) arena_create_format 1" .
  note pr = page_round_pool
  show ?thesis
  proof (cases rule: arena_create_cases[OF k(1) fmt, of "of_nat (pool_size + sizeof_client_pool)"])
    case 1
    then show ?thesis
      by (intro that(1)) (simp_all add: session_new_clp_def pool_map_call_def pr del: of_nat_add of_nat_numeral)
  next
    case (2 q)
    note c = 2[unfolded pr, folded pool_map_call_def]
    have u: "unat (of_nat block_len :: u64) = block_len" by (simp add: layout_defs)
    have q: "block_ok q" using c(2,4) by (simp add: block_ok_def u)
    let ?m = "st_bytes (wmem w) q (replicate block_len 0)"
    have fr: "pool_block q \<inter> (statics P \<union> mapped (kern P) (trace w)) = {}"
    proof -
      have "sc_nr pool_map_call = s_mmap" "sc_args pool_map_call ! 1 = of_nat block_len"
        by (simp_all add: pool_map_call_def mmap_call_def)
      with fresh c(5,6) have "span q (unat (of_nat block_len :: u64)) \<inter>
          (statics P \<union> mapped (kern P) (trace w)) = {}"
        unfolding kernel_fresh_def by metis
      then show ?thesis unfolding u pool_block_def .
    qed
    then have apart: "pool_block q \<inter> (statics P \<union> pool_area pls) = {}"
      using maps by (auto simp: blocks_mapped_def)
    obtain a1 a2 where al: "arena_alloc (arena_init q (of_nat block_len)) (of_nat sizeof_client_pool) = Inr (q, a1)"
      "arena_alloc a1 (of_nat pool_size) = Inr (q + 48, a2)" "q + 48 \<noteq> 0"
      using new_clp_allocs[OF c(2,3)] c(4) u by auto
    have "8 dvd unat q" using c(3) by (rule dvd_trans[rotated]) simp
    moreover have "\<forall>x \<in> pool_block q. ?m x = 0"
      by (simp add: pool_block_def span_def st_bytes_def)
    ultimately obtain m1 where m1: "pool_init ?m q (q + 48) (of_nat pool_size) (of_nat sizeof_client) 8 = Inr m1"
      "clp_ok (new_clp q m1) q (rev (slots q)) []" "only (pool_block q) ?m (new_clp q m1)"
      "\<forall>c \<in> set (slots q). cl_next (new_clp q m1) c = 0"
      using new_pool_ok[OF q] by blast
    have "only (pool_block q) (wmem w) ?m"
      using only_st_bytes[of q "replicate block_len 0" "wmem w"] by (simp add: pool_block_def)
    then have o: "only (pool_block q) (wmem w) (new_clp q m1)" using m1(3) by (rule only_trans)
    let ?s = "s\<lparr>first_clp := (first_clp s)[n_pls s := q], n_pls := n_pls s + 1\<rparr>"
    let ?w = "w\<lparr>wmem := new_clp q m1, trace := pool_map_call # trace w\<rparr>"
    have "n_pls s < length (first_clp s)" using ok len by (simp add: server_ok_def)
    then have run: "session_new_clp P s w = Inr (?s, ?w)"
      using c(1,2) al m1(1) u by (simp add: session_new_clp_def new_clp_def Let_def
          del: of_nat_add of_nat_numeral)
    have "pool_area pls \<union> pool_block q \<subseteq> mapped (kern P) (pool_map_call # trace w)"
      using maps c(5,6) u by (auto simp: blocks_mapped_def pool_map_call_def mmap_call_def pool_block_def)
    then have "blocks_mapped P (pls @ [(q, rev (slots q), [])]) (trace ?w)"
      by (auto simp: blocks_mapped_def pool_area_def)
    with that(2)[OF run refl _ _ _ apart] server_ok_extend[OF ok len q apart o m1(2)] o m1(4)
    show ?thesis by simp
  qed
qed

section \<open>Taking a client from a pool\<close>

lemma next_apart:
  assumes q: "block_ok q" and c: "c \<in> set (slots q)"
  shows "span (c + 560) 8 \<inter> span q 48 = {}"
    and "d \<in> set (slots q) \<Longrightarrow> span (c + 560) 8 \<inter> span d 560 = {}"
    and "d \<in> set (slots q) \<Longrightarrow> d \<noteq> c \<Longrightarrow> span (c + 560) 8 \<inter> client_span d = {}"
proof -
  have s: "span (c + 560) 8 \<subseteq> client_span c" by (rule client_part) simp
  show "span (c + 560) 8 \<inter> span q 48 = {}" using client_span_head[OF q c] s by blast
  show *: "span (c + 560) 8 \<inter> client_span d = {}" if "d \<in> set (slots q)" "d \<noteq> c" for d
    using client_spans_disjoint[OF q c that(1)] that(2) s by blast
  show "span (c + 560) 8 \<inter> span d 560 = {}" if "d \<in> set (slots q)"
  proof (cases "d = c")
    case True
    show ?thesis unfolding True by (rule disj_spans) (simp add: disj_def)
  next
    case False
    then show ?thesis using *[OF that] client_part[of 0 560 d] by auto
  qed
qed

text \<open>What the code does to the pool after popping a chunk, in either order of its stores.\<close>

lemma taken_pool:
  assumes q: "block_ok q" and ok: "clp_ok m q (c # fs) us"
    and w: "only (span (q + 32) 16 \<union> span (c + 560) 8) (st64 m (q + 24) (ld64 m c)) m'"
    and client: "clp_client m' q = c" "cl_next m' c = clp_client m q"
    and counts: "clp_free_ch m' q = clp_free_ch m q - 1" "clp_used_ch m' q = clp_used_ch m q + 1"
  shows "clp_ok m' q fs (c # us)" and "only (span (q + 24) 24 \<union> span (c + 560) 8) m m'"
    and "only (pool_block q) m m'"
    and "d \<in> set (slots q) \<Longrightarrow> d \<noteq> c \<Longrightarrow> agree (client_span d) m m'"
    and "d \<in> set (slots q) \<Longrightarrow> agree (span d 560) m m'"
proof -
  let ?m1 = "st64 m (q + 24) (ld64 m c)"
  note D = ok[unfolded clp_ok_def]
  have c: "c \<in> set (slots q)" "c \<notin> set us" "c \<notin> set fs" using D by auto
  have fs: "set fs \<subseteq> set (slots q)" "set us \<subseteq> set (slots q)" using D by auto
  have sub: "span (q + 24) 8 \<subseteq> span (q + 24) 24" "span (q + 32) 16 \<subseteq> span (q + 24) 24"
    "span (q + 24) 24 \<subseteq> span q 48"
    using span_sub[of 0 8 24 "q + 24"] span_sub[of 8 16 24 "q + 24"] span_sub[of 24 24 48 q]
    by (simp_all add: add.assoc)
  have "only (span (q + 24) 24 \<union> span (c + 560) 8) m ?m1"
    using sub by (intro c64.only_st_in only_refl) auto
  then show o: "only (span (q + 24) 24 \<union> span (c + 560) 8) m m'"
    by (rule only_trans) (rule only_mono[OF w], use sub in auto)
  note na = next_apart[OF q c(1)]
  have cs: "span (c + 560) 8 \<subseteq> client_span c" by (rule client_part) simp
  show "only (pool_block q) m m'"
    using sub head_block[OF q] cs client_span_block[OF q c(1)] by (intro only_mono[OF o]) blast
  have hd: "span (q + 24) 24 \<inter> client_span d = {}" if "d \<in> set (slots q)" for d
    using client_span_head[OF q that] sub by blast
  show others: "agree (client_span d) m m'" if "d \<in> set (slots q)" "d \<noteq> c" for d
    using na(3)[OF that] hd[OF that(1)] by (intro only_agree[OF o]) blast
  show body: "agree (span d 560) m m'" if "d \<in> set (slots q)" for d
    using na(2)[OF that] hd[OF that] client_part[of 0 560 d] by (intro only_agree[OF o]) auto
  have pop: "pool_ok ?m1 q fs" "same_pool m ?m1 q" using pool_pop_ok[of m q c fs] D by simp_all
  have "span q 32 \<inter> span (q + 32) 16 = {}" by (rule disj_spans) (simp add: disj_def)
  then have "agree (span q 32) ?m1 m'"
    using na(1) span_mono[of 32 48 q] by (intro only_agree[OF w]) auto
  moreover have "agree (link f) ?m1 m'" if f: "f \<in> set fs" for f
  proof (rule only_agree[OF w])
    have "f \<in> set (slots q)" "f \<noteq> c" using f fs c by auto
    from na(3)[OF this] hd[OF this(1)] sub(2) client_part[of 0 8 f]
    show "link f \<inter> (span (q + 32) 16 \<union> span (c + 560) 8) = {}" by (auto simp: link_def)
  qed
  ultimately have p: "pool_ok m' q fs" "same_pool ?m1 m' q"
    using pool_ok_agree[OF pop(1)] by blast+
  have same: "same_pool m m' q" by (rule same_pool_trans[OF pop(2) p(2)])
  have nxt: "cl_next m' u = cl_next m u" if "u \<in> set us" for u
    using client_agree(5)[OF others] fs(2) that c(2) by blast
  have "chain (cl_next m') (clp_client m q) us = chain (cl_next m) (clp_client m q) us"
    by (rule chain_cong) (rule nxt)
  then have "chain (cl_next m') (clp_client m' q) (c # us)"
    using D client slot_nonnull[OF q c(1)] by simp
  moreover have "stale_ok m' d" if d: "d \<in> set (slots q)" for d
  proof -
    have "agree (span (d + 520) 40) m m'" using agree_mono[OF body[OF d] span_sub[of 520 40 560 d]] by simp
    moreover have "stale_ok m d" using D d by simp
    ultimately show ?thesis using stale_agree by blast
  qed
  moreover have "clp_free_ch m' q = of_nat (length fs)" "clp_used_ch m' q = of_nat (length (c # us))"
    using D counts by (simp_all add: add.commute)
  ultimately show "clp_ok m' q fs (c # us)"
    using D p(1) same unfolding clp_ok_def by (auto simp: same_pool_def)
qed

lemma take_client_ok:
  assumes q: "block_ok q" and ok: "clp_ok (wmem w) q (c # fs) us"
    and new: "fresh \<Longrightarrow> us = [] \<and> cl_next (wmem w) c = 0"
  obtains m' where "take_client P fresh q w = Inr (c, w\<lparr>wmem := m'\<rparr>)"
    "clp_ok m' q fs (c # us)" "only (pool_block q) (wmem w) m'"
    "\<And>d. d \<in> set (slots q) \<Longrightarrow> d \<noteq> c \<Longrightarrow> agree (client_span d) (wmem w) m'"
proof -
  let ?m = "wmem w"
  let ?m1 = "st64 ?m (q + 24) (ld64 ?m c)"
  define m2 where "m2 = set_used_ch q (clp_used_ch ?m q + 1) (set_free_ch q (clp_free_ch ?m q - 1) ?m1)"
  define m' where "m' = (if fresh
    then set_used_ch q (clp_used_ch ?m q + 1) (set_free_ch q (clp_free_ch ?m q - 1) (set_client q c ?m1))
    else set_client q c (set_next c (clp_client ?m q) m2))"
  have D: "pool_ok ?m q (c # fs)" "c \<in> set (slots q)" "chain (cl_next ?m) (clp_client ?m q) us"
    using ok by (auto simp: clp_ok_def)
  have c0: "c \<noteq> 0" by (rule slot_nonnull[OF q D(2)])
  note get = pool_get_Cons[OF D(1), of P]
  note f = clp_free_ch_def clp_used_ch_def clp_client_def set_free_ch_def set_used_ch_def set_client_def
  note ld = ld_st_same c32.ld_st_disj c64.ld_st_disj ld32_st64_disj ld64_st32_disj disj_def
  have m1: "clp_free_ch ?m1 q = clp_free_ch ?m q" "clp_used_ch ?m1 q = clp_used_ch ?m q"
    "clp_client ?m1 q = clp_client ?m q" "clp_client m2 q = clp_client ?m q"
    "clp_used_ch (set_free_ch q x ?m1) q = clp_used_ch ?m q"
    "clp_free_ch (set_client q c ?m1) q = clp_free_ch ?m q"
    "clp_used_ch (set_free_ch q x (set_client q c ?m1)) q = clp_used_ch ?m q" for x
    by (simp_all add: m2_def f ld)
  have run: "take_client P fresh q w = Inr (c, w\<lparr>wmem := m'\<rparr>)"
    by (simp add: take_client_def get on_mem_def m1 m2_def[symmetric] m'_def c0 Let_def)
  have na: "span (c + 560) 8 \<inter> span q 48 = {}" by (rule next_apart(1)[OF q D(2)])
  have hd: "span (q + 32) 4 \<subseteq> span q 48" "span (q + 36) 4 \<subseteq> span q 48" "span (q + 40) 8 \<subseteq> span q 48"
    using span_sub[of 32 4 48 q] span_sub[of 36 4 48 q] span_sub[of 40 8 48 q] by simp_all
  have hs: "span (q + 32) 4 \<subseteq> span (q + 32) 16" "span (q + 36) 4 \<subseteq> span (q + 32) 16"
    "span (q + 40) 8 \<subseteq> span (q + 32) 16"
    using span_sub[of 0 4 16 "q + 32"] span_sub[of 4 4 16 "q + 32"] span_sub[of 8 8 16 "q + 32"]
    by (simp_all add: add.assoc)
  have o: "only (span (q + 32) 16 \<union> span (c + 560) 8) ?m1 m'"
  proof (cases fresh)
    case True
    then show ?thesis
      unfolding m'_def set_used_ch_def set_free_ch_def set_client_def if_P[OF True]
      by (intro c32.only_st_in[OF c32.only_st_in[OF c64.only_st_in[OF only_refl]]]) (use hs in auto)
  next
    case False
    then show ?thesis
      unfolding m'_def m2_def set_used_ch_def set_free_ch_def set_client_def set_next_def if_not_P[OF False]
      by (intro c64.only_st_in[OF c64.only_st_in[OF c32.only_st_in[OF c32.only_st_in[OF only_refl]]]])
        (use hs in auto)
  qed
  have client: "clp_client m' q = c" by (simp add: m'_def m2_def f ld)
  have counts: "clp_free_ch m' q = clp_free_ch ?m q - 1" "clp_used_ch m' q = clp_used_ch ?m q + 1"
  proof -
    have "ld32 (set_next c v x) a = ld32 x a" if "span a 4 \<subseteq> span q 48" for v x a
      unfolding set_next_def using na that by (intro c32.only_ld[OF c64.only_st]) blast
    then show "clp_free_ch m' q = clp_free_ch ?m q - 1" "clp_used_ch m' q = clp_used_ch ?m q + 1"
      using hd by (simp_all add: m'_def m2_def f ld)
  qed
  have nxt: "cl_next m' c = clp_client ?m q"
  proof (cases fresh)
    case True
    have "clp_client ?m q = 0" using new[OF True] D(3) by simp
    moreover have "cl_next m' c = cl_next ?m c"
      unfolding cl_next_def
    proof (rule c64.only_ld)
      show "only (span q 48) ?m m'"
        unfolding m'_def using True hd span_sub[of 24 8 48 q]
        by (simp add: set_used_ch_def set_free_ch_def set_client_def)
          (intro c32.only_st_in c64.only_st_in only_refl, simp_all)
    qed (rule na)
    ultimately show ?thesis using new[OF True] by simp
  next
    case False
    have "span (c + 560) 8 \<inter> span (q + 40) 8 = {}" using na hd(3) by blast
    then have "cl_next m' c = cl_next (set_next c (clp_client ?m q) m2) c"
      using False unfolding m'_def cl_next_def set_client_def by (simp add: c64.only_ld[OF c64.only_st])
    then show ?thesis by (simp add: cl_next_def set_next_def c64.ld_st_same)
  qed
  note T = taken_pool[OF q ok o client nxt counts]
  show ?thesis by (rule that[OF run T(1,3) T(4)])
qed

section \<open>A new session\<close>

lemma free_count:
  assumes "server_ok P m s pls" and "(q, fs, us) \<in> set pls"
  shows "0 < sint (clp_free_ch m q) \<longleftrightarrow> fs \<noteq> []"
proof -
  have "clp_free_ch m q = of_nat (length fs)" using server_okD(3)[OF assms] by (simp add: clp_ok_def)
  moreover have "length fs < 2 ^ 31" using pool_length(2)[OF assms] by simp
  ultimately show ?thesis using sint_of_nat32[of "length fs"] by simp
qed

lemma find_free_cases:
  assumes ok: "server_ok P m s pls"
  shows "i + k = length pls \<Longrightarrow>
    find_free k m s i = Inr None \<and> (\<forall>j q fs us. i \<le> j \<longrightarrow> j < length pls \<longrightarrow> pls ! j = (q, fs, us) \<longrightarrow> fs = []) \<or>
    (\<exists>A q f fs us B. pls = A @ (q, f # fs, us) # B \<and> find_free k m s i = Inr (Some q))"
proof (induction k arbitrary: i)
  case (Suc k)
  have i: "i < length pls" using Suc.prems by simp
  obtain q fs us where e: "pls ! i = (q, fs, us)" by (cases "pls ! i") auto
  then have mem: "(q, fs, us) \<in> set pls" using nth_mem[OF i] by simp
  have at: "pool_at s i = Inr q" using pool_at_block[OF ok i] e by simp
  show ?case
  proof (cases fs)
    case Nil
    have step: "find_free (Suc k) m s i = find_free k m s (Suc i)"
      using free_count[OF ok mem] at Nil by simp
    have head: "r = q \<and> fs' = fs \<and> us' = us" if "pls ! i = (r, fs', us')" for r fs' us'
      using that e by simp
    from Suc.IH[of "Suc i"] Suc.prems consider
      "find_free k m s (Suc i) = Inr None"
        "\<forall>j q fs us. Suc i \<le> j \<longrightarrow> j < length pls \<longrightarrow> pls ! j = (q, fs, us) \<longrightarrow> fs = []"
      | "\<exists>A q f fs us B. pls = A @ (q, f # fs, us) # B \<and> find_free k m s (Suc i) = Inr (Some q)"
      by (metis add_Suc_shift)
    then show ?thesis
    proof cases
      case 1
      have "fs' = []" if "i \<le> j" "j < length pls" "pls ! j = (r, fs', us')" for j r fs' us'
      proof (cases "i = j")
        case True
        then show ?thesis using head that(3) Nil by simp
      next
        case False
        then show ?thesis using 1(2) that by (meson Suc_leI le_neq_implies_less)
      qed
      then show ?thesis using 1(1) step by auto
    next
      case 2
      then show ?thesis unfolding step by blast
    qed
  next
    case (Cons f fs')
    obtain A B where "pls = A @ (q, f # fs', us) # B" using split_list[OF mem] Cons by auto
    moreover have "find_free (Suc k) m s i = Inr (Some q)" using free_count[OF ok mem] at Cons by simp
    ultimately show ?thesis by blast
  qed
qed simp

text \<open>The state between the handlers: the memory, the kernel's mappings, the clients' counters.\<close>

definition state_ok :: "platform \<Rightarrow> world \<Rightarrow> server \<Rightarrow> pools \<Rightarrow> bool" where
  "state_ok P w s pls \<longleftrightarrow> server_ok P (wmem w) s pls \<and> blocks_mapped P pls (trace w)"

text \<open>What opening a session keeps: the other clients, and the variables and literals.\<close>

definition opened :: "platform \<Rightarrow> u64 \<Rightarrow> pools \<Rightarrow> world \<Rightarrow> server \<Rightarrow> world \<Rightarrow> pools \<Rightarrow> bool" where
  "opened P c pls w s' w' pls' \<longleftrightarrow> state_ok P w' s' pls' \<and> c \<noteq> 0 \<and> c \<notin> set (clients pls) \<and>
     set (clients pls') = insert c (set (clients pls)) \<and>
     (\<forall>d \<in> set (clients pls). agree (client_span d) (wmem w) (wmem w')) \<and>
     agree (statics P) (wmem w) (wmem w') \<and> (\<exists>cs. harmless cs \<and> trace w' = cs @ trace w)"

lemma open_from_pool:
  assumes ok: "server_ok P (wmem w) s (A @ (q, c # fs, us) # B)" and new: "fresh \<Longrightarrow> us = [] \<and> cl_next (wmem w) c = 0"
  obtains m' where "take_client P fresh q w = Inr (c, w\<lparr>wmem := m'\<rparr>)"
    "server_ok P m' s (A @ (q, fs, c # us) # B)" "c \<noteq> 0" "c \<notin> set (clients (A @ (q, c # fs, us) # B))"
    "\<And>d. d \<in> set (clients (A @ (q, c # fs, us) # B)) \<Longrightarrow> agree (client_span d) (wmem w) m'"
    "only (pool_block q) (wmem w) m'"
proof -
  let ?pls = "A @ (q, c # fs, us) # B"
  have e: "(q, c # fs, us) \<in> set ?pls" by simp
  note D = server_okD[OF ok e]
  obtain m' where t: "take_client P fresh q w = Inr (c, w\<lparr>wmem := m'\<rparr>)"
    "clp_ok m' q fs (c # us)" "only (pool_block q) (wmem w) m'"
    "\<And>d. d \<in> set (slots q) \<Longrightarrow> d \<noteq> c \<Longrightarrow> agree (client_span d) (wmem w) m'"
    by (rule take_client_ok[OF D(1,3) new, where P = P]) auto
  have c: "c \<in> set (slots q)" "c \<notin> set us" using D(6,7) by auto
  have out: "c \<notin> set (clients ?pls)" using client_elsewhere[OF ok c(1)] c(2) by simp
  have keep: "agree (client_span d) (wmem w) m'" if d: "d \<in> set (clients ?pls)" for d
  proof (cases "d \<in> set (slots q)")
    case True
    then show ?thesis using t(4) out d by metis
  next
    case False
    obtain r gs vs where r: "(r, gs, vs) \<in> set ?pls" "d \<in> set (slots r)" "block_ok r"
      using client_pool[OF ok d] by metis
    with False have "(r, gs, vs) \<in> set (A @ B)" by auto
    from block_write(2)[OF ok t(3) this] client_span_block[OF r(3,2)] show ?thesis
      by (auto intro: agree_mono)
  qed
  show ?thesis
    by (rule that[OF t(1) server_ok_replace[OF ok t(3,2)] slot_nonnull[OF D(1) c(1)] out keep t(3)])
qed

lemma session_new_spec:
  assumes plat: "platform_ok P" and fresh: "kernel_fresh (kern P) (statics P)"
    and st: "state_ok P w s pls"
  obtains "session_new P s w = Inl (Exited 1)" "\<not> succeeded (kern P (pool_map_call # trace w))"
    "\<forall>(q, fs, us) \<in> set pls. fs = []"
  | "session_new P s w = Inr (0, s, w)" "length pls = max_pools" "\<forall>(q, fs, us) \<in> set pls. fs = []"
  | c s' w' pls' where "session_new P s w = Inr (c, s', w')" "opened P c pls w s' w' pls'"
    "s' = s \<and> trace w' = trace w \<or> trace w' = pool_map_call # trace w \<and> (\<forall>(q, fs, us) \<in> set pls. fs = [])"
proof -
  have ok: "server_ok P (wmem w) s pls" and maps: "blocks_mapped P pls (trace w)"
    using st by (simp_all add: state_ok_def)
  have n: "n_pls s = length pls" "length pls \<le> max_pools" using ok by (simp_all add: server_ok_def)
  consider "find_free (n_pls s) (wmem w) s 0 = Inr None" "\<forall>(q, fs, us) \<in> set pls. fs = []"
    | A q f fs us B where "pls = A @ (q, f # fs, us) # B" "find_free (n_pls s) (wmem w) s 0 = Inr (Some q)"
    using find_free_cases[OF ok, of 0 "n_pls s"] n(1) by (fastforce simp: in_set_conv_nth)
  then show ?thesis
  proof cases
    case (2 A q c fs us B)
    note pls = 2(1)
    obtain m' where t: "take_client P False q w = Inr (c, w\<lparr>wmem := m'\<rparr>)"
      "server_ok P m' s (A @ (q, fs, c # us) # B)" "c \<noteq> 0" "c \<notin> set (clients pls)"
      "\<And>d. d \<in> set (clients pls) \<Longrightarrow> agree (client_span d) (wmem w) m'" "only (pool_block q) (wmem w) m'"
      using open_from_pool[OF ok[unfolded pls], where fresh = False, folded pls] by auto
    have "(q, c # fs, us) \<in> set pls" by (simp add: pls)
    from server_okD(2)[OF ok this] have "agree (statics P) (wmem w) m'"
      by (intro only_agree[OF t(6)]) auto
    moreover have "blocks_mapped P (A @ (q, fs, c # us) # B) (trace w)"
      using maps by (simp add: pls blocks_mapped_def pool_area_def)
    ultimately have "opened P c pls w s (w\<lparr>wmem := m'\<rparr>) (A @ (q, fs, c # us) # B)"
      using t(2-5) by (simp add: opened_def state_ok_def pls exI[of _ "[]"])
    moreover have "session_new P s w = Inr (c, s, w\<lparr>wmem := m'\<rparr>)" using 2(2) t(1) by (simp add: session_new_def)
    moreover have "trace (w\<lparr>wmem := m'\<rparr>) = trace w" by simp
    ultimately show ?thesis using that(3) by blast
  next
    case 1
    note full = 1(2)
    show ?thesis
    proof (cases "length pls = max_pools")
      case True
      then show ?thesis using that(2) 1 n(1) by (simp add: session_new_def)
    next
      case False
      then have len: "length pls < max_pools" using n(2) by simp
      show ?thesis
      proof (cases rule: session_new_clp_spec[OF plat fresh ok maps len])
        case 1
        have "session_new P s w = Inl (Exited 1)"
          using 1(1) \<open>find_free _ _ _ _ = _\<close> n(1) len by (simp add: session_new_def)
        then show ?thesis by (rule that(1)) (use 1(2) full in blast)+
      next
        case (2 q s1 w1)
        note clp = 2
        obtain c fs where cf: "rev (slots q) = c # fs" by (cases "rev (slots q)") (simp_all add: slots_def layout_defs)
        then have c: "c \<in> set (slots q)" by (metis list.set_intros(1) set_rev)
        note ok1 = clp(3)[unfolded cf]
        obtain m' where t: "take_client P True q w1 = Inr (c, w1\<lparr>wmem := m'\<rparr>)"
          "server_ok P m' s1 (pls @ [(q, fs, [c])])" "c \<noteq> 0" "c \<notin> set (clients pls)"
          "\<And>d. d \<in> set (clients pls) \<Longrightarrow> agree (client_span d) (wmem w1) m'" "only (pool_block q) (wmem w1) m'"
          using open_from_pool[OF ok1, where fresh = True] clp(7) c by auto
        have o: "only (pool_block q) (wmem w) m'" by (rule only_trans[OF clp(5) t(6)])
        have "agree (client_span d) (wmem w) m'" if d: "d \<in> set (clients pls)" for d
        proof -
          obtain r where "r \<in> set (blocks pls)" "client_span d \<subseteq> pool_block r"
            using slot_block[OF ok clients_slots[OF ok d]] by metis
          then show ?thesis using clp(6) by (intro only_agree[OF o]) (auto simp: pool_area_def)
        qed
        moreover have "agree (statics P) (wmem w) m'" using clp(6) by (intro only_agree[OF o]) auto
        moreover have "blocks_mapped P (pls @ [(q, fs, [c])]) (trace w1)"
          using clp(4) by (simp add: blocks_mapped_def pool_area_def)
        ultimately have op: "opened P c pls w s1 (w1\<lparr>wmem := m'\<rparr>) (pls @ [(q, fs, [c])])"
          using t(2-4) clp(8) by (auto simp: opened_def state_ok_def pool_map_call_def intro: exI[of _ "[pool_map_call]"])
        have "pool_at s1 (n_pls s1 - 1) = Inr q"
          using clp(2) n(1) len ok by (simp add: pool_at_def server_ok_def)
        then have "session_new P s w = Inr (c, s1, w1\<lparr>wmem := m'\<rparr>)"
          using \<open>find_free _ _ _ _ = _\<close> n(1) len clp(1) t(1) by (simp add: session_new_def)
        then show ?thesis using op by (rule that(3)) (use clp(8) full in simp)
      qed
    qed
  qed
qed

end
