(* ===== verification/Reading.thy ===== *)
theory Reading
  imports Opening
begin

text \<open>
  Reading from a client: the name, which ends with the first line break, and the lines. Whatever
  the kernel delivers, the handlers stay within the buffers of the client, keep every other client
  and end with the state of the server intact.
\<close>

section \<open>Between two events\<close>

text \<open>
  What a history of calls leaves registered for events: pairs of a descriptor and the pointer that
  the kernel keeps for it. The kernel forgets a descriptor that is closed.
\<close>

definition event_data :: "u8 list \<Rightarrow> u64" where
  "event_data bs = of_nat (le_val (take 8 (drop 4 bs)))"

fun registered :: "kernel \<Rightarrow> sys_call list \<Rightarrow> (u32 \<times> u64) set" where
  "registered k [] = {}"
| "registered k (c # h) =
     (if sc_nr c = s_close then {e \<in> registered k h. fst e \<noteq> ucast (sc_args c ! 0)}
      else if sc_nr c = s_epoll_ctl \<and> succeeded (k (c # h))
      then insert (ucast (sc_args c ! 2), event_data (sc_data c)) (registered k h)
      else registered k h)"

lemma registered_shrinks:
  "(\<And>c. c \<in> set cs \<Longrightarrow> sc_nr c \<noteq> s_epoll_ctl) \<Longrightarrow> registered k (cs @ h) \<subseteq> registered k h"
  by (induction cs) auto

lemma ucast_back: "ucast (ucast fd :: u64) = (fd :: u32)" "ucast (scast fd :: u64) = (fd :: u32)"
  by (rule bit_word_eqI, simp add: bit_simps)+

lemma registered_close: "registered k (close_call fd # h) = {e \<in> registered k h. fst e \<noteq> fd}"
  by (simp add: close_call_def ucast_back)

text \<open>Every registration is that of the listening socket or of a client in use.\<close>

definition watched :: "platform \<Rightarrow> world \<Rightarrow> pools \<Rightarrow> bool" where
  "watched P w pls \<longleftrightarrow> (\<forall>(fd, p) \<in> registered (kern P) (trace w).
     p = stk P ''_start.serv'' \<or> p \<in> set (clients pls) \<and> cl_fd (wmem w) p = fd)"

lemma watched_step:
  assumes "watched P w pls" and "registered (kern P) (trace w') \<subseteq> registered (kern P) (trace w)"
    and "\<And>d. d \<in> set (clients pls) \<Longrightarrow> (cl_fd (wmem w) d, d) \<in> registered (kern P) (trace w') \<Longrightarrow>
      d \<noteq> stk P ''_start.serv'' \<Longrightarrow> d \<in> set (clients pls') \<and> cl_fd (wmem w') d = cl_fd (wmem w) d"
  shows "watched P w' pls'"
  using assms unfolding watched_def by fast

lemma watched_harmless:
  assumes "watched P w pls" and "harmless cs"
    and "\<And>d. d \<in> set (clients pls) \<Longrightarrow> cl_fd m' d = cl_fd (wmem w) d"
  shows "watched P (w\<lparr>wmem := m', trace := cs @ trace w\<rparr>) pls"
proof (rule watched_step[OF assms(1)])
  have "\<And>c. c \<in> set cs \<Longrightarrow> sc_nr c \<noteq> s_epoll_ctl" using assms(2) by (auto simp: harmless_def ordinary_def)
  from registered_shrinks[OF this] show "registered (kern P) (trace (w\<lparr>wmem := m', trace := cs @ trace w\<rparr>))
      \<subseteq> registered (kern P) (trace w)" by simp
qed (use assms(3) in auto)

definition good :: "platform \<Rightarrow> world \<Rightarrow> server \<Rightarrow> pools \<Rightarrow> bool" where
  "good P w s pls \<longleftrightarrow> state_ok P w s pls \<and> all_live (wmem w) pls \<and> watched P w pls"

text \<open>
  A handler for the client \<open>c\<close> has settled: the state is good, at most \<open>c\<close> has gone, and
  the array of events is as it was.
\<close>

definition settled :: "platform \<Rightarrow> u64 \<Rightarrow> pools \<Rightarrow> world \<Rightarrow> server \<Rightarrow> world \<Rightarrow> pools \<Rightarrow> bool" where
  "settled P c pls w s' w' pls' \<longleftrightarrow> good P w' s' pls' \<and>
     (clients pls' = clients pls \<or> clients pls' = filter (\<lambda>d. d \<noteq> c) (clients pls)) \<and>
     agree (events_area P) (wmem w) (wmem w')"

lemma settled_after:
  "agree (events_area P) (wmem w) (wmem w1) \<Longrightarrow> settled P c pls w1 s' w' pls' \<Longrightarrow> settled P c pls w s' w' pls'"
  by (auto simp: settled_def intro: agree_trans)

lemma good_parts:
  assumes "good P w s pls"
  shows "server_ok P (wmem w) s pls" "blocks_mapped P pls (trace w)" "all_live (wmem w) pls"
    "state_ok P w s pls" "watched P w pls"
  using assms by (simp_all add: good_def state_ok_def)

lemma events_apart:
  assumes "layout_ok P" and "server_ok P m s pls"
  shows "events_area P \<inter> (scratch P \<union> pool_area pls) = {}"
proof -
  have "pool_block q \<inter> events_area P = {}" if q: "q \<in> set (blocks pls)" for q
  proof -
    obtain fs us where "(q, fs, us) \<in> set pls" using pool_entry[OF assms(2) q] .
    from server_okD(2)[OF assms(2) this] show ?thesis by (auto simp: statics_def)
  qed
  moreover have "events_area P \<inter> scratch P = {}" using assms(1) unfolding layout_ok_def by blast
  ultimately show ?thesis by (auto simp: pool_area_def)
qed

lemma client_area:
  assumes "server_ok P m s pls" and "c \<in> set (clients pls)"
  shows "client_span c \<subseteq> pool_area pls"
proof -
  obtain q where "q \<in> set (blocks pls)" "client_span c \<subseteq> pool_block q"
    using slot_block[OF assms(1) clients_slots[OF assms]] by metis
  then show ?thesis by (auto simp: pool_area_def)
qed

lemma live_560: "agree (span c 560) m m' \<Longrightarrow> live_ok m' c = live_ok m c"
  using agree_ld32[OF agree_mono[OF _ span_sub[of 4 4 560 c]], of m m']
    agree_ld32[OF agree_mono[OF _ span_sub[of 552 4 560 c]], of m m']
  by (simp add: live_ok_def cl_buf_used_def cl_name_used_def)

text \<open>A write into one client and into the locals, and calls that unmap nothing.\<close>

lemma write_state:
  assumes plat: "platform_ok P" and g: "good P w s pls" and c: "c \<in> set (clients pls)"
    and o: "only (span (c + 4) 556 \<union> scratch P) (wmem w) m'" and st: "stale_ok m' c"
    and cs: "harmless cs"
  shows "state_ok P (w\<lparr>wmem := m', trace := cs @ trace w\<rparr>) s pls"
    and "watched P (w\<lparr>wmem := m', trace := cs @ trace w\<rparr>) pls"
    and "\<And>d. d \<in> set (clients pls) \<Longrightarrow> d \<noteq> c \<Longrightarrow> live_ok m' d"
    and "agree (events_area P) (wmem w) m'"
proof -
  note G = good_parts[OF g]
  have lay: "layout_ok P" using plat by (simp add: platform_ok_def)
  have "span (c + 4) 556 \<subseteq> span c 560" by (rule span_sub) simp_all
  then have o0: "only (span c 560 \<union> scratch P) (wmem w) m'" by (intro only_mono[OF o]) auto
  note cw = client_write[OF G(1) lay c o0 st]
  show "watched P (w\<lparr>wmem := m', trace := cs @ trace w\<rparr>) pls"
  proof (rule watched_harmless[OF G(5) cs])
    fix d assume d: "d \<in> set (clients pls)"
    show "cl_fd m' d = cl_fd (wmem w) d"
    proof (cases "d = c")
      case True
      have "span c 4 \<inter> span (c + 4) 556 = {}" by (rule disj_spans) (simp add: disj_def)
      moreover have "span c 4 \<subseteq> client_span c" using client_part[of 0 4 c] by simp
      ultimately have "span c 4 \<inter> (span (c + 4) 556 \<union> scratch P) = {}"
        using scratch_outside(1)[OF G(1) clients_slots[OF G(1) c]] by (auto simp: statics_def)
      from c32.only_ld[OF o this] show ?thesis by (simp add: cl_fd_def True)
    qed (rule client_agree(1)[OF cw(2)[OF clients_slots[OF G(1) d]]])
  qed
  show "state_ok P (w\<lparr>wmem := m', trace := cs @ trace w\<rparr>) s pls"
    using cw(1) blocks_mapped_grows[OF G(2) cs] by (simp add: state_ok_def)
  show "live_ok m' d" if d: "d \<in> set (clients pls)" "d \<noteq> c" for d
    using client_agree(7)[OF cw(2)[OF clients_slots[OF G(1) d(1)] d(2)]] G(3) d by (simp add: all_live_def)
  have "span c 560 \<subseteq> pool_area pls" using client_area[OF G(1) c] client_part[of 0 560 c] by auto
  then show "agree (events_area P) (wmem w) m'"
    using events_apart[OF lay G(1)] by (intro only_agree[OF o0]) blast
qed

lemma write_good:
  assumes "platform_ok P" and "good P w s pls" and "c \<in> set (clients pls)"
    and "only (span (c + 4) 556 \<union> scratch P) (wmem w) m'" and "stale_ok m' c" and live: "live_ok m' c"
    and "harmless cs"
  shows "good P (w\<lparr>wmem := m', trace := cs @ trace w\<rparr>) s pls"
  using write_state(1-3)[OF assms(1-5,7)] live by (auto simp: good_def all_live_def)

lemma scratch_good:
  assumes plat: "platform_ok P" and g: "good P w s pls" and o: "only (scratch P) (wmem w) m'"
    and cs: "harmless cs"
  shows "good P (w\<lparr>wmem := m', trace := cs @ trace w\<rparr>) s pls"
    and "agree (events_area P) (wmem w) m'" and "c \<in> set (clients pls) \<Longrightarrow> agree (client_span c) (wmem w) m'"
proof -
  note G = good_parts[OF g]
  have lay: "layout_ok P" using plat by (simp add: platform_ok_def)
  note sw = scratch_write[OF G(1) lay o]
  show ag: "agree (client_span c) (wmem w) m'" if "c \<in> set (clients pls)" for c
    by (rule sw(2)[OF clients_slots[OF G(1) that]])
  have "all_live m' pls" using G(3) client_agree(7)[OF ag] by (simp add: all_live_def)
  then show "good P (w\<lparr>wmem := m', trace := cs @ trace w\<rparr>) s pls"
    using sw(1) blocks_mapped_grows[OF G(2) cs] watched_harmless[OF G(5) cs client_agree(1)[OF ag]]
    by (simp add: good_def state_ok_def)
  show "agree (events_area P) (wmem w) m'" using events_apart[OF lay G(1)] by (intro only_agree[OF o]) auto
qed

lemma trace_good: "good P w s pls \<Longrightarrow> harmless cs \<Longrightarrow> good P (w\<lparr>trace := cs @ trace w\<rparr>) s pls"
  using watched_harmless[of P w pls cs "wmem w"] blocks_mapped_grows by (simp add: good_def state_ok_def)

lemma harmless_left: "harmless (to_others P m buf bs c pls)" "harmless (left_calls P m c pls)"
proof -
  show *: "harmless (to_others P m buf bs c pls)" for buf bs
    by (auto simp: harmless_def to_others_def)
  show "harmless (left_calls P m c pls)" using * by (simp add: left_calls_def)
qed

text \<open>Closing settles, even when the counters of the closed client are beyond its buffers.\<close>

lemma close_settles:
  assumes plat: "platform_ok P" and st: "state_ok P w s pls" and wt: "watched P w pls"
    and c: "c \<in> set (clients pls)"
    and live: "\<And>d. d \<in> set (clients pls) \<Longrightarrow> d \<noteq> c \<Longrightarrow> live_ok (wmem w) d"
  obtains s' w' pls' cs where "session_close P c s w = Inr (s', w')" "settled P c pls w s' w' pls'"
    "clients pls' = filter (\<lambda>d. d \<noteq> c) (clients pls)" "gave_up P c pls pls' cs"
    "trace w' = cs @ close_call (cl_fd (wmem w) c) # left_calls P (wmem w) c pls @ trace w"
proof -
  have ok: "server_ok P (wmem w) s pls" and maps: "blocks_mapped P pls (trace w)"
    using st by (simp_all add: state_ok_def)
  have lay: "layout_ok P" using plat by (simp add: platform_ok_def)
  obtain s' w' pls' cs where r: "session_close P c s w = Inr (s', w')" "server_ok P (wmem w') s' pls'"
    "clients pls' = filter (\<lambda>d. d \<noteq> c) (clients pls)"
    "\<And>d. is_slot pls' d \<Longrightarrow> d \<noteq> c \<Longrightarrow> agree (span d 560) (wmem w) (wmem w')"
    "trace w' = cs @ close_call (cl_fd (wmem w) c) # left_calls P (wmem w) c pls @ trace w"
    "only (scratch P \<union> pool_area pls) (wmem w) (wmem w')" "gave_up P c pls pls' cs"
    using session_close_spec[OF plat ok c] by blast
  have "blocks_mapped P pls (close_call (cl_fd (wmem w) c) # left_calls P (wmem w) c pls @ trace w)"
    using blocks_mapped_grows[OF maps, of "close_call (cl_fd (wmem w) c) # left_calls P (wmem w) c pls"]
      harmless_left by simp
  from gave_up_mapped[OF ok this r(7)] have "blocks_mapped P pls' (trace w')" by (simp add: r(5))
  moreover have "all_live (wmem w') pls'"
    unfolding all_live_def
  proof
    fix d assume d: "d \<in> set (clients pls')"
    then have "is_slot pls' d" "d \<noteq> c" "d \<in> set (clients pls)"
      using clients_slots[OF r(2)] by (auto simp: r(3))
    then show "live_ok (wmem w') d" using live_560[OF r(4)] live by simp
  qed
  moreover have "agree (events_area P) (wmem w) (wmem w')"
    using events_apart[OF lay ok] by (intro only_agree[OF r(6)]) auto
  moreover have "watched P w' pls'"
  proof (rule watched_step[OF wt])
    have "sc_nr x \<noteq> s_epoll_ctl" if "x \<in> set cs" for x
      using r(7) that by (auto simp: gave_up_def unmap_call_def write_call_def syscall_numbers)
    then have "registered (kern P) (trace w') \<subseteq>
        registered (kern P) (close_call (cl_fd (wmem w) c) # left_calls P (wmem w) c pls @ trace w)"
      unfolding r(5) by (rule registered_shrinks)
    also have "\<dots> = {e \<in> registered (kern P) (left_calls P (wmem w) c pls @ trace w). fst e \<noteq> cl_fd (wmem w) c}"
      by (rule registered_close)
    also have "\<dots> \<subseteq> {e \<in> registered (kern P) (trace w). fst e \<noteq> cl_fd (wmem w) c}"
      using registered_shrinks[of "left_calls P (wmem w) c pls" "kern P" "trace w"] harmless_left(2)
      by (auto simp: harmless_def ordinary_def)
    finally have sub: "registered (kern P) (trace w') \<subseteq> {e \<in> registered (kern P) (trace w). fst e \<noteq> cl_fd (wmem w) c}" .
    then show "registered (kern P) (trace w') \<subseteq> registered (kern P) (trace w)" by blast
    fix d assume d: "d \<in> set (clients pls)" "(cl_fd (wmem w) d, d) \<in> registered (kern P) (trace w')"
    then have "d \<noteq> c" using sub by auto
    then have d': "d \<in> set (clients pls')" using d(1) r(3) by simp
    have "agree (span d 560) (wmem w) (wmem w')" by (rule r(4)[OF clients_slots[OF r(2) d'] \<open>d \<noteq> c\<close>])
    from agree_ld32[OF agree_mono[OF this span_mono]] d'
    show "d \<in> set (clients pls') \<and> cl_fd (wmem w') d = cl_fd (wmem w) d" by (simp add: cl_fd_def)
  qed
  ultimately have "settled P c pls w s' w' pls'"
    using r(2,3) by (auto simp: settled_def good_def state_ok_def)
  then show ?thesis using that r(1,3,5,7) by blast
qed

section \<open>Reading into a buffer of a client\<close>

text \<open>One call of the read loops: the buffer of capacity \<open>N\<close> at offset \<open>k\<close>, from position \<open>b\<close>.\<close>

lemma count_scast: "n < 2 ^ 31 \<Longrightarrow> (scast (of_nat n :: u32) :: u64) = of_nat n"
  by (rule scast_of_nat32)

lemma read_into:
  assumes kern: "kernel_ok (kern P)" and b: "b \<le> N" "N \<le> 512"
  obtains v e where "sys_read P w fd (a + scast (of_nat b :: u32)) (scast (of_nat N - of_nat b :: u32)) =
      (v, Some e, w\<lparr>trace := read_call fd (a + of_nat b) (of_nat (N - b)) # trace w\<rparr>)"
  | n bs where "sys_read P w fd (a + scast (of_nat b :: u32)) (scast (of_nat N - of_nat b :: u32)) =
      (of_nat n, None, w\<lparr>wmem := st_bytes (wmem w) (a + of_nat b) bs,
         trace := read_call fd (a + of_nat b) (of_nat (N - b)) # trace w\<rparr>)"
    "n \<le> N - b" "length bs = n" "only (span a N) (wmem w) (st_bytes (wmem w) (a + of_nat b) bs)"
proof -
  have e: "(of_nat N - of_nat b :: u32) = of_nat (N - b)" using b(1) by (simp add: of_nat_diff)
  have arg: "(scast (of_nat b :: u32) :: u64) = of_nat b" "(scast (of_nat N - of_nat b :: u32) :: u64) = of_nat (N - b)"
    unfolding e using b by (simp_all add: count_scast del: of_nat_diff)
  have room: "unat (of_nat (N - b) :: u64) = N - b" using b by (intro unat_of_nat_less) simp
  show ?thesis
  proof (cases rule: sys_read_cases[OF kern, of w fd "a + of_nat b" "of_nat (N - b)"])
    case (1 v e)
    then show ?thesis using that(1) by (simp only: arg)
  next
    case (2 v bs)
    have le: "unat v \<le> N - b" using 2(2) room by (simp only: word_le_nat_alt)
    have "span (a + of_nat b) (length bs) \<subseteq> span a N"
    proof (rule span_sub)
      have "unat (of_nat b :: u64) = b" using b by (intro unat_of_nat_less) simp
      then show "unat (of_nat b :: u64) + length bs \<le> N" using le 2(3) b(1) by simp
    qed (use b in simp)
    then have "only (span a N) (wmem w) (st_bytes (wmem w) (a + of_nat b) bs)"
      by (rule only_mono[OF only_st_bytes])
    moreover have "of_nat (unat v) = v" by simp
    ultimately show ?thesis using that(2)[of "unat v" bs] 2(1,3) le by (simp only: arg)
  qed
qed

text \<open>The counter of a buffer after a read: \<open>n + m\<close>, without overflow.\<close>

lemma counter_add:
  assumes "n \<le> 512" "k \<le> 512"
  shows "(of_nat n + ucast (of_nat k :: u64) :: u32) = of_nat (n + k)"
    and "sint (of_nat (n + k) :: u32) = int (n + k)" and "(ucast (of_nat k :: u64) :: u32) = 0 \<longleftrightarrow> k = 0"
proof -
  have u: "(ucast (of_nat k :: u64) :: u32) = of_nat k"
    using assms by (simp add: unsigned_of_nat take_bit_nat_eq_self)
  then show "(of_nat n + ucast (of_nat k :: u64) :: u32) = of_nat (n + k)" by simp
  show "sint (of_nat (n + k) :: u32) = int (n + k)" using assms by (intro sint_of_nat32) simp
  show "(ucast (of_nat k :: u64) :: u32) = 0 \<longleftrightarrow> k = 0"
    unfolding u using assms by (intro of_nat32_eq_0) simp
qed

lemma upd_order: "w\<lparr>trace := t, wmem := m\<rparr> = w\<lparr>wmem := m, trace := t\<rparr>"
  by simp

text \<open>A report on the error stream, and the end of a handler.\<close>

lemma report_good:
  assumes plat: "platform_ok P" and g: "good P w s pls" and f: "f \<in> set literals_used"
    "args_needed (bytes_of f) = Some n" "n \<le> length args"
  obtains j w' where "fmt_fprintf P w stderr (lit P f) args = Inr (j, w')" "good P w' s pls"
    "agree (events_area P) (wmem w) (wmem w')"
    "\<And>c. c \<in> set (clients pls) \<Longrightarrow> agree (client_span c) (wmem w) (wmem w')"
proof -
  have "literals_ok P (wmem w)" using good_parts(1)[OF g] by (simp add: server_ok_def)
  then obtain j w' where r: "fmt_fprintf P w stderr (lit P f) args = Inr (j, w')" "reported P stderr w w'"
    "only (scratch P) (wmem w) (wmem w')"
    by (rule server_report[OF plat _ f])
  then obtain bs where tr: "trace w' = [write_call stderr (stk P ''fmt_fprintf.buf'') bs] @ trace w"
    by (auto simp: reported_def)
  have "w' = w\<lparr>wmem := wmem w', trace := [write_call stderr (stk P ''fmt_fprintf.buf'') bs] @ trace w\<rparr>"
    using tr by simp
  with scratch_good[OF plat g r(3), of "[write_call stderr (stk P ''fmt_fprintf.buf'') bs]"] r(1) that
  show ?thesis by simp
qed

lemma stop_settles:
  assumes "platform_ok P" and "state_ok P w s pls" and "watched P w pls" and "c \<in> set (clients pls)"
    and "\<And>d. d \<in> set (clients pls) \<Longrightarrow> d \<noteq> c \<Longrightarrow> live_ok (wmem w) d"
    and "agree (events_area P) (wmem w0) (wmem w)"
  shows "\<exists>s' w' pls'. close_and_stop P c s w = Inr (False, s', w') \<and> settled P c pls w0 s' w' pls'"
proof -
  obtain s' w' pls' where "session_close P c s w = Inr (s', w')" "settled P c pls w s' w' pls'"
    using close_settles[OF assms(1-5)] by metis
  from this(1) settled_after[OF assms(6) this(2)] show ?thesis by (auto simp: close_and_stop_def)
qed

lemma stop_good:
  assumes "platform_ok P" and "good P w s pls" and "c \<in> set (clients pls)"
    and "agree (events_area P) (wmem w0) (wmem w)"
  shows "\<exists>s' w' pls'. close_and_stop P c s w = Inr (False, s', w') \<and> settled P c pls w0 s' w' pls'"
  using assms by (intro stop_settles) (auto simp: good_def all_live_def)

section \<open>The read loops\<close>

lemma good_live: "good P w s pls \<Longrightarrow> c \<in> set (clients pls) \<Longrightarrow> live_ok (wmem w) c"
  by (simp add: good_def all_live_def)

lemma good_stale:
  assumes "good P w s pls" and "c \<in> set (clients pls)"
  shows "stale_ok (wmem w) c"
proof -
  note ok = good_parts(1)[OF assms(1)]
  obtain q fs us where "(q, fs, us) \<in> set pls" "c \<in> set (slots q)" using client_pool[OF ok assms(2)] by metis
  then show ?thesis using server_okD(3)[OF ok] by (auto simp: clp_ok_def)
qed

text \<open>
  The result of a read loop: out of fuel, stopped after closing the session, or done with only the
  buffer and its counter changed.
\<close>

definition loop_outcome ::
  "platform \<Rightarrow> u64 \<Rightarrow> u64 set \<Rightarrow> pools \<Rightarrow> server \<Rightarrow> world \<Rightarrow> halt + bool \<times> server \<times> world \<Rightarrow> bool" where
  "loop_outcome P c S pls s w r \<longleftrightarrow> (case r of Inl h \<Rightarrow> h = Out_of_fuel
     | Inr (go, s', w') \<Rightarrow>
         if go then s' = s \<and> good P w' s pls \<and> only S (wmem w) (wmem w') \<and>
           agree (events_area P) (wmem w) (wmem w')
         else \<exists>pls'. settled P c pls w s' w' pls')"

lemma outcome_after:
  assumes "only S (wmem w) (wmem w1)" and "agree (events_area P) (wmem w) (wmem w1)"
    and "loop_outcome P c S pls s w1 r"
  shows "loop_outcome P c S pls s w r"
  using assms
  by (auto simp: loop_outcome_def split: sum.splits if_splits intro: only_trans agree_trans
      dest: settled_after[OF assms(2)])

lemma outcome_stop:
  "\<exists>s' w' pls'. r = Inr (False, s', w') \<and> settled P c pls w s' w' pls' \<Longrightarrow> loop_outcome P c S pls s w r"
  by (auto simp: loop_outcome_def)

text \<open>Reads are not interrupted: the program has no signal handlers, and its sockets do not block.\<close>

definition uninterrupted :: "platform \<Rightarrow> bool" where
  "uninterrupted P \<longleftrightarrow> (\<forall>w fd a n v e w'. sys_read P w fd a n = (v, Some e, w') \<longrightarrow> err_code e \<noteq> EINTR)"

text \<open>
  The two loops of the program read at a fixed position into a buffer of \<open>N\<close> bytes at offset
  \<open>k\<close> of the client and add what they get to a counter; the loops differ in the buffer, the
  counter and what the end of the stream does. \<open>area\<close> is what they write, \<open>mode\<close> the
  condition on the client under which they run.
\<close>

locale client_reader =
  fixes P :: platform and c :: u64 and k :: u64 and N :: nat and area :: "u64 set"
    and cnt :: "mem \<Rightarrow> u32" and set_cnt :: "u32 \<Rightarrow> mem \<Rightarrow> mem" and mode :: "mem \<Rightarrow> bool"
    and too_long :: string and at_end :: "server \<Rightarrow> world \<Rightarrow> halt + bool \<times> server \<times> world"
    and loop :: "nat \<Rightarrow> u32 \<Rightarrow> server \<Rightarrow> world \<Rightarrow> halt + bool \<times> server \<times> world"
  assumes cap: "N \<le> 512"
    and loop_0: "loop 0 b s w = Inl Out_of_fuel"
    and loop_Suc: "loop (Suc i) b s w =
      (let (v, err, w) = sys_read P w (cl_fd (wmem w) c) (c + k + scast b) (scast (of_nat N - b));
           n = ucast v
       in case err of
            Some e \<Rightarrow>
              if err_code e = EAGAIN then Inr (True, s, w)
              else if err_code e = EINTR then loop i b s w
              else andthen (fmt_fprintf P w stderr (lit P read_error_format) [lit P (err_msg e)])
                     (\<lambda>(_, w). close_and_stop P c s w)
          | None \<Rightarrow>
              if n = 0 then at_end s w
              else let w = on_mem (\<lambda>m. set_cnt (cnt m + n) m) w
                   in if sint (cnt (wmem w)) > int N then
                        let w = world_of (sys_write P w (cl_fd (wmem w) c) (lit P too_long)
                                  (of_nat (length too_long)))
                        in close_and_stop P c s w
                      else loop i b s w)"
    and area: "area \<subseteq> span (c + 4) 556" "span (c + k) N \<subseteq> area"
    and cnt_other: "only (span (c + k) N) m m' \<Longrightarrow> cnt m' = cnt m"
    and cnt_set: "cnt (set_cnt v m) = v" "only area m (set_cnt v m)"
    and cnt_live: "live_ok m c \<Longrightarrow> \<exists>n \<le> N. cnt m = of_nat n"
    and keep: "only area m m' \<Longrightarrow> mode m \<Longrightarrow> mode m'"
      "only area m m' \<Longrightarrow> mode m \<Longrightarrow> stale_ok m c \<Longrightarrow> stale_ok m' c"
      "only area m m' \<Longrightarrow> live_ok m c \<Longrightarrow> n \<le> N \<Longrightarrow> cnt m' = of_nat n \<Longrightarrow> live_ok m' c"
    and end_settles: "platform_ok P \<Longrightarrow> good P w s pls \<Longrightarrow> c \<in> set (clients pls) \<Longrightarrow> mode (wmem w) \<Longrightarrow>
      \<exists>s' w' pls'. at_end s w = Inr (False, s', w') \<and> settled P c pls w s' w' pls'"
begin

text \<open>One delivery of \<open>n\<close> bytes: the state, whether or not the counter stays within the buffer.\<close>

lemma delivery:
  assumes plat: "platform_ok P" and g: "good P w s pls" and c: "c \<in> set (clients pls)" and md: "mode (wmem w)"
    and n: "n \<le> 512" and o: "only (span (c + k) N) (wmem w) m1"
  obtains j m2 where "j \<le> N" "cnt (wmem w) = of_nat j" "cnt m1 + ucast (of_nat n :: u64) = of_nat (j + n)"
    "m2 = set_cnt (of_nat (j + n)) m1" "cnt m2 = of_nat (j + n)"
    "sint (of_nat (j + n) :: u32) = int (j + n)" "only area (wmem w) m2" "mode m2"
    "\<forall>cs. harmless cs \<longrightarrow> state_ok P (w\<lparr>wmem := m2, trace := cs @ trace w\<rparr>) s pls"
    "\<forall>cs. harmless cs \<longrightarrow> watched P (w\<lparr>wmem := m2, trace := cs @ trace w\<rparr>) pls"
    "\<forall>d \<in> set (clients pls). d \<noteq> c \<longrightarrow> live_ok m2 d" "agree (events_area P) (wmem w) m2"
    "\<forall>cs. j + n \<le> N \<longrightarrow> harmless cs \<longrightarrow> good P (w\<lparr>wmem := m2, trace := cs @ trace w\<rparr>) s pls"
proof -
  obtain j where j: "j \<le> N" "cnt (wmem w) = of_nat j" using cnt_live[OF good_live[OF g c]] by blast
  have j5: "j \<le> 512" using j(1) cap by simp
  define m2 where "m2 = set_cnt (of_nat (j + n)) m1"
  have o2: "only area (wmem w) m2"
    unfolding m2_def by (rule only_trans[OF only_mono[OF o area(2)] cnt_set(2)])
  then have o560: "only (span (c + 4) 556 \<union> scratch P) (wmem w) m2" by (rule only_mono) (use area(1) in auto)
  have st: "stale_ok m2 c" by (rule keep(2)[OF o2 md good_stale[OF g c]])
  note ws = write_state[OF plat g c o560 st]
  have cnt2: "cnt m2 = of_nat (j + n)" by (simp only: m2_def cnt_set(1))
  show ?thesis
  proof (rule that[OF j _ m2_def cnt2])
    show "cnt m1 + ucast (of_nat n :: u64) = of_nat (j + n)"
      using cnt_other[OF o] j(2) counter_add(1)[OF j5 n] by simp
    show "sint (of_nat (j + n) :: u32) = int (j + n)" by (rule counter_add(2)[OF j5 n])
    show "mode m2" by (rule keep(1)[OF o2 md])
    show "\<forall>cs. j + n \<le> N \<longrightarrow> harmless cs \<longrightarrow> good P (w\<lparr>wmem := m2, trace := cs @ trace w\<rparr>) s pls"
      using write_good[OF plat g c o560 st keep(3)[OF o2 good_live[OF g c] _ cnt2]] by blast
    show "agree (events_area P) (wmem w) m2" by (rule ws(4)[OF harmless_simps(1)])
    show "\<forall>d \<in> set (clients pls). d \<noteq> c \<longrightarrow> live_ok m2 d" using ws(3)[OF harmless_simps(1)] by blast
  qed (use o2 ws(1,2) in auto)
qed

text \<open>One iteration: the loop ends, or it goes on after an interrupt or with more in the buffer.\<close>

lemma loop_step:
  assumes plat: "platform_ok P" and b: "b \<le> N" and g: "good P w s pls" and c: "c \<in> set (clients pls)"
    and md: "mode (wmem w)"
  obtains go s' w' where "loop (Suc i) (of_nat b) s w = Inr (go, s', w')"
      "loop_outcome P c area pls s w (Inr (go, s', w'))"
  | w' where "loop (Suc i) (of_nat b) s w = loop i (of_nat b) s w'" "good P w' s pls" "mode (wmem w')"
      "only area (wmem w) (wmem w')" "agree (events_area P) (wmem w) (wmem w')"
      "\<not> uninterrupted P \<or> (\<exists>j n. cnt (wmem w) = of_nat j \<and> cnt (wmem w') = of_nat (j + n) \<and> 0 < n \<and> j + n \<le> N)"
proof -
  have kern: "kernel_ok (kern P)" using plat by (simp add: platform_ok_def)
  let ?call = "read_call (cl_fd (wmem w) c) (c + k + of_nat b) (of_nat (N - b))"
  show ?thesis
  proof (cases rule: read_into[OF kern b cap, of w "cl_fd (wmem w) c" "c + k"])
    case (1 v e)
    let ?w = "w\<lparr>trace := ?call # trace w\<rparr>"
    have g1: "good P ?w s pls" using trace_good[OF g, of "[?call]"] by simp
    have run: "loop (Suc i) (of_nat b) s w =
        (if err_code e = EAGAIN then Inr (True, s, ?w)
         else if err_code e = EINTR then loop i (of_nat b) s ?w
         else andthen (fmt_fprintf P ?w stderr (lit P read_error_format) [lit P (err_msg e)])
                (\<lambda>(_, w). close_and_stop P c s w))"
      using 1 by (simp add: loop_Suc)
    consider "err_code e = EAGAIN" | "err_code e \<noteq> EAGAIN" "err_code e = EINTR"
      | "err_code e \<noteq> EAGAIN" "err_code e \<noteq> EINTR" by blast
    then show ?thesis
    proof cases
      case 1
      with that(1) run g1 show ?thesis by (simp add: loop_outcome_def)
    next
      case 2
      have "\<not> uninterrupted P" unfolding uninterrupted_def using \<open>sys_read _ _ _ _ _ = _\<close> 2(2) by blast
      with that(2)[of ?w] run 2 g1 md show ?thesis by simp
    next
      case 3
      obtain j w2 where r: "fmt_fprintf P ?w stderr (lit P read_error_format) [lit P (err_msg e)] = Inr (j, w2)"
        "good P w2 s pls" "agree (events_area P) (wmem ?w) (wmem w2)"
        by (rule report_good[OF plat g1 literals_in(10) format_args(3), where args = "[lit P (err_msg e)]"]) auto
      have "agree (events_area P) (wmem w) (wmem w2)" using r(3) by simp
      from stop_good[OF plat r(2) c this] obtain s' w' pls' where
        "close_and_stop P c s w2 = Inr (False, s', w')" "settled P c pls w s' w' pls'" by blast
      with that(1) run r(1) 3 show ?thesis by (simp add: loop_outcome_def) blast
    qed
  next
    case (2 n bs)
    let ?w1 = "w\<lparr>wmem := st_bytes (wmem w) (c + k + of_nat b) bs, trace := ?call # trace w\<rparr>"
    have n: "n \<le> 512" using 2(2) b cap by simp
    have z: "(ucast (of_nat n :: u64) :: u32) = 0 \<longleftrightarrow> n = 0" using counter_add(3)[OF _ n, of 0] by simp
    obtain j m2 where d: "j \<le> N" "cnt (wmem w) = of_nat j"
      "cnt (st_bytes (wmem w) (c + k + of_nat b) bs) + ucast (of_nat n :: u64) = of_nat (j + n)"
      "m2 = set_cnt (of_nat (j + n)) (st_bytes (wmem w) (c + k + of_nat b) bs)" "cnt m2 = of_nat (j + n)"
      "sint (of_nat (j + n) :: u32) = int (j + n)" "only area (wmem w) m2" "mode m2"
      "\<forall>cs. harmless cs \<longrightarrow> state_ok P (w\<lparr>wmem := m2, trace := cs @ trace w\<rparr>) s pls"
      "\<forall>cs. harmless cs \<longrightarrow> watched P (w\<lparr>wmem := m2, trace := cs @ trace w\<rparr>) pls"
      "\<forall>d \<in> set (clients pls). d \<noteq> c \<longrightarrow> live_ok m2 d" "agree (events_area P) (wmem w) m2"
      "\<forall>cs. j + n \<le> N \<longrightarrow> harmless cs \<longrightarrow> good P (w\<lparr>wmem := m2, trace := cs @ trace w\<rparr>) s pls"
      using delivery[OF plat g c md n 2(4)] .
    let ?w2 = "w\<lparr>wmem := m2, trace := ?call # trace w\<rparr>"
    have run: "loop (Suc i) (of_nat b) s w =
        (if n = 0 then at_end s ?w1
         else if j + n > N then
           close_and_stop P c s (world_of (sys_write P ?w2 (cl_fd m2 c) (lit P too_long) (of_nat (length too_long))))
         else loop i (of_nat b) s ?w2)"
      using 2(1) z by (simp add: loop_Suc on_mem_def d(3,5,6) d(4)[symmetric] Let_def upd_order
          del: of_nat_add of_nat_numeral)
    consider "n = 0" | "n \<noteq> 0" "j + n \<le> N" | "n \<noteq> 0" "N < j + n" by linarith
    then show ?thesis
    proof cases
      case 1
      then have w1: "?w1 = w\<lparr>trace := [?call] @ trace w\<rparr>" using 2(3) by simp
      have g1: "good P ?w1 s pls" unfolding w1 by (rule trace_good[OF g]) simp
      have mem: "wmem ?w1 = wmem w" unfolding w1 by simp
      have md1: "mode (wmem ?w1)" unfolding mem by (rule md)
      obtain s' w' pls' where e: "at_end s ?w1 = Inr (False, s', w')" "settled P c pls ?w1 s' w' pls'"
        using end_settles[OF plat g1 c md1] by blast
      have "agree (events_area P) (wmem w) (wmem ?w1)" by (simp only: mem agree_refl)
      from settled_after[OF this e(2)] have "loop_outcome P c area pls s w (Inr (False, s', w'))"
        by (auto simp: loop_outcome_def)
      moreover have "loop (Suc i) (of_nat b) s w = Inr (False, s', w')" using run 1 e(1) by simp
      ultimately show ?thesis using that(1) by blast
    next
      case 2
      have "good P ?w2 s pls" using d(13)[rule_format, of "[?call]"] 2 by simp
      moreover have "loop (Suc i) (of_nat b) s w = loop i (of_nat b) s ?w2" using run 2 by simp
      ultimately show ?thesis using d(2,5,7,8,12) 2 by (intro that(2)[of ?w2]) auto
    next
      case 3
      let ?cs = "[write_call (cl_fd m2 c) (lit P too_long)
          (ld_bytes m2 (lit P too_long) (unat (of_nat (length too_long) :: u64))), ?call]"
      have w3: "world_of (sys_write P ?w2 (cl_fd m2 c) (lit P too_long) (of_nat (length too_long))) =
          w\<lparr>wmem := m2, trace := ?cs @ trace w\<rparr>"
        using sys_write_world[OF kern, of ?w2 "cl_fd m2 c" "lit P too_long" "of_nat (length too_long)"] by simp
      have "\<exists>s' w' pls'. close_and_stop P c s (w\<lparr>wmem := m2, trace := ?cs @ trace w\<rparr>) = Inr (False, s', w') \<and>
          settled P c pls w s' w' pls'"
        using d(9,10)[rule_format, of ?cs] d(11,12) by (intro stop_settles[OF plat _ _ c]) simp_all
      then obtain s' w' pls' where
        "close_and_stop P c s (w\<lparr>wmem := m2, trace := ?cs @ trace w\<rparr>) = Inr (False, s', w')"
        "settled P c pls w s' w' pls'" by blast
      then show ?thesis using that(1) run w3 3 by (simp add: loop_outcome_def) blast
    qed
  qed
qed

lemma loop_spec:
  assumes plat: "platform_ok P" and b: "b \<le> N"
  shows "good P w s pls \<Longrightarrow> c \<in> set (clients pls) \<Longrightarrow> mode (wmem w) \<Longrightarrow>
    loop_outcome P c area pls s w (loop i (of_nat b) s w)"
proof (induction i arbitrary: w)
  case 0
  then show ?case by (simp add: loop_outcome_def loop_0)
next
  case (Suc i)
  show ?case
  proof (cases rule: loop_step[OF plat b Suc.prems, of i])
    case (2 w')
    from outcome_after[OF 2(4,5) Suc.IH[OF 2(2) Suc.prems(2) 2(3)]] show ?thesis by (simp only: 2(1))
  qed simp
qed

text \<open>The loop ends when no read is interrupted: every delivery moves the counter towards \<open>N\<close>.\<close>

lemma loop_returns:
  assumes plat: "platform_ok P" and b: "b \<le> N" and un: "uninterrupted P"
  shows "good P w s pls \<Longrightarrow> c \<in> set (clients pls) \<Longrightarrow> mode (wmem w) \<Longrightarrow>
    cnt (wmem w) = of_nat j \<Longrightarrow> j \<le> N \<Longrightarrow> N - j < i \<Longrightarrow> \<exists>r. loop i (of_nat b) s w = Inr r"
proof (induction i arbitrary: w j)
  case (Suc i)
  show ?case
  proof (cases rule: loop_step[OF plat b Suc.prems(1-3), of i])
    case (2 w')
    then obtain j' n where n: "cnt (wmem w) = of_nat j'" "cnt (wmem w') = of_nat (j' + n)" "0 < n" "j' + n \<le> N"
      using un by blast
    have "unat (of_nat j' :: u32) = unat (of_nat j :: u32)" using n(1) Suc.prems(4) by simp
    then have "j' = j" using n(4) cap Suc.prems(5) by (simp add: unat_of_nat32)
    then have "N - (j' + n) < i" using n(3,4) Suc.prems(6) by linarith
    from Suc.IH[OF 2(2) Suc.prems(2) 2(3) n(2,4) this] show ?thesis by (simp only: 2(1))
  qed simp
qed simp

end

section \<open>The name\<close>

lemma name_spans:
  "span (c + 520) 32 \<subseteq> span (c + 520) 36" "span (c + 552) 4 \<subseteq> span (c + 520) 36"
  "span (c + 520) 36 \<subseteq> span (c + 4) 556" "span (c + 552) 4 \<inter> span (c + 520) 32 = {}"
  "span (c + 556) 4 \<inter> span (c + 520) 36 = {}" "span (c + 4) 4 \<inter> span (c + 520) 36 = {}"
proof -
  show "span (c + 520) 32 \<subseteq> span (c + 520) 36" by (rule span_mono) simp
  show "span (c + 552) 4 \<subseteq> span (c + 520) 36" using span_sub[of 32 4 36 "c + 520"] by (simp add: add.assoc)
  show "span (c + 520) 36 \<subseteq> span (c + 4) 556" using span_sub[of 516 36 556 "c + 4"] by (simp add: add.assoc)
  show "span (c + 552) 4 \<inter> span (c + 520) 32 = {}" "span (c + 556) 4 \<inter> span (c + 520) 36 = {}"
    "span (c + 4) 4 \<inter> span (c + 520) 36 = {}"
    by (rule disj_spans, simp add: disj_def)+
qed

lemma name_write:
  assumes "only (span (c + 520) 36) m m'"
  shows "cl_name_ok m' c = cl_name_ok m c" "cl_buf_used m' c = cl_buf_used m c"
    "only (span (c + 4) 556 \<union> S) m m'"
  using c32.only_ld[OF assms name_spans(5)] c32.only_ld[OF assms name_spans(6)]
    only_mono[OF assms, of "span (c + 4) 556 \<union> S"] name_spans(3)[of c]
  by (auto simp: cl_name_ok_def cl_buf_used_def)

interpretation name_reader: client_reader P c 520 32 "span (c + 520) 36" "\<lambda>m. cl_name_used m c" "set_name_used c"
    "\<lambda>m. cl_name_ok m c = 0" too_long_name "close_and_stop P c" "\<lambda>i b s w. name_read_loop i P c b s w"
  for P c
proof (unfold_locales, goal_cases)
  case (3 i b s w)
  show ?case by (simp only: name_read_loop.simps cl_name_def max_name_len_def)
next
  case 4
  show ?case by (rule name_spans(3))
next
  case 5
  show ?case by (rule name_spans(1))
next
  case (6 m m')
  show ?case unfolding cl_name_used_def by (rule c32.only_ld[OF 6 name_spans(4)])
next
  case (7 v m)
  show ?case by (simp add: cl_name_used_def set_name_used_def c32.ld_st_same)
next
  case (8 m v)
  show ?case unfolding set_name_used_def by (rule c32.only_st_in[OF only_refl name_spans(2)])
next
  case (9 m)
  then show ?case by (auto simp: live_ok_def max_name_len_def)
next
  case (10 m m')
  then show ?case using name_write(1)[OF 10(1)] by simp
next
  case (11 m m')
  then show ?case using name_write(1)[OF 11(1)] by (simp add: stale_ok_def)
next
  case (12 m m' n)
  then show ?case using name_write(2)[OF 12(1)] by (auto simp: live_ok_def max_name_len_def)
next
  case (13 w s pls)
  then show ?case by (intro stop_good) simp_all
qed simp_all

section \<open>Lines\<close>

lemma check_line_good:
  assumes plat: "platform_ok P" and g: "good P w s pls" and c: "c \<in> set (clients pls)"
    and named: "cl_name_ok (wmem w) c = 1"
  obtains w' where "check_line_and_send P c s w = Inr w'" "good P w' s pls"
    "cl_name_ok (wmem w') c = 1" "agree (events_area P) (wmem w) (wmem w')"
proof (cases "10 \<in> set (pending (wmem w) c)")
  case True
  note G = good_parts[OF g]
  have lay: "layout_ok P" using plat by (simp add: platform_ok_def)
  let ?tx = "name_of (wmem w) c @ stamp_text (clock_stamp P (trace w)) @ first_line (pending (wmem w) c)"
  obtain w' cs where r: "check_line_and_send P c s w = Inr w'" "stamp_calls P (clock_stamp P (trace w)) cs"
    "trace w' = to_others P (wmem w) (stk P ''check_line_and_send.msg'') ?tx c pls @ cs @ trace w"
    "cl_name_ok (wmem w') c = 1" "server_ok P (wmem w') s pls" "all_live (wmem w') pls"
    "only (span (c + 4) 556 \<union> scratch P) (wmem w) (wmem w')"
    using check_line_Some[OF plat G(1,3) c named True] by blast
  have "harmless cs" using r(2) by (auto simp: stamp_calls_def now_call_def split: option.splits)
  then have cs: "harmless (to_others P (wmem w) (stk P ''check_line_and_send.msg'') ?tx c pls @ cs)"
    using harmless_left(1) by simp
  obtain q fs us where "(q, fs, us) \<in> set pls" "c \<in> set (slots q)" using client_pool[OF r(5) c] by metis
  then have st: "stale_ok (wmem w') c" using server_okD(3)[OF r(5)] by (auto simp: clp_ok_def)
  have w': "w' = w\<lparr>wmem := wmem w', trace := (to_others P (wmem w) (stk P ''check_line_and_send.msg'') ?tx c pls @ cs)
      @ trace w\<rparr>" using r(3) by simp
  have "live_ok (wmem w') c" using r(6) c by (simp add: all_live_def)
  from write_good[OF plat g c r(7) st this cs] have "good P w' s pls" using w' by simp
  moreover have "agree (events_area P) (wmem w) (wmem w')"
    by (rule write_state(4)[OF plat g c r(7) st harmless_simps(1)])
  ultimately show ?thesis using that r(1,4) by simp
next
  case False
  from that[OF check_line_None[OF False] g named] show ?thesis by simp
qed

lemma line_end:
  assumes plat: "platform_ok P" and g: "good P w s pls" and c: "c \<in> set (clients pls)"
    and named: "cl_name_ok (wmem w) c = 1"
  shows "\<exists>s' w' pls'. andthen (check_line_and_send P c s w) (close_and_stop P c s) = Inr (False, s', w') \<and>
    settled P c pls w s' w' pls'"
proof -
  obtain w' where w': "check_line_and_send P c s w = Inr w'" "good P w' s pls"
    "agree (events_area P) (wmem w) (wmem w')"
    using check_line_good[OF assms] by metis
  from stop_good[OF plat w'(2) c w'(3)] show ?thesis by (simp add: w'(1))
qed

lemma line_spans:
  "span (c + 8) 512 \<subseteq> span (c + 4) 516" "span (c + 4) 4 \<subseteq> span (c + 4) 516"
  "span (c + 4) 516 \<subseteq> span (c + 4) 556" "span (c + 4) 4 \<inter> span (c + 8) 512 = {}"
  "span (c + 520) 48 \<inter> span (c + 4) 516 = {}"
proof -
  show "span (c + 8) 512 \<subseteq> span (c + 4) 516" using span_sub[of 4 512 516 "c + 4"] by (simp add: add.assoc)
  show "span (c + 4) 4 \<subseteq> span (c + 4) 516" by (rule span_mono) simp
  show "span (c + 4) 516 \<subseteq> span (c + 4) 556" by (rule span_mono) simp
  show "span (c + 4) 4 \<inter> span (c + 8) 512 = {}" "span (c + 520) 48 \<inter> span (c + 4) 516 = {}"
    by (rule disj_spans, simp add: disj_def)+
qed

interpretation line_reader: client_reader P c 8 512 "span (c + 4) 516" "\<lambda>m. cl_buf_used m c" "set_buf_used c"
    "\<lambda>m. cl_name_ok m c = 1" too_long_msg
    "\<lambda>s w. andthen (check_line_and_send P c s w) (close_and_stop P c s)" "\<lambda>i b s w. line_read_loop i P c b s w"
  for P c
proof (unfold_locales, goal_cases)
  case (3 i b s w)
  show ?case by (simp only: line_read_loop.simps cl_buf_def max_line_len_def)
next
  case 4
  show ?case by (rule line_spans(3))
next
  case 5
  show ?case by (rule line_spans(1))
next
  case (6 m m')
  show ?case unfolding cl_buf_used_def by (rule c32.only_ld[OF 6 line_spans(4)])
next
  case (7 v m)
  show ?case by (simp add: cl_buf_used_def set_buf_used_def c32.ld_st_same)
next
  case (8 m v)
  show ?case unfolding set_buf_used_def by (rule c32.only_st_in[OF only_refl line_spans(2)])
next
  case (9 m)
  then show ?case by (auto simp: live_ok_def max_line_len_def)
next
  case (10 m m')
  then show ?case using tail_agree(2)[OF only_agree[OF 10(1) line_spans(5)]] by simp
next
  case (11 m m')
  then show ?case using stale_ok_agree[OF only_agree[OF 11(1) line_spans(5)]] by simp
next
  case (12 m m' n)
  then show ?case using tail_agree(1)[OF only_agree[OF 12(1) line_spans(5)]]
    by (auto simp: live_ok_def max_line_len_def)
next
  case (13 w s pls)
  then show ?case by (rule line_end)
qed simp_all

text \<open>A handler settles: it runs out of fuel, or it returns in a settled state.\<close>

definition settles :: "platform \<Rightarrow> u64 \<Rightarrow> pools \<Rightarrow> world \<Rightarrow> halt + server \<times> world \<Rightarrow> bool" where
  "settles P c pls w r \<longleftrightarrow>
     (case r of Inl h \<Rightarrow> h = Out_of_fuel | Inr (s', w') \<Rightarrow> \<exists>pls'. settled P c pls w s' w' pls')"

lemma settles_after:
  "agree (events_area P) (wmem w) (wmem w1) \<Longrightarrow> settles P c pls w1 r \<Longrightarrow> settles P c pls w r"
  by (auto simp: settles_def split: sum.splits dest: settled_after)

lemma good_settled: "good P w s pls \<Longrightarrow> settled P c pls w s w pls"
  by (auto simp: settled_def)

lemma counter_bounds:
  assumes "good P w s pls" and "c \<in> set (clients pls)"
  obtains b n where "cl_buf_used (wmem w) c = of_nat b" "b \<le> 512" "cl_name_used (wmem w) c = of_nat n" "n \<le> 32"
  using good_live[OF assms] by (auto simp: live_ok_def max_line_len_def max_name_len_def)

lemma line_read_tail:
  assumes plat: "platform_ok P" and c: "c \<in> set (clients pls)" and named: "cl_name_ok (wmem w) c = 1"
    and o: "loop_outcome P c (span (c + 4) 516) pls s w r"
  shows "settles P c pls w (andthen r (\<lambda>(go, serv, w). if \<not> go then Inr (serv, w)
    else andthen (check_line_and_send P c serv w) (\<lambda>w. Inr (serv, w))))"
    and "r = Inr x \<Longrightarrow> \<exists>y. andthen r (\<lambda>(go, serv, w). if \<not> go then Inr (serv, w)
      else andthen (check_line_and_send P c serv w) (\<lambda>w. Inr (serv, w))) = Inr y"
proof -
  let ?r = "andthen r (\<lambda>(go, serv, w). if \<not> go then Inr (serv, w)
    else andthen (check_line_and_send P c serv w) (\<lambda>w. Inr (serv, w)))"
  have "settles P c pls w ?r \<and> (r = Inr x \<longrightarrow> (\<exists>y. ?r = Inr y))"
  proof (cases r)
    case (Inl h)
    then show ?thesis using o by (simp add: loop_outcome_def settles_def)
  next
    case (Inr gsw)
    obtain go s1 w1 where r: "r = Inr (go, s1, w1)" using Inr by (cases gsw) auto
    show ?thesis
    proof (cases go)
      case True
      then have l: "s1 = s" "good P w1 s pls" "only (span (c + 4) 516) (wmem w) (wmem w1)"
        "agree (events_area P) (wmem w) (wmem w1)" using o r by (simp_all add: loop_outcome_def)
      have "cl_name_ok (wmem w1) c = 1" using line_reader.keep(1)[OF l(3)] named by simp
      then obtain w2 where w2: "check_line_and_send P c s w1 = Inr w2" "good P w2 s pls"
        "agree (events_area P) (wmem w1) (wmem w2)"
        using check_line_good[OF plat l(2) c] by metis
      from settled_after[OF agree_trans[OF l(4) w2(3)] good_settled[OF w2(2)]]
      show ?thesis using w2(1) r True l(1) by (auto simp: settles_def)
    qed (use o r in \<open>auto simp: loop_outcome_def settles_def\<close>)
  qed
  then show "settles P c pls w ?r" "r = Inr x \<Longrightarrow> \<exists>y. ?r = Inr y" by blast+
qed

lemma session_line_read_spec:
  assumes plat: "platform_ok P" and g: "good P w s pls" and c: "c \<in> set (clients pls)"
    and named: "cl_name_ok (wmem w) c = 1"
  shows "settles P c pls w (session_line_read P c s w)"
    and "uninterrupted P \<Longrightarrow> \<exists>y. session_line_read P c s w = Inr y"
proof -
  obtain b where b: "cl_buf_used (wmem w) c = of_nat b" "b \<le> 512" using counter_bounds[OF g c] by metis
  note o = line_reader.loop_spec[OF plat b(2) g c named, of "fuel P", folded b(1)]
  show "settles P c pls w (session_line_read P c s w)"
    unfolding session_line_read_def by (rule line_read_tail(1)[OF plat c named o])
  assume "uninterrupted P"
  moreover have "512 - b < fuel P" using plat unfolding platform_ok_def by linarith
  ultimately obtain r where "line_read_loop (fuel P) P c (of_nat b) s w = Inr r"
    using line_reader.loop_returns[OF plat b(2) _ g c named b] by blast
  then show "\<exists>y. session_line_read P c s w = Inr y"
    unfolding session_line_read_def by (intro line_read_tail(2)[OF plat c named o]) (simp add: b(1))
qed

section \<open>The end of the name\<close>

definition in_name :: "u8 \<Rightarrow> bool" where
  "in_name x \<longleftrightarrow> x \<noteq> 10 \<and> x \<noteq> 13"

definition named_at :: "u64 \<Rightarrow> nat \<Rightarrow> mem \<Rightarrow> mem" where
  "named_at c i m = set_name_used c (of_nat i) (set_name_ok c 1 (m(cl_name c + of_nat i := 0)))"

text \<open>The scan ends the name at the first line break among the bytes received.\<close>

lemma scan_name_spec:
  assumes u: "cl_name_used m c = of_nat j" "j \<le> 32" and "n \<le> j"
  shows "scan_name m c n =
    (let bs = ld_bytes m (cl_name c + of_nat n) (j - n)
     in if \<exists>x \<in> set bs. \<not> in_name x then named_at c (n + length (takeWhile in_name bs)) m else m)"
  using assms(3)
proof (induction "j - n" arbitrary: n)
  case 0
  have "sint (cl_name_used m c) = int j" unfolding u(1) using u(2) by (intro sint_of_nat32) simp
  then show ?case using 0 by (subst scan_name.simps) simp
next
  case (Suc l)
  have s: "sint (cl_name_used m c) = int j" unfolding u(1) using u(2) by (intro sint_of_nat32) simp
  have n: "n < j" "j - Suc n = l" "j - n = Suc l" using Suc.hyps(2) by simp_all
  show ?case
  proof (cases "in_name (m (cl_name c + of_nat n))")
    case True
    then have "scan_name m c n = scan_name m c (Suc n)"
      using n(1) s by (subst scan_name.simps) (simp add: in_name_def)
    with Suc.hyps(1)[of "Suc n"] n True show ?thesis
      by (simp add: ld_bytes_Suc Let_def add.assoc add.commute[of 1])
  next
    case False
    have "sint (cl_name_used (named_at c n m) c) = int n"
      unfolding named_at_def cl_name_used_def set_name_used_def c32.ld_st_same
      using n(1) u(2) by (intro sint_of_nat32) simp
    then have "scan_name (named_at c n m) c (n + 1) = named_at c n m"
      by (subst scan_name.simps) simp
    then have "scan_name m c n = named_at c n m"
      using n(1) s False by (subst scan_name.simps) (simp add: in_name_def named_at_def)
    then show ?thesis using False n(3) by (simp add: ld_bytes_Suc Let_def)
  qed
qed

lemma named_at_facts:
  fixes m :: mem and c :: u64
  assumes i: "i < 32"
  defines "m' \<equiv> named_at c i m"
  shows "only (span (c + 520) 40) m m'" "cl_name_ok m' c = 1" "cl_name_used m' c = of_nat i"
    "m' (cl_name c + of_nat i) = 0" "cl_buf_used m' c = cl_buf_used m c" "cl_fd m' c = cl_fd m c"
    "stale_ok m' c" "ld_bytes m' (cl_name c) i = ld_bytes m (cl_name c) i"
proof -
  let ?a = "cl_name c + of_nat i"
  have "?a \<in> span (c + 520) 32" unfolding cl_name_def by (rule in_span_of_nat) (use i in simp_all)
  moreover have s32: "span (c + 520) 32 \<subseteq> span (c + 520) 40" by (rule span_mono) simp
  moreover have "span (c + 552) 4 \<subseteq> span (c + 520) 40" "span (c + 556) 4 \<subseteq> span (c + 520) 40"
    using span_sub[of 32 4 40 "c + 520"] span_sub[of 36 4 40 "c + 520"] by (simp_all add: add.assoc)
  ultimately show o: "only (span (c + 520) 40) m m'"
    unfolding m'_def named_at_def set_name_used_def set_name_ok_def
    by (intro c32.only_st_in only_upd only_refl) auto
  show used: "cl_name_used m' c = of_nat i"
    by (simp add: m'_def named_at_def cl_name_used_def set_name_used_def c32.ld_st_same)
  have d: "disj (c + 556) 4 (c + 552) 4" by (simp add: disj_def)
  show ok: "cl_name_ok m' c = 1"
    by (simp add: m'_def named_at_def cl_name_ok_def set_name_used_def set_name_ok_def c32.ld_st_disj[OF d]
        c32.ld_st_same)
  have "span (c + 4) 4 \<inter> span (c + 520) 40 = {}" "span c 4 \<inter> span (c + 520) 40 = {}"
    by (rule disj_spans, simp add: disj_def)+
  then show "cl_buf_used m' c = cl_buf_used m c" "cl_fd m' c = cl_fd m c"
    using c32.only_ld[OF o] by (simp_all add: cl_buf_used_def cl_fd_def)
  have d8: "disj (c + 520) 32 (c + 552) 8" by (simp add: disj_def)
  have o8: "only (span (c + 552) 8) (m(?a := 0)) m'"
  proof -
    have "span (c + 552) 4 \<subseteq> span (c + 552) 8" "span (c + 556) 4 \<subseteq> span (c + 552) 8"
      using span_sub[of 4 4 8 "c + 552"] by (simp_all add: span_mono add.assoc)
    then show ?thesis unfolding m'_def named_at_def set_name_used_def set_name_ok_def
      by (intro c32.only_st_in only_refl)
  qed
  have keep: "m' x = (m(?a := 0)) x" if "x \<in> span (c + 520) 32" for x
    using o8 disj_spans[OF d8] that by (auto simp: only_def)
  show z: "m' ?a = 0" using keep[OF \<open>?a \<in> _\<close>] by simp
  then show "stale_ok m' c" using ok used i by (auto simp: stale_ok_def max_name_len_def)
  show "ld_bytes m' (cl_name c) i = ld_bytes m (cl_name c) i"
  proof (rule nth_equalityI)
    fix l assume "l < length (ld_bytes m' (cl_name c) i)"
    then have l: "l < i" by simp
    have "(of_nat l :: u64) \<noteq> of_nat i"
    proof
      assume "(of_nat l :: u64) = of_nat i"
      then have "unat (of_nat l :: u64) = unat (of_nat i :: u64)" by simp
      then show False using l i by (simp add: unat_of_nat_less)
    qed
    moreover have "cl_name c + of_nat l \<in> span (c + 520) 32"
      unfolding cl_name_def by (rule in_span_of_nat) (use l i in simp_all)
    ultimately show "ld_bytes m' (cl_name c) i ! l = ld_bytes m (cl_name c) i ! l" using l keep by simp
  qed simp
qed

text \<open>What a client with a new name causes: its welcome, and the news for the others.\<close>

definition announce :: "platform \<Rightarrow> u64 \<Rightarrow> server \<Rightarrow> world \<Rightarrow> halt + server \<times> world" where
  "announce P c serv w =
    (let s = unsafe_slice (stk P ''session_name_read.msg'') (of_nat 71);
         name = (cl_name c, scast (cl_name_used (wmem w) c));
         st = c_nstring_in_slice (wmem w) s (lit P welcome_msg) (of_nat (length welcome_msg));
         st = append_write write_nstring s name st;
         (n, m) = append_write write_nstring s (lit P newline, 1) st;
         w = world_of (sys_write P (w\<lparr>wmem := m\<rparr>) (cl_fd m c) (sl_base s) n);
         st = c_nstring_in_slice (wmem w) s (cl_name c) (scast (cl_name_used (wmem w) c));
         (n, m) = append_write write_nstring s (lit P entered_msg, of_nat (length entered_msg)) st
     in andthen (slice_right s n) (\<lambda>msg.
        andthen (session_send_all P (get_string msg) c serv (w\<lparr>wmem := m\<rparr>)) (\<lambda>w. Inr (serv, w))))"

lemma message_lengths: "length welcome_msg = 38" "length entered_msg = 22" "length newline = 1"
  by (simp_all add: welcome_msg_def entered_msg_def newline_def)

lemma session_name_read_alt:
  "session_name_read P c serv w =
    andthen (name_read_loop (fuel P) P c (cl_name_used (wmem w) c) serv w) (\<lambda>(go, serv, w).
    if \<not> go then Inr (serv, w)
    else let w = on_mem (\<lambda>m. scan_name m c 0) w
         in if cl_name_ok (wmem w) c = 1 then announce P c serv w else Inr (serv, w))"
proof -
  have "length welcome_msg + 1 + max_name_len = 71" by (simp add: message_lengths max_name_len_def)
  then show ?thesis unfolding session_name_read_def announce_def by (simp only:)
qed

definition entered_calls :: "platform \<Rightarrow> mem \<Rightarrow> u64 \<Rightarrow> pools \<Rightarrow> sys_call list" where
  "entered_calls P m c pls =
    (let buf = stk P ''session_name_read.msg''; name = used_name m c
     in to_others P m buf (name @ bytes_of entered_msg) c pls @
        [write_call (cl_fd m c) buf (bytes_of welcome_msg @ name @ [10])])"

lemma announce_spec:
  assumes plat: "platform_ok P" and g: "good P w s pls" and c: "c \<in> set (clients pls)"
    and named: "cl_name_ok (wmem w) c = 1"
  obtains w' where "announce P c s w = Inr (s, w')" "good P w' s pls"
    "trace w' = entered_calls P (wmem w) c pls @ trace w" "only (scratch P) (wmem w) (wmem w')"
proof -
  let ?m = "wmem w" and ?b = "stk P ''session_name_read.msg''"
  let ?s = "unsafe_slice ?b (of_nat 71)"
  note G = good_parts[OF g]
  have lay: "layout_ok P" and kern: "kernel_ok (kern P)" using plat by (simp_all add: platform_ok_def)
  have lits: "literals_ok P ?m" using G(1) by (simp add: server_ok_def)
  have sc: "is_slot pls c" by (rule clients_slots[OF G(1) c])
  obtain n where n: "n < 32" "cl_name_used ?m c = of_nat n" "scast (cl_name_used ?m c) = (of_nat n :: u64)"
    "used_name ?m c = ld_bytes ?m (cl_name c) n" using named_count[OF good_stale[OF g c] named] by metis
  have src: "source P (cl_name c) n" using source_name[OF G(1) sc] n(1) by simp
  define t1 where "t1 = bytes_of welcome_msg @ used_name ?m c @ [10]"
  have len1: "length t1 \<le> 71" using n(1) by (simp add: t1_def n(4) message_lengths)
  note lb = literal_after[OF lits lay]
  have "c_nstring_in_slice ?m ?s (lit P welcome_msg) (of_nat (length welcome_msg)) = built ?m ?b (bytes_of welcome_msg)"
    unfolding lb(1)[OF literals_in(5), symmetric]
    by (rule first_source[OF lay locals_in(5) lb(2)[OF literals_in(5)]]) (simp add: message_lengths)
  moreover have "append_write write_nstring ?s (cl_name c, of_nat n) (built ?m ?b (bytes_of welcome_msg)) =
      built ?m ?b (bytes_of welcome_msg @ used_name ?m c)"
    unfolding n(4) using n(1) by (intro append_source[OF lay locals_in(5) src _ only_refl]) (simp add: message_lengths)
  moreover have "append_write write_nstring ?s (lit P newline, of_nat (length newline))
      (built ?m ?b (bytes_of welcome_msg @ used_name ?m c)) = built ?m ?b ((bytes_of welcome_msg @ used_name ?m c) @ bytes_of newline)"
    unfolding lb(1)[OF literals_in(4), symmetric] using n(1)
    by (intro append_source[OF lay locals_in(5) lb(2)[OF literals_in(4)] _ only_refl]) (simp add: message_lengths n(4))
  moreover have "(bytes_of welcome_msg @ used_name ?m c) @ bytes_of newline = t1"
    by (simp add: t1_def newline_def)
  ultimately have st1: "append_write write_nstring ?s (lit P newline, 1) (append_write write_nstring ?s (cl_name c, of_nat n)
      (c_nstring_in_slice ?m ?s (lit P welcome_msg) (of_nat (length welcome_msg)))) = built ?m ?b t1"
    by (simp add: message_lengths)
  let ?m1 = "st_bytes ?m ?b t1"
  have o1: "only (scratch P) ?m ?m1" using built_only[OF locals_in(5) len1 only_refl] by (simp add: built_def)
  have u1: "unat (of_nat (length t1) :: u64) = length t1" using len1 by (intro unat_of_nat_less) simp
  have fd1: "cl_fd ?m1 c = cl_fd ?m c" "cl_name_ok ?m1 c = cl_name_ok ?m c" "cl_name_used ?m1 c = cl_name_used ?m c"
    using client_agree(1,3,4)[OF scratch_good(3)[OF plat g o1 harmless_simps(1) c]] by simp_all
  define w1 where "w1 = w\<lparr>wmem := ?m1, trace := [write_call (cl_fd ?m c) ?b t1] @ trace w\<rparr>"
  have ldt: "ld_bytes ?m1 ?b (length t1) = t1" using len1 by (intro ld_bytes_st_bytes_same) simp
  have send1: "world_of (sys_write P (w\<lparr>wmem := ?m1\<rparr>) (cl_fd ?m1 c) ?b (of_nat (length t1))) = w1"
    using sys_write_world[OF kern, of "w\<lparr>wmem := ?m1\<rparr>" "cl_fd ?m c" ?b "of_nat (length t1)"]
    by (simp add: fd1 w1_def u1 ldt)
  have g1: "good P w1 s pls" unfolding w1_def by (rule scratch_good(1)[OF plat g o1]) simp
  have m1: "wmem w1 = ?m1" by (simp add: w1_def)
  note G1 = good_parts[OF g1]
  have lits1: "literals_ok P ?m1" using G1(1) by (simp add: server_ok_def m1)
  have nm1: "ld_bytes ?m1 (cl_name c) n = used_name ?m c"
    unfolding n(4) by (rule only_ld_bytes[OF o1]) (use src n(1) in \<open>auto simp: source_def\<close>)
  define t2 where "t2 = used_name ?m c @ bytes_of entered_msg"
  have len2: "length t2 \<le> 71" using n(1) by (simp add: t2_def n(4) message_lengths)
  note le = literal_after[OF lits1 lay literals_in(6)]
  have "c_nstring_in_slice ?m1 ?s (cl_name c) (of_nat n) = built ?m1 ?b (used_name ?m c)"
    using first_source[OF lay locals_in(5) src] n(1) by (simp add: nm1)
  moreover have "append_write write_nstring ?s (lit P entered_msg, of_nat (length entered_msg))
      (built ?m1 ?b (used_name ?m c)) = built ?m1 ?b t2"
    unfolding t2_def le(1)[symmetric] using n(1)
    by (intro append_source[OF lay locals_in(5) le(2) _ only_refl]) (simp add: message_lengths n(4))
  ultimately have st2: "append_write write_nstring ?s (lit P entered_msg, of_nat (length entered_msg))
      (c_nstring_in_slice ?m1 ?s (cl_name c) (of_nat n)) = built (wmem w1) ?b t2" by (simp add: m1)
  let ?m2 = "st_bytes ?m1 ?b t2"
  have o2: "only (scratch P) (wmem w1) ?m2" using built_only[OF locals_in(5) len2 only_refl] by (simp add: built_def m1)
  have others: "to_others P ?m1 ?b t2 c pls = to_others P ?m ?b t2 c pls"
    using client_agree(1)[OF scratch_good(3)[OF plat g o1 harmless_simps(1)]] by (simp add: to_others_def)
  define w2 where "w2 = w1\<lparr>wmem := ?m2, trace := to_others P ?m ?b t2 c pls @ trace w1\<rparr>"
  have send2: "andthen (slice_right ?s (fst (built (wmem w1) ?b t2)))
      (\<lambda>msg. session_send_all P (get_string msg) c s (w1\<lparr>wmem := snd (built (wmem w1) ?b t2)\<rparr>)) = Inr w2"
    using send_built[OF plat G1(1) locals_in(5) len2, of c] by (simp add: others m1 w2_def)
  have "announce P c s w = andthen (andthen (slice_right ?s (fst (built (wmem w1) ?b t2)))
      (\<lambda>msg. session_send_all P (get_string msg) c s (w1\<lparr>wmem := snd (built (wmem w1) ?b t2)\<rparr>))) (\<lambda>w. Inr (s, w))"
    unfolding andthen_assoc announce_def
    by (simp add: Let_def n(3) st1 send1[unfolded fd1] st2[unfolded m1] m1 fd1 split_def fst_conv[of _ ?m1] built_def[of ?m] del: of_nat_numeral)
  then have run: "announce P c s w = Inr (s, w2)" by (simp only: send2 andthen_simps)
  have g2: "good P w2 s pls" unfolding w2_def by (rule scratch_good(1)[OF plat g1 o2 harmless_left(1)])
  have "only (scratch P) ?m (wmem w2)" unfolding w2_def using only_trans[OF o1 o2[unfolded m1]] by simp
  then show ?thesis using that[OF run g2] by (simp add: w2_def w1_def entered_calls_def Let_def t1_def t2_def)
qed

lemma write_good_mem:
  assumes "platform_ok P" and "good P w s pls" and "c \<in> set (clients pls)"
    and "only (span (c + 4) 556) (wmem w) m'" and "stale_ok m' c" and "live_ok m' c"
  shows "good P (w\<lparr>wmem := m'\<rparr>) s pls" and "agree (events_area P) (wmem w) m'"
proof -
  have o: "only (span (c + 4) 556 \<union> scratch P) (wmem w) m'" by (rule only_mono[OF assms(4)]) simp
  show "good P (w\<lparr>wmem := m'\<rparr>) s pls"
    using write_good[OF assms(1-3) o assms(5,6) harmless_simps(1)] by simp
  show "agree (events_area P) (wmem w) m'"
    by (rule write_state(4)[OF assms(1-3) o assms(5) harmless_simps(1)])
qed

text \<open>The scan of a good state: either no line break and nothing changes, or a named client.\<close>

definition received :: "mem \<Rightarrow> u64 \<Rightarrow> u8 list" where
  "received m c = ld_bytes m (cl_name c) (nat (sint (cl_name_used m c)))"

lemma scan_good:
  assumes plat: "platform_ok P" and g: "good P w s pls" and c: "c \<in> set (clients pls)"
  obtains "scan_name (wmem w) c 0 = wmem w" "\<forall>x \<in> set (received (wmem w) c). in_name x"
  | m' where "scan_name (wmem w) c 0 = m'" "\<exists>x \<in> set (received (wmem w) c). \<not> in_name x"
    "good P (w\<lparr>wmem := m'\<rparr>) s pls" "agree (events_area P) (wmem w) m'" "cl_name_ok m' c = 1"
    "used_name m' c = takeWhile in_name (received (wmem w) c)" "only (span (c + 520) 40) (wmem w) m'"
    "cl_fd m' c = cl_fd (wmem w) c"
proof -
  obtain b j where l: "cl_buf_used (wmem w) c = of_nat b" "b \<le> 512" "cl_name_used (wmem w) c = of_nat j" "j \<le> 32"
    using counter_bounds[OF g c] by metis
  have bs: "received (wmem w) c = ld_bytes (wmem w) (cl_name c) j"
    using sint_of_nat32[of j] l(4) by (simp add: received_def l(3))
  note sn = scan_name_spec[OF l(3,4), of 0, folded bs]
  show ?thesis
  proof (cases "\<forall>x \<in> set (received (wmem w) c). in_name x")
    case True
    then show ?thesis using that(1) sn bs by (simp add: Let_def)
  next
    case False
    define i where "i = length (takeWhile in_name (received (wmem w) c))"
    have ij: "i < j" using takeWhile_stops[of "received (wmem w) c" in_name] False by (simp add: i_def bs)
    then have i: "i < 32" using l(4) by simp
    note f = named_at_facts[OF i, of c "wmem w"]
    have sc: "scan_name (wmem w) c 0 = named_at c i (wmem w)" using sn False bs i_def by (simp add: Let_def)
    have sub: "span (c + 520) 40 \<subseteq> span (c + 4) 556"
      using span_sub[of 516 40 556 "c + 4"] by (simp add: add.assoc)
    have "live_ok (named_at c i (wmem w)) c"
      unfolding live_ok_def using f(3,5) l i by (auto simp: max_line_len_def max_name_len_def intro: exI[of _ i])
    note wg = write_good_mem[OF plat g c only_mono[OF f(1) sub] f(7) this]
    have "used_name (named_at c i (wmem w)) c = ld_bytes (wmem w) (cl_name c) i"
      using sint_of_nat32[of i] i by (simp add: used_name_def f(3,8))
    also have "\<dots> = take i (received (wmem w) c)" using ij by (simp add: bs min_def)
    also have "\<dots> = takeWhile in_name (received (wmem w) c)" unfolding i_def by (rule takeWhile_eq_take[symmetric])
    finally show ?thesis using that(2)[OF sc _ wg f(2) _ f(1,6)] False by blast
  qed
qed

lemma name_read_tail:
  assumes plat: "platform_ok P" and c: "c \<in> set (clients pls)"
    and o: "loop_outcome P c (span (c + 520) 36) pls s w r" and fresh: "cl_name_ok (wmem w) c = 0"
  defines "rest \<equiv> \<lambda>(go, serv, w). if \<not> go then Inr (serv, w)
    else let w = on_mem (\<lambda>m. scan_name m c 0) w
         in if cl_name_ok (wmem w) c = 1 then announce P c serv w else Inr (serv, w)"
  shows "settles P c pls w (andthen r rest)" and "r = Inr x \<Longrightarrow> \<exists>y. andthen r rest = Inr y"
proof -
  have "settles P c pls w (andthen r rest) \<and> (r = Inr x \<longrightarrow> (\<exists>y. andthen r rest = Inr y))"
  proof (cases r)
    case (Inl h)
    then show ?thesis using o by (simp add: loop_outcome_def settles_def)
  next
    case (Inr gsw)
    obtain go s1 w1 where r: "r = Inr (go, s1, w1)" using Inr by (cases gsw) auto
    show ?thesis
    proof (cases go)
      case True
      then have l: "s1 = s" "good P w1 s pls" "only (span (c + 520) 36) (wmem w) (wmem w1)"
        "agree (events_area P) (wmem w) (wmem w1)" using o r by (simp_all add: loop_outcome_def)
      have ok0: "cl_name_ok (wmem w1) c = 0" using name_reader.keep(1)[OF l(3)] fresh by simp
      have run: "andthen r rest = (if cl_name_ok (scan_name (wmem w1) c 0) c = 1
          then announce P c s (w1\<lparr>wmem := scan_name (wmem w1) c 0\<rparr>)
          else Inr (s, w1\<lparr>wmem := scan_name (wmem w1) c 0\<rparr>))"
        using r True l(1) by (simp add: rest_def on_mem_def Let_def)
      show ?thesis
      proof (cases rule: scan_good[OF plat l(2) c])
        case 1
        then show ?thesis using run ok0 settled_after[OF l(4) good_settled[OF l(2)]]
          by (auto simp: settles_def)
      next
        case (2 m')
        have "cl_name_ok (wmem (w1\<lparr>wmem := m'\<rparr>)) c = 1" using 2(5) by simp
        from announce_spec[OF plat 2(3) c this] obtain w2 where w2:
          "announce P c s (w1\<lparr>wmem := m'\<rparr>) = Inr (s, w2)" "good P w2 s pls" "only (scratch P) m' (wmem w2)"
          by auto
        have "agree (events_area P) m' (wmem w2)"
          using scratch_good(2)[OF plat 2(3) _ harmless_simps(1), of "wmem w2"] w2(3) by simp
        from settled_after[OF agree_trans[OF agree_trans[OF l(4) 2(4)] this] good_settled[OF w2(2)]]
        show ?thesis using run 2(1,5) w2(1) by (auto simp: settles_def)
      qed
    qed (use o r in \<open>auto simp: loop_outcome_def settles_def rest_def\<close>)
  qed
  then show "settles P c pls w (andthen r rest)" "r = Inr x \<Longrightarrow> \<exists>y. andthen r rest = Inr y" by blast+
qed

lemma session_name_read_spec:
  assumes plat: "platform_ok P" and g: "good P w s pls" and c: "c \<in> set (clients pls)"
    and fresh: "cl_name_ok (wmem w) c = 0"
  shows "settles P c pls w (session_name_read P c s w)"
    and "uninterrupted P \<Longrightarrow> \<exists>y. session_name_read P c s w = Inr y"
proof -
  obtain n where n: "cl_name_used (wmem w) c = of_nat n" "n \<le> 32" using counter_bounds[OF g c] by metis
  note o = name_reader.loop_spec[OF plat n(2) g c fresh, of "fuel P", folded n(1)]
  show "settles P c pls w (session_name_read P c s w)"
    unfolding session_name_read_alt by (rule name_read_tail(1)[OF plat c o fresh])
  assume "uninterrupted P"
  moreover have "32 - n < fuel P" using plat unfolding platform_ok_def by linarith
  ultimately obtain r where "name_read_loop (fuel P) P c (of_nat n) s w = Inr r"
    using name_reader.loop_returns[OF plat n(2) _ g c fresh n] by blast
  then show "\<exists>y. session_name_read P c s w = Inr y"
    unfolding session_name_read_alt by (intro name_read_tail(2)[OF plat c o fresh]) (simp add: n(1))
qed

end
