(* ===== verification/Serving.thy ===== *)
theory Serving
  imports Reading
begin

text \<open>
  The server as a whole: accepting clients, dispatching the events of one wait, the rounds of the
  event loop, and the start of the program. The events are what the kernel has stored in the array
  of \<^verbatim>\<open>server_go\<close>.
\<close>

section \<open>States between the steps of a handler\<close>

text \<open>A call that stores nothing, unmaps nothing and registers nothing.\<close>

definition calm :: "world \<Rightarrow> world \<Rightarrow> bool" where
  "calm w w' \<longleftrightarrow> (\<exists>c. ordinary c \<and> w' = w\<lparr>trace := c # trace w\<rparr>)"

lemma calmI: "ordinary c \<Longrightarrow> calm w (w\<lparr>trace := c # trace w\<rparr>)"
  by (auto simp: calm_def)

lemma calm_calls:
  assumes "kernel_ok (kern P)"
  shows "calm w (world_of (sys_socket P w family type protocol))"
    and "calm w (snd (sys_bind P w fd addr alen))"
    and "calm w (snd (sys_setsockopt P w fd level opt val vlen))"
    and "calm w (snd (sys_listen P w fd qlen))"
    and "calm w (world_of (sys_accept4 P w fd addr alenp flags))"
    and "calm w (world_of (sys_epoll_create1 P w flags))"
    and "calm w (world_of (sys_write P w fd buf n))"
    and "calm w (snd (sys_close P w fd))"
  using syscall_raw_quiet[OF assms]
  by (simp_all add: calmI world_of_def sys_socket_def sys_bind_def sys_setsockopt_def sys_listen_def
      sys_accept4_def sys_epoll_create1_def sys_write_def sys_close_def syscall3_def
      syscall6_def split_def Let_def stores_nothing_def syscall_numbers ordinary_def)

lemma calm_mem: "calm w w' \<Longrightarrow> wmem w' = wmem w"
  by (auto simp: calm_def)

lemma calm_state: "calm w w' \<Longrightarrow> state_ok P w s pls \<Longrightarrow> state_ok P w' s pls"
  using blocks_mapped_grows[of P pls "trace w" "[c]" for c] by (auto simp: calm_def state_ok_def)

lemma calm_watched: "calm w w' \<Longrightarrow> watched P w pls \<Longrightarrow> watched P w' pls"
  using watched_harmless[of P w pls "[c]" "wmem w" for c] by (auto simp: calm_def)

lemma calm_good: "calm w w' \<Longrightarrow> good P w s pls \<Longrightarrow> good P w' s pls"
  using calm_state calm_watched by (auto simp: good_def calm_mem)

text \<open>A registration that the kernel may or may not accept.\<close>

definition ctl_call :: "platform \<Rightarrow> mem \<Rightarrow> u32 \<Rightarrow> u32 \<Rightarrow> u64 \<Rightarrow> sys_call" where
  "ctl_call P m epfd fd ev = \<lparr>sc_nr = s_epoll_ctl,
     sc_args = [int_arg epfd, int_arg epoll_ctl_add, int_arg fd, ev, 0, 0], sc_data = ld_bytes m ev 12\<rparr>"

lemma store_event_data: "event_data (ld_bytes (store_event ev e p m) ev 12) = p"
proof -
  have "drop 4 (ld_bytes m' ev (4 + 8)) = ld_bytes m' (ev + 4) 8" for m'
    unfolding ld_bytes_add by simp
  then have "take 8 (drop 4 (ld_bytes m' ev 12)) = ld_bytes m' (ev + 4) 8" for m' by simp
  then show ?thesis by (simp add: event_data_def store_event_def ld64_def[symmetric] c64.ld_st_same)
qed

lemma ctl_cases:
  assumes kern: "kernel_ok (kern P)"
  obtains e where "sys_epoll_ctl P w epfd epoll_ctl_add fd ev = (Some e, w\<lparr>trace := ctl_call P (wmem w) epfd fd ev # trace w\<rparr>)"
      "registered (kern P) (ctl_call P (wmem w) epfd fd ev # trace w) = registered (kern P) (trace w)"
      "\<not> succeeded (kern P (ctl_call P (wmem w) epfd fd ev # trace w))"
  | "sys_epoll_ctl P w epfd epoll_ctl_add fd ev = (None, w\<lparr>trace := ctl_call P (wmem w) epfd fd ev # trace w\<rparr>)"
      "registered (kern P) (ctl_call P (wmem w) epfd fd ev # trace w) =
        insert (fd, event_data (ld_bytes (wmem w) ev 12)) (registered (kern P) (trace w))"
proof -
  let ?c = "ctl_call P (wmem w) epfd fd ev"
  have "stores_nothing ?c" by (simp add: ctl_call_def stores_nothing_def syscall_numbers)
  from syscall_raw_quiet[OF kern this] have q: "snd (syscall_raw P w ?c) = w\<lparr>trace := ?c # trace w\<rparr>" .
  have r: "sys_epoll_ctl P w epfd epoll_ctl_add fd ev =
      (if errno (fst (syscall_raw P w ?c)) \<noteq> 0 then set_error (errno (fst (syscall_raw P w ?c))) else None,
       snd (syscall_raw P w ?c))"
    by (simp add: sys_epoll_ctl_def syscall6_def ctl_call_def split_def Let_def)
  show ?thesis
  proof (cases "succeeded (kern P (?c # trace w))")
    case True
    have "errno (fst (syscall_raw P w ?c)) = 0" using syscall_raw_succeeded[OF True] by simp
    with that(2) r q True show ?thesis by (simp add: ctl_call_def ucast_back int_arg_def syscall_numbers)
  next
    case False
    obtain e where "set_error (errno (fst (syscall_raw P w ?c))) = Some e" "errno (fst (syscall_raw P w ?c)) \<noteq> 0"
      using syscall_raw_failed[OF kern False] by force
    with that(1) r q False show ?thesis by (simp add: ctl_call_def syscall_numbers)
  qed
qed

text \<open>A write into the locals, and a report, in a state with a client that is not yet set up.\<close>

lemma scratch_state:
  assumes plat: "platform_ok P" and st: "state_ok P w s pls" and o: "only (scratch P) (wmem w) m'"
  shows "state_ok P (w\<lparr>wmem := m'\<rparr>) s pls" "agree (events_area P) (wmem w) m'"
    "d \<in> set (clients pls) \<Longrightarrow> agree (client_span d) (wmem w) m'"
    "watched P w pls' \<Longrightarrow> set (clients pls') \<subseteq> set (clients pls) \<Longrightarrow> watched P (w\<lparr>wmem := m'\<rparr>) pls'"
proof -
  have lay: "layout_ok P" using plat by (simp add: platform_ok_def)
  have ok: "server_ok P (wmem w) s pls" using st by (simp add: state_ok_def)
  note sw = scratch_write[OF ok lay o]
  show "state_ok P (w\<lparr>wmem := m'\<rparr>) s pls" using sw(1) st by (simp add: state_ok_def)
  show "agree (events_area P) (wmem w) m'" using events_apart[OF lay ok] by (intro only_agree[OF o]) auto
  show ag: "agree (client_span d) (wmem w) m'" if "d \<in> set (clients pls)" for d
    by (rule sw(2)[OF clients_slots[OF ok that]])
  show "watched P (w\<lparr>wmem := m'\<rparr>) pls'" if "watched P w pls'" "set (clients pls') \<subseteq> set (clients pls)"
    using watched_harmless[OF that(1) harmless_simps(1), of m'] client_agree(1)[OF ag] that(2) by auto
qed

lemma report_state:
  assumes plat: "platform_ok P" and st: "state_ok P w s pls" and f: "f \<in> set literals_used"
    "args_needed (bytes_of f) = Some n" "n \<le> length args"
  obtains j w' where "fmt_fprintf P w stderr (lit P f) args = Inr (j, w')" "state_ok P w' s pls"
    "only (scratch P) (wmem w) (wmem w')" "watched P w pls \<longrightarrow> watched P w' pls"
proof -
  have ok: "server_ok P (wmem w) s pls" "blocks_mapped P pls (trace w)" using st by (simp_all add: state_ok_def)
  have "literals_ok P (wmem w)" using ok by (simp add: server_ok_def)
  then obtain j w' where r: "fmt_fprintf P w stderr (lit P f) args = Inr (j, w')" "reported P stderr w w'"
    "only (scratch P) (wmem w) (wmem w')"
    by (rule server_report[OF plat _ f])
  then obtain bs where tr: "trace w' = [write_call stderr (stk P ''fmt_fprintf.buf'') bs] @ trace w"
    by (auto simp: reported_def)
  have "blocks_mapped P pls (trace w')" unfolding tr by (rule blocks_mapped_grows[OF ok(2)]) simp
  moreover have "server_ok P (wmem w') s pls"
    using scratch_state(1)[OF plat st r(3)] by (simp add: state_ok_def)
  moreover have "watched P w' pls" if wt: "watched P w pls"
  proof -
    have "w' = w\<lparr>wmem := wmem w', trace := [write_call stderr (stk P ''fmt_fprintf.buf'') bs] @ trace w\<rparr>"
      using tr by simp
    moreover have "watched P (w\<lparr>wmem := wmem w', trace := [write_call stderr (stk P ''fmt_fprintf.buf'') bs] @ trace w\<rparr>) pls"
      using client_agree(1)[OF scratch_state(3)[OF plat st r(3)]] by (intro watched_harmless[OF wt]) simp_all
    ultimately show ?thesis by simp
  qed
  ultimately show ?thesis using that[OF r(1) _ r(3)] by (simp add: state_ok_def)
qed

section \<open>Accepting clients\<close>

text \<open>
  Serving ends in a good state, if it ends, and no client is lost; the one exit is for want of
  memory for a new pool.
\<close>

definition serves :: "platform \<Rightarrow> pools \<Rightarrow> world \<Rightarrow> halt + server \<times> world \<Rightarrow> bool" where
  "serves P pls w r \<longleftrightarrow> (case r of Inl h \<Rightarrow> h = Out_of_fuel \<or> h = Exited 1
     | Inr (s', w') \<Rightarrow> \<exists>pls'. good P w' s' pls' \<and> set (clients pls) \<subseteq> set (clients pls') \<and>
         agree (events_area P) (wmem w) (wmem w'))"

lemma serves_after:
  "agree (events_area P) (wmem w) (wmem w1) \<Longrightarrow> set (clients pls) \<subseteq> set (clients pls1) \<Longrightarrow>
   serves P pls1 w1 r \<Longrightarrow> serves P pls w r"
  by (fastforce simp: serves_def split: sum.splits intro: agree_trans)

lemma init_client_facts:
  fixes m :: mem and c :: u64 and fd :: u32
  defines "m' \<equiv> init_client c fd m"
  shows "only (span c 560) m m'" "cl_fd m' c = fd" "cl_buf_used m' c = 0" "cl_name_used m' c = 0"
    "cl_name_ok m' c = 0" "stale_ok m' c" "live_ok m' c"
proof -
  have "span (c + k) 4 \<subseteq> span c 560" if "unat k + 4 \<le> 560" for k by (rule span_sub[OF that]) simp
  from this[of 0] this[of 4] this[of 552] this[of 556] show "only (span c 560) m m'"
    unfolding m'_def init_client_def Let_def set_fd_def set_buf_used_def set_name_used_def set_name_ok_def
    by (intro c32.only_st_in only_refl) simp_all
  have d: "disj c 4 (c + 4) 4" "disj c 4 (c + 552) 4" "disj c 4 (c + 556) 4" "disj (c + 4) 4 (c + 552) 4"
    "disj (c + 4) 4 (c + 556) 4" "disj (c + 552) 4 (c + 556) 4"
    by (simp_all add: disj_def)
  note defs = m'_def init_client_def Let_def set_fd_def set_buf_used_def set_name_used_def set_name_ok_def
    cl_fd_def cl_buf_used_def cl_name_used_def cl_name_ok_def
  show fd: "cl_fd m' c = fd" "cl_buf_used m' c = 0" "cl_name_used m' c = 0" "cl_name_ok m' c = 0"
    by (simp_all add: defs c32.ld_st_same d[THEN c32.ld_st_disj])
  then show "stale_ok m' c" "live_ok m' c"
    by (auto simp: stale_ok_def live_ok_def intro: exI[of _ 0])
qed

lemma store_event_only: "(v, 12) \<in> set locals \<Longrightarrow> only (scratch P) m (store_event (stk P v) e p m)"
proof -
  assume v: "(v, 12) \<in> set locals"
  have "span (stk P v + 0) 4 \<subseteq> span (stk P v) 12" "span (stk P v + 4) 8 \<subseteq> span (stk P v) 12"
    by (rule span_sub; simp)+
  then show ?thesis unfolding store_event_def using local_scratch[OF v, of P]
    by (intro c64.only_st_in c32.only_st_in only_refl) auto
qed

text \<open>A new client is set up: it becomes live, and the others stay so.\<close>

lemma setup_good:
  assumes plat: "platform_ok P" and st: "state_ok P w s pls" and c: "c \<in> set (clients pls)"
    and live: "\<And>d. d \<in> set (clients pls) \<Longrightarrow> d \<noteq> c \<Longrightarrow> live_ok (wmem w) d"
    and reg: "\<And>f p. (f, p) \<in> registered (kern P) (trace w) \<Longrightarrow> p = stk P ''_start.serv'' \<or> p = c \<and> f = fd \<or>
      p \<in> set (clients pls) \<and> p \<noteq> c \<and> cl_fd (wmem w) p = f"
  shows "good P (on_mem (init_client c fd) w) s pls"
    and "agree (events_area P) (wmem w) (init_client c fd (wmem w))"
proof -
  let ?m = "init_client c fd (wmem w)"
  have ok: "server_ok P (wmem w) s pls" and lay: "layout_ok P" using st plat by (simp_all add: state_ok_def platform_ok_def)
  note f = init_client_facts[where c = c and fd = fd and m = "wmem w"]
  have o: "only (span c 560 \<union> scratch P) (wmem w) ?m" by (rule only_mono[OF f(1)]) simp
  note cw = client_write[OF ok lay c o f(6)]
  have "live_ok ?m d" if d: "d \<in> set (clients pls)" for d
  proof (cases "d = c")
    case False
    from client_agree(7)[OF cw(2)[OF clients_slots[OF ok d] False]] live[OF d False] show ?thesis by simp
  qed (use f(7) in simp)
  moreover have "watched P (on_mem (init_client c fd) w) pls"
  proof -
    have "cl_fd ?m d = cl_fd (wmem w) d" if "d \<in> set (clients pls)" "d \<noteq> c" for d
      by (rule client_agree(1)[OF cw(2)[OF clients_slots[OF ok that(1)] that(2)]])
    then show ?thesis using reg f(2) c by (fastforce simp: watched_def on_mem_def)
  qed
  ultimately show "good P (on_mem (init_client c fd) w) s pls"
    using cw(1) st by (simp add: good_def state_ok_def all_live_def on_mem_def)
  have "span c 560 \<subseteq> pool_area pls" using client_area[OF ok c] client_part[of 0 560 c] by auto
  then show "agree (events_area P) (wmem w) ?m"
    using events_apart[OF lay ok] by (intro only_agree[OF o]) blast
qed

lemma opened_after:
  assumes g: "good P w s pls" and o: "opened P c pls w s' w' pls'"
  shows "state_ok P w' s' pls'" "c \<noteq> 0" "c \<in> set (clients pls')" "set (clients pls) \<subseteq> set (clients pls')"
    "c \<notin> set (clients pls)" "\<And>d. d \<in> set (clients pls') \<Longrightarrow> d \<noteq> c \<Longrightarrow> live_ok (wmem w') d"
    "agree (events_area P) (wmem w) (wmem w')" "watched P w' pls"
proof -
  show "watched P w' pls"
  proof (rule watched_step)
    show "watched P w pls" using g by (simp add: good_def)
    obtain cs where "harmless cs" "trace w' = cs @ trace w" using o by (auto simp: opened_def)
    then show "registered (kern P) (trace w') \<subseteq> registered (kern P) (trace w)"
      using registered_shrinks[of cs "kern P" "trace w"] by (auto simp: harmless_def ordinary_def)
    show "d \<in> set (clients pls) \<and> cl_fd (wmem w') d = cl_fd (wmem w) d" if "d \<in> set (clients pls)" for d
      using o that client_agree(1) by (auto simp: opened_def)
  qed
  show "state_ok P w' s' pls'" "c \<noteq> 0" "c \<in> set (clients pls')" "set (clients pls) \<subseteq> set (clients pls')"
    "c \<notin> set (clients pls)"
    using o by (auto simp: opened_def)
  show "live_ok (wmem w') d" if d: "d \<in> set (clients pls')" "d \<noteq> c" for d
  proof -
    have "d \<in> set (clients pls)" using o d by (auto simp: opened_def)
    then have "agree (client_span d) (wmem w) (wmem w')" "live_ok (wmem w) d"
      using o good_live[OF g] by (auto simp: opened_def)
    then show ?thesis using client_agree(7) by blast
  qed
  show "agree (events_area P) (wmem w) (wmem w')"
    using o by (auto simp: opened_def statics_def elim: agree_mono)
qed

text \<open>The rest of an iteration once a client is there, and the two ways it goes on.\<close>

definition admit :: "platform \<Rightarrow> u32 \<Rightarrow> u32 \<Rightarrow> u64 \<Rightarrow> server \<Rightarrow> world \<Rightarrow> halt + server \<times> world" where
  "admit P epfd conn_sock c serv w =
    (let ev = stk P ''server_handle.ev'';
         w = on_mem (store_event ev EPOLLIN_EPOLLET c) w;
         (err, w) = sys_epoll_ctl P w epfd epoll_ctl_add conn_sock ev
     in case err of
          Some e \<Rightarrow>
            andthen (fmt_fprintf P w stderr (lit P handle_ctl_error_format) [lit P (err_msg e)])
              (\<lambda>(_, w). session_close P c serv w)
        | None \<Rightarrow>
            let w = on_mem (init_client c conn_sock) w
            in Inr (serv, world_of (sys_write P w conn_sock (lit P name_prompt) 27)))"

lemma prompt_facts: "name_prompt \<in> set literals_used" "length name_prompt = 27"
  by (simp_all add: literals_used_def name_prompt_def)

definition admit_call :: "platform \<Rightarrow> mem \<Rightarrow> u32 \<Rightarrow> u32 \<Rightarrow> u64 \<Rightarrow> sys_call" where
  "admit_call P m epfd fd c = ctl_call P (store_event (stk P ''server_handle.ev'') EPOLLIN_EPOLLET c m) epfd fd
     (stk P ''server_handle.ev'')"

lemma admit_cases:
  assumes plat: "platform_ok P" and g: "good P w0 s0 pls0" and o: "opened P c pls0 w0 s w pls"
  obtains s' w' pls' where "admit P epfd fd c s w = Inr (s', w')" "good P w' s' pls'"
      "set (clients pls0) \<subseteq> set (clients pls')" "agree (events_area P) (wmem w0) (wmem w')"
      "\<not> succeeded (kern P (admit_call P (wmem w) epfd fd c # trace w))"
  | w' where "admit P epfd fd c s w = Inr (s, w')" "good P w' s pls"
      "set (clients pls0) \<subseteq> set (clients pls)" "agree (events_area P) (wmem w0) (wmem w')"
      "cl_fd (wmem w') c = fd" "cl_buf_used (wmem w') c = 0" "cl_name_used (wmem w') c = 0" "cl_name_ok (wmem w') c = 0"
      "trace w' = write_call fd (lit P name_prompt) (bytes_of name_prompt) # admit_call P (wmem w) epfd fd c # trace w"
      "(fd, c) \<in> registered (kern P) (trace w')"
proof -
  note O = opened_after[OF g o]
  have kern: "kernel_ok (kern P)" using plat by (simp add: platform_ok_def)
  let ?ev = "stk P ''server_handle.ev''"
  define w1 where "w1 = on_mem (store_event ?ev EPOLLIN_EPOLLET c) w"
  have w1: "w1 = w\<lparr>wmem := wmem w1\<rparr>" by (simp add: w1_def on_mem_def)
  have call: "admit_call P (wmem w) epfd fd c = ctl_call P (wmem w1) epfd fd ?ev" and t1: "trace w1 = trace w"
    by (simp_all add: admit_call_def w1_def on_mem_def)
  have o1: "only (scratch P) (wmem w) (wmem w1)"
    using store_event_only[OF locals_in(6)] by (simp add: w1_def on_mem_def)
  note ss = scratch_state[OF plat O(1) o1]
  have st1: "state_ok P w1 s pls" using ss(1) w1 by simp
  have live1: "live_ok (wmem w1) d" if "d \<in> set (clients pls)" "d \<noteq> c" for d
    using client_agree(7)[OF ss(3)] O(6) that by blast
  have wt1: "watched P w1 pls0" using ss(4)[OF O(8) O(4)] w1 by simp
  let ?c = "ctl_call P (wmem w1) epfd fd ?ev"
  let ?w2 = "w1\<lparr>trace := ?c # trace w1\<rparr>"
  have a2: "agree (events_area P) (wmem w0) (wmem ?w2)" using agree_trans[OF O(7) ss(2)] by simp
  have st2: "state_ok P ?w2 s pls"
  proof -
    have "sc_nr ?c \<noteq> s_munmap" "sc_nr ?c \<noteq> s_mmap" by (simp_all add: ctl_call_def syscall_numbers)
    then show ?thesis using st1 by (auto simp: state_ok_def blocks_mapped_def)
  qed
  show ?thesis
  proof (cases rule: ctl_cases[OF kern, of w1 epfd fd ?ev])
    case (1 e)
    have wt2: "watched P ?w2 pls"
      by (rule watched_step[OF wt1]) (use 1(2) O(4) in auto)
    obtain j w3 where r: "fmt_fprintf P ?w2 stderr (lit P handle_ctl_error_format) [lit P (err_msg e)] = Inr (j, w3)"
      "state_ok P w3 s pls" "only (scratch P) (wmem ?w2) (wmem w3)" "watched P ?w2 pls \<longrightarrow> watched P w3 pls"
      by (rule report_state[OF plat st2 literals_in(12) format_args(7), where args = "[lit P (err_msg e)]"]) auto
    note s3 = scratch_state[OF plat st2 r(3)]
    have live3: "live_ok (wmem w3) d" if "d \<in> set (clients pls)" "d \<noteq> c" for d
      using client_agree(7)[OF s3(3)] live1 that by simp
    have wt3: "watched P w3 pls" using r(4) wt2 by blast
    obtain s4 w4 pls4 where cl: "session_close P c s w3 = Inr (s4, w4)" "settled P c pls w3 s4 w4 pls4"
      "clients pls4 = filter (\<lambda>d. d \<noteq> c) (clients pls)"
      using close_settles[OF plat r(2) wt3 O(3) live3] by metis
    have "set (clients pls0) \<subseteq> set (clients pls4)" unfolding cl(3) using O(4,5) by auto
    then show ?thesis
      using that(1)[of s4 w4 pls4] agree_trans[OF agree_trans[OF a2 s3(2)]] r(1) 1(1,3) cl(1,2) call t1
      by (simp add: admit_def settled_def Let_def w1_def)
  next
    case 2
    have data: "event_data (ld_bytes (wmem w1) ?ev 12) = c" by (simp add: w1_def on_mem_def store_event_data)
    then have "p = stk P ''_start.serv'' \<or> p = c \<and> f = fd \<or> p \<in> set (clients pls) \<and> p \<noteq> c \<and> cl_fd (wmem ?w2) p = f"
      if "(f, p) \<in> registered (kern P) (trace ?w2)" for f p
      using that 2(2) wt1 O(4,5) by (auto simp: watched_def)
    note sg = setup_good[OF plat st2 O(3) _ this]
    have live2: "live_ok (wmem ?w2) d" if "d \<in> set (clients pls)" "d \<noteq> c" for d using live1 that by simp
    let ?w3 = "on_mem (init_client c fd) ?w2"
    have "calm ?w3 (world_of (sys_write P ?w3 fd (lit P name_prompt) 27))" by (rule calm_calls(7)[OF kern])
    note c4 = calm_mem[OF this] calm_good[OF this sg(1)[OF live2]]
    note f = init_client_facts[where c = c and fd = fd and m = "wmem ?w2"]
    have "literals_ok P (wmem ?w3)" using good_parts(1)[OF sg(1)[OF live2]] by (simp add: server_ok_def)
    moreover have "layout_ok P" using plat by (simp add: platform_ok_def)
    ultimately have "ld_bytes (wmem ?w3) (lit P name_prompt) 27 = bytes_of name_prompt"
      using literal_bytes(1)[of P "wmem ?w3" name_prompt] by (simp add: prompt_facts)
    then have tr: "trace (world_of (sys_write P ?w3 fd (lit P name_prompt) 27)) =
        write_call fd (lit P name_prompt) (bytes_of name_prompt) # ?c # trace w"
      by (simp add: sys_write_world[OF kern] t1 on_mem_def)
    have reg: "(fd, c) \<in> registered (kern P) (write_call fd (lit P name_prompt) (bytes_of name_prompt) # ?c # trace w)"
      using 2(2) data t1 by (simp add: write_call_def syscall_numbers)
    show ?thesis
    proof (rule that(2)[OF _ c4(2) O(4)])
      show "cl_fd (wmem (world_of (sys_write P ?w3 fd (lit P name_prompt) 27))) c = fd"
        "cl_buf_used (wmem (world_of (sys_write P ?w3 fd (lit P name_prompt) 27))) c = 0"
        "cl_name_used (wmem (world_of (sys_write P ?w3 fd (lit P name_prompt) 27))) c = 0"
        "cl_name_ok (wmem (world_of (sys_write P ?w3 fd (lit P name_prompt) 27))) c = 0"
        unfolding c4(1) using f(2-5) by (simp_all add: on_mem_def)
      show "trace (world_of (sys_write P ?w3 fd (lit P name_prompt) 27)) =
          write_call fd (lit P name_prompt) (bytes_of name_prompt) # admit_call P (wmem w) epfd fd c # trace w"
        unfolding tr call ..
      show "(fd, c) \<in> registered (kern P) (trace (world_of (sys_write P ?w3 fd (lit P name_prompt) 27)))"
        unfolding tr by (rule reg)
      show "admit P epfd fd c s w = Inr (s, world_of (sys_write P ?w3 fd (lit P name_prompt) 27))"
        using 2(1) by (simp add: admit_def Let_def w1_def)
      show "agree (events_area P) (wmem w0) (wmem (world_of (sys_write P ?w3 fd (lit P name_prompt) 27)))"
        unfolding c4(1) using agree_trans[OF a2 sg(2)[OF live2]] by (simp add: on_mem_def)
    qed
  qed
qed

lemma admit_good:
  assumes "platform_ok P" and "good P w0 s0 pls0" and "opened P c pls0 w0 s w pls"
  obtains s' w' pls' where "admit P epfd fd c s w = Inr (s', w')" "good P w' s' pls'"
    "set (clients pls0) \<subseteq> set (clients pls')" "agree (events_area P) (wmem w0) (wmem w')"
  by (rule admit_cases[OF assms, of epfd fd]) (blast intro: that)+

text \<open>The whole iteration, as the sequence of its parts.\<close>

lemma handle_loop_Suc:
  "handle_loop (Suc k) P epfd s w =
    (let (conn_sock, err, w) = sys_accept4 P w (ls s) 0 0 sock_nonblock
     in case err of
          Some e \<Rightarrow>
            if err_code e = EAGAIN then Inr (s, w)
            else andthen (fmt_fprintf P w stderr (lit P accept_error_format) [lit P (err_msg e)])
                   (\<lambda>(_, w). handle_loop k P epfd s w)
        | None \<Rightarrow>
            andthen (session_new P s w) (\<lambda>(c, s, w).
            if c = 0 then handle_loop k P epfd s (snd (sys_close P
                (world_of (sys_write P w conn_sock (lit P limit_conn_msg) (of_nat (length limit_conn_msg)))) conn_sock))
            else andthen (admit P epfd conn_sock c s w) (\<lambda>(s, w). handle_loop k P epfd s w)))"
proof -
  have go_on: "andthen (admit P epfd fd c s w) (\<lambda>(s, w). handle_loop k P epfd s w) =
      (let ev = stk P ''server_handle.ev'';
           w = on_mem (store_event ev EPOLLIN_EPOLLET c) w;
           (err, w) = sys_epoll_ctl P w epfd epoll_ctl_add fd ev
       in case err of
            Some e \<Rightarrow>
              andthen (fmt_fprintf P w stderr (lit P handle_ctl_error_format) [lit P (err_msg e)])
                (\<lambda>(_, w). andthen (session_close P c s w)
                (\<lambda>(s, w). handle_loop k P epfd s w))
          | None \<Rightarrow>
              let w = on_mem (init_client c fd) w;
                  w = world_of (sys_write P w fd (lit P name_prompt) 27)
              in handle_loop k P epfd s w)" for fd c s w
    by (simp add: admit_def Let_def split_def andthen_assoc split: option.split)
  show ?thesis unfolding go_on by (simp add: split_def Let_def cong: if_cong option.case_cong)
qed

lemma handle_loop_spec:
  assumes plat: "platform_ok P" and fresh: "kernel_fresh (kern P) (statics P)"
  shows "good P w s pls \<Longrightarrow> serves P pls w (handle_loop k P epfd s w)"
proof (induction k arbitrary: w s pls)
  case 0
  then show ?case by (simp add: serves_def)
next
  case (Suc k)
  note g = Suc.prems
  have kern: "kernel_ok (kern P)" using plat by (simp add: platform_ok_def)
  obtain fd err w1 where a: "sys_accept4 P w (ls s) 0 0 sock_nonblock = (fd, err, w1)" by (metis prod_cases3)
  have "calm w w1" using calm_calls(5)[OF kern, of w "ls s" 0 0 sock_nonblock] a by (simp add: world_of_def)
  note c1 = calm_mem[OF this] calm_good[OF this g]
  show ?case
  proof (cases err)
    case (Some e)
    obtain j w2 where r: "fmt_fprintf P w1 stderr (lit P accept_error_format) [lit P (err_msg e)] = Inr (j, w2)"
      "good P w2 s pls" "agree (events_area P) (wmem w1) (wmem w2)"
      by (rule report_good[OF plat c1(2) literals_in(11) format_args(6), where args = "[lit P (err_msg e)]"]) auto
    have "serves P pls w (handle_loop k P epfd s w2)"
      by (rule serves_after[OF _ subset_refl Suc.IH[OF r(2)]]) (use r(3) c1(1) in simp)
    moreover have "serves P pls w (Inr (s, w1))" using c1 by (auto simp: serves_def)
    ultimately show ?thesis using a Some r(1) by (simp add: handle_loop_Suc del: handle_loop.simps)
  next
    case None
    have st: "state_ok P w1 s pls" using c1(2) by (simp add: good_def)
    show ?thesis
    proof (cases rule: session_new_spec[OF plat fresh st])
      case 1
      then show ?thesis using a None by (simp add: handle_loop_Suc serves_def del: handle_loop.simps)
    next
      case 2
      define w2 where "w2 = snd (sys_close P (world_of (sys_write P w1 fd (lit P limit_conn_msg)
        (of_nat (length limit_conn_msg)))) fd)"
      note wr = calm_calls(7)[OF kern, of w1 fd "lit P limit_conn_msg" "of_nat (length limit_conn_msg)"]
      note cl = calm_calls(8)[OF kern, of "world_of (sys_write P w1 fd (lit P limit_conn_msg)
        (of_nat (length limit_conn_msg)))" fd, folded w2_def]
      have g2: "good P w2 s pls" by (rule calm_good[OF cl calm_good[OF wr c1(2)]])
      have "serves P pls w (handle_loop k P epfd s w2)"
        by (rule serves_after[OF _ subset_refl Suc.IH[OF g2]]) (simp add: calm_mem[OF cl] calm_mem[OF wr] c1(1))
      then show ?thesis using a None 2(1) by (simp add: handle_loop_Suc w2_def del: handle_loop.simps)
    next
      case (3 c s2 w2 pls2)
      obtain s3 w3 pls3 where ad: "admit P epfd fd c s2 w2 = Inr (s3, w3)" "good P w3 s3 pls3"
        "set (clients pls) \<subseteq> set (clients pls3)" "agree (events_area P) (wmem w1) (wmem w3)"
        using admit_good[OF plat c1(2) 3(2)] .
      have "serves P pls w (handle_loop k P epfd s3 w3)"
        by (rule serves_after[OF _ ad(3) Suc.IH[OF ad(2)]]) (use ad(4) c1(1) in simp)
      then show ?thesis using a None 3 ad(1) opened_after(2)[OF c1(2) 3(2)]
        by (simp add: handle_loop_Suc del: handle_loop.simps)
    qed
  qed
qed

section \<open>Dispatching\<close>

definition serv_ptr :: "platform \<Rightarrow> u64" where
  "serv_ptr P = stk P ''_start.serv''"

text \<open>What handling events leaves: a good state, or the end of the run.\<close>

definition runs :: "platform \<Rightarrow> halt + server \<times> world \<Rightarrow> bool" where
  "runs P r \<longleftrightarrow> (case r of Inl h \<Rightarrow> h = Out_of_fuel \<or> h = Exited 1
     | Inr (s', w') \<Rightarrow> \<exists>pls'. good P w' s' pls')"

lemma handle_event_spec:
  assumes plat: "platform_ok P" and fresh: "kernel_fresh (kern P) (statics P)"
    and g: "good P w s pls" and p: "p = serv_ptr P \<or> p \<in> set (clients pls)"
  obtains "handle_event P epfd p s w = Inl Out_of_fuel" | "handle_event P epfd p s w = Inl (Exited 1)"
  | s' w' pls' where "handle_event P epfd p s w = Inr (s', w')" "good P w' s' pls'"
    "set (clients pls) - ({p} - {serv_ptr P}) \<subseteq> set (clients pls')" "agree (events_area P) (wmem w) (wmem w')"
    "p \<noteq> serv_ptr P \<longrightarrow> clients pls' = clients pls \<or> clients pls' = filter (\<lambda>d. d \<noteq> p) (clients pls)"
proof (cases "p = serv_ptr P")
  case True
  then have run: "handle_event P epfd p s w = handle_loop (fuel P) P epfd s w"
    by (simp add: handle_event_def server_handle_def serv_ptr_def)
  from handle_loop_spec[OF plat fresh g, of "fuel P" epfd] show ?thesis
    unfolding serves_def run[symmetric] using that True by (auto split: sum.splits)
next
  case False
  then have c: "p \<in> set (clients pls)" using p by simp
  have "cl_name_ok (wmem w) p = 0 \<or> cl_name_ok (wmem w) p = 1" using good_stale[OF g c] by (auto simp: stale_ok_def)
  then have "settles P p pls w (handle_event P epfd p s w)"
    using False session_name_read_spec(1)[OF plat g c] session_line_read_spec(1)[OF plat g c]
    by (auto simp: handle_event_def serv_ptr_def Let_def)
  then consider "handle_event P epfd p s w = Inl Out_of_fuel"
    | s' w' pls' where "handle_event P epfd p s w = Inr (s', w')" "settled P p pls w s' w' pls'"
    by (auto simp: settles_def split: sum.splits)
  then show ?thesis
  proof cases
    case (2 s' w' pls')
    have "set (clients pls) - ({p} - {serv_ptr P}) \<subseteq> set (clients pls')"
      using 2(2) False by (auto simp: settled_def)
    moreover have "good P w' s' pls'" "agree (events_area P) (wmem w) (wmem w')"
      "clients pls' = clients pls \<or> clients pls' = filter (\<lambda>d. d \<noteq> p) (clients pls)"
      using 2(2) by (simp_all add: settled_def)
    ultimately show ?thesis using that(3)[OF 2(1)] by blast
  qed (rule that(1))
qed

lemma event_ptr_agree:
  assumes "agree (events_area P) m m'" and "i < max_events"
  shows "event_ptr m' (stk P ''server_go.evt'') i = event_ptr m (stk P ''server_go.evt'') i"
proof -
  have i: "12 * i + 12 \<le> 192" using assms(2) by (simp add: max_events_def)
  have "unat (of_nat (12 * i) :: u64) = 12 * i" by (rule unat_of_nat_less) (use i in simp)
  then have "unat (of_nat (12 * i) + 4 :: u64) = 12 * i + 4" using i by (subst unat_plus_less) simp_all
  then have "span (stk P ''server_go.evt'' + (of_nat (12 * i) + 4)) 8 \<subseteq> events_area P"
    unfolding events_area_def max_events_def using i by (intro span_sub) simp_all
  from agree_ld64[OF agree_mono[OF assms(1) this]] show ?thesis by (simp add: event_ptr_def add.assoc)
qed

lemma dispatch_spec:
  assumes plat: "platform_ok P" and fresh: "kernel_fresh (kern P) (statics P)"
  shows "good P w s pls \<Longrightarrow> i + length es \<le> max_events \<Longrightarrow>
    (\<And>j. j < length es \<Longrightarrow> event_ptr (wmem w) (stk P ''server_go.evt'') (i + j) = es ! j) \<Longrightarrow>
    set es \<subseteq> insert (serv_ptr P) (set (clients pls)) \<Longrightarrow> distinct (filter (\<lambda>e. e \<noteq> serv_ptr P) es) \<Longrightarrow>
    runs P (dispatch (length es) P epfd i s w)"
proof (induction es arbitrary: i w s pls)
  case Nil
  then show ?case by (auto simp: runs_def)
next
  case (Cons e es)
  note g = Cons.prems(1) and room = Cons.prems(2) and ptrs = Cons.prems(3) and known = Cons.prems(4)
    and dist = Cons.prems(5)
  have e: "event_ptr (wmem w) (stk P ''server_go.evt'') i = e" using ptrs[of 0] by simp
  have p: "e = serv_ptr P \<or> e \<in> set (clients pls)" using known by simp
  show ?case
  proof (cases rule: handle_event_spec[OF plat fresh g p, of epfd])
    case (3 s' w' pls')
    have "runs P (dispatch (length es) P epfd (Suc i) s' w')"
    proof (rule Cons.IH[OF 3(2)])
      show "event_ptr (wmem w') (stk P ''server_go.evt'') (Suc i + j) = es ! j" if "j < length es" for j
        using ptrs[of "Suc j"] event_ptr_agree[OF 3(4), of "Suc (i + j)"] that room by simp
      show "set es \<subseteq> insert (serv_ptr P) (set (clients pls'))"
        using known dist 3(3) by (auto split: if_splits)
      show "distinct (filter (\<lambda>e. e \<noteq> serv_ptr P) es)" using dist by (simp split: if_splits)
    qed (use room in simp)
    then show ?thesis using e 3(1) by simp
  qed (simp_all add: e runs_def)
qed

section \<open>The events of one wait\<close>

text \<open>
  What the manual page of \<^verbatim>\<open>epoll_wait\<close> says: the events are those of distinct
  descriptors, registered and not closed since, each with the data of its registration.
\<close>

definition event_ptrs :: "u8 list \<Rightarrow> u64 list" where
  "event_ptrs bs = map (\<lambda>i. event_data (take 12 (drop (12 * i) bs))) [0..<length bs div 12]"

definition epoll_ok :: "kernel \<Rightarrow> bool" where
  "epoll_ok k \<longleftrightarrow> (\<forall>c h. sc_nr c = s_epoll_wait \<longrightarrow> succeeded (k (c # h)) \<longrightarrow>
     (\<exists>ws. distinct ws \<and> set ws \<subseteq> registered k h \<and> event_ptrs (out_bytes (k (c # h))) = map snd ws))"

lemma wait_cases:
  fixes epfd :: u32
  assumes kern: "kernel_ok (kern P)" and ep: "epoll_ok (kern P)"
  defines "evt \<equiv> stk P ''server_go.evt''"
  obtains v e w' where "sys_epoll_wait P w epfd evt (of_nat max_events) (-1) = (v, Some e, w')" "calm w w'"
  | v bs ws c where "sys_epoll_wait P w epfd evt (of_nat max_events) (-1) = (v, None,
      w\<lparr>wmem := st_bytes (wmem w) evt bs, trace := c # trace w\<rparr>)" "ordinary c"
    "nat (sint v) = length ws" "length ws \<le> max_events" "length bs = 12 * length ws"
    "distinct ws" "set ws \<subseteq> registered (kern P) (trace w)" "event_ptrs bs = map snd ws"
proof -
  let ?c = "epoll_wait_call epfd evt (of_nat max_events) (-1)"
  have r: "sys_epoll_wait P w epfd evt (of_nat max_events) (-1) =
      (ucast (r1 (fst (syscall_raw P w ?c))), set_error (errno (fst (syscall_raw P w ?c))), snd (syscall_raw P w ?c))"
    by (simp add: sys_epoll_wait_def syscall6_def epoll_wait_call_def split_def Let_def)
  show ?thesis
  proof (cases "succeeded (kern P (?c # trace w))")
    case False
    from syscall_raw_failed[OF kern False] obtain v e where
      "syscall_raw P w ?c = (v, w\<lparr>trace := ?c # trace w\<rparr>)" "set_error (errno v) = Some e" by blast
    with that(1) r calmI[of ?c w] show ?thesis by simp
  next
    case True
    let ?r = "kern P (?c # trace w)"
    have nr: "sc_nr ?c = s_epoll_wait" by (simp add: epoll_wait_call_def)
    have ok: "rax ?r \<le> 16" "out_ptr ?r = evt" "length (out_bytes ?r) = 12 * unat (rax ?r)"
      using kernel_reply[OF kern, of ?c "trace w"] True
      by (simp_all add: reply_ok_def epoll_wait_call_def syscall_numbers int_arg_def max_events_def)
    obtain ws where ws: "distinct ws" "set ws \<subseteq> registered (kern P) (trace w)" "event_ptrs (out_bytes ?r) = map snd ws"
      using ep True nr unfolding epoll_ok_def by blast
    have "length (event_ptrs (out_bytes ?r)) = unat (rax ?r)" by (simp add: event_ptrs_def ok(3))
    then have len: "length ws = unat (rax ?r)" by (simp add: ws(3))
    have l16: "unat (rax ?r) \<le> 16" using ok(1) by (simp add: word_le_nat_alt)
    have "(ucast (rax ?r) :: u32) = of_nat (unat (rax ?r))" by simp
    moreover have "sint (of_nat (unat (rax ?r)) :: u32) = int (unat (rax ?r))" by (rule sint_of_nat32) (use l16 in simp)
    ultimately have "nat (sint (ucast (rax ?r) :: u32)) = length ws" by (simp add: len)
    then show ?thesis
      using that(2)[where v = "ucast (rax ?r)" and bs = "out_bytes ?r" and c = ?c and ws = ws] r syscall_raw_succeeded[OF True] ok len l16 ws
      by (simp add: max_events_def)
  qed
qed

lemma stored_events:
  assumes "length bs = 12 * n" and "i < n" and "n \<le> max_events"
  shows "event_ptr (st_bytes m evt bs) evt i = event_ptrs bs ! i"
proof -
  have len: "length bs \<le> 2 ^ 64" using assms by (simp add: max_events_def)
  have i: "length bs = (12 * i + 4) + (8 + (12 * n - 12 * i - 12))" using assms by simp
  let ?M = "st_bytes m evt bs" and ?r = "8 + (12 * n - 12 * i - 12)"
  have "ld_bytes ?M evt (12 * i + 4) @ ld_bytes ?M (evt + of_nat (12 * i + 4)) ?r = ld_bytes ?M evt (length bs)"
    unfolding i by (rule ld_bytes_add[symmetric])
  also have "\<dots> = bs" by (rule ld_bytes_st_bytes_same[OF len])
  finally have "drop (12 * i + 4) bs = ld_bytes ?M (evt + of_nat (12 * i + 4)) ?r"
    by (metis append_eq_conv_conj length_ld_bytes)
  then have "take 8 (drop (12 * i + 4) bs) = ld_bytes (st_bytes m evt bs) (evt + of_nat (12 * i + 4)) 8" by simp
  moreover have "event_ptrs bs ! i = of_nat (le_val (take 8 (drop (12 * i + 4) bs)))"
    using assms(1,2) by (simp add: event_ptrs_def event_data_def drop_take add.commute min_def)
  moreover have "evt + of_nat (12 * i) + 4 = evt + of_nat (12 * i + 4)" by simp
  ultimately show ?thesis by (simp add: event_ptr_def ld64_def add.assoc)
qed

text \<open>The kernel writes into the array of events: nothing else of the server changes.\<close>

lemma events_good:
  assumes plat: "platform_ok P" and g: "good P w s pls" and o: "only (events_area P) (wmem w) m'" and cs: "harmless cs"
  shows "good P (w\<lparr>wmem := m', trace := cs @ trace w\<rparr>) s pls"
proof -
  note G = good_parts[OF g]
  have lay: "layout_ok P" using plat by (simp add: platform_ok_def)
  have blk: "agree (pool_block q) (wmem w) m'" if "(q, fs, us) \<in> set pls" for q fs us
    using server_okD(2)[OF G(1) that] by (intro only_agree[OF o]) (auto simp: statics_def)
  have "clp_ok m' q fs us" if e: "(q, fs, us) \<in> set pls" for q fs us
    by (rule clp_ok_block[OF server_okD(1,3)[OF G(1) e] blk[OF e]])
  moreover have "literals_ok P m'"
  proof (rule literals_ok_frame[OF _ o])
    show "literals_ok P (wmem w)" using G(1) by (simp add: server_ok_def)
    show "rodata P \<inter> events_area P = {}" using lay unfolding layout_ok_def by blast
  qed
  ultimately have ok: "server_ok P m' s pls" using G(1) by (auto simp: server_ok_def)
  have ag: "agree (client_span d) (wmem w) m'" if "d \<in> set (clients pls)" for d
    using scratch_outside(1)[OF G(1) clients_slots[OF G(1) that]] by (intro only_agree[OF o]) (auto simp: statics_def)
  have "all_live m' pls" using G(3) client_agree(7)[OF ag] by (simp add: all_live_def)
  then show ?thesis
    using ok blocks_mapped_grows[OF G(2) cs] watched_harmless[OF G(5) cs client_agree(1)[OF ag]]
    by (simp add: good_def state_ok_def)
qed

lemma server_round_spec:
  assumes plat: "platform_ok P" and fresh: "kernel_fresh (kern P) (statics P)" and ep: "epoll_ok (kern P)"
    and g: "good P w s pls"
  shows "runs P (server_round P epfd s w)"
proof -
  have kern: "kernel_ok (kern P)" using plat by (simp add: platform_ok_def)
  show ?thesis
  proof (cases rule: wait_cases[OF kern ep, of w epfd])
    case (1 v e w1)
    have g1: "good P w1 s pls" by (rule calm_good[OF 1(2) g])
    obtain j w2 where "fmt_fprintf P w1 stderr (lit P wait_error_format) [lit P (err_msg e)] = Inr (j, w2)"
      "good P w2 s pls"
      by (rule report_good[OF plat g1 literals_in(13) format_args(8), where args = "[lit P (err_msg e)]"]) auto
    then show ?thesis using 1(1) g1 by (auto simp: server_round_def runs_def)
  next
    case (2 v bs ws c)
    let ?evt = "stk P ''server_go.evt''"
    define w1 where "w1 = w\<lparr>wmem := st_bytes (wmem w) ?evt bs, trace := [c] @ trace w\<rparr>"
    have "span ?evt (length bs) \<subseteq> events_area P"
      unfolding events_area_def using 2(4,5) by (intro span_mono) simp
    then have "only (events_area P) (wmem w) (st_bytes (wmem w) ?evt bs)" by (rule only_mono[OF only_st_bytes])
    then have g1: "good P w1 s pls" unfolding w1_def using 2(2) by (intro events_good[OF plat g]) simp_all
    have wt: "p = serv_ptr P \<or> p \<in> set (clients pls) \<and> cl_fd (wmem w) p = fd" if "(fd, p) \<in> set ws" for fd p
      using good_parts(5)[OF g] 2(7) that by (auto simp: watched_def serv_ptr_def)
    have run: "server_round P epfd s w = dispatch (length (map snd ws)) P epfd 0 s w1"
      using 2(1,3) by (simp add: server_round_def w1_def)
    show ?thesis unfolding run
    proof (rule dispatch_spec[OF plat fresh g1])
      show "event_ptr (wmem w1) ?evt (0 + j) = map snd ws ! j" if "j < length (map snd ws)" for j
        using stored_events[OF 2(5) _ 2(4), of j "wmem w" ?evt] that 2(8) by (simp add: w1_def)
      show "set (map snd ws) \<subseteq> insert (serv_ptr P) (set (clients pls))" by (auto dest: wt)
      have "inj_on snd (set (filter (\<lambda>x. snd x \<noteq> serv_ptr P) ws))" by (auto simp: inj_on_def dest: wt)
      then have "distinct (map snd (filter (\<lambda>x. snd x \<noteq> serv_ptr P) ws))" using 2(6) by (simp add: distinct_map)
      then show "distinct (filter (\<lambda>e. e \<noteq> serv_ptr P) (map snd ws))" by (simp add: filter_map o_def)
    qed (use 2(4) in simp)
  qed
qed

lemma server_rounds_spec:
  assumes plat: "platform_ok P" and fresh: "kernel_fresh (kern P) (statics P)" and ep: "epoll_ok (kern P)"
  shows "good P w s pls \<Longrightarrow> server_rounds k P epfd s w \<in> {Inl Out_of_fuel, Inl (Exited 1)}"
proof (induction k arbitrary: w s pls)
  case (Suc k)
  have "runs P (server_round P epfd s w)" by (rule server_round_spec[OF plat fresh ep Suc.prems])
  then show ?case using Suc.IH by (auto simp: runs_def split: sum.splits)
qed simp

section \<open>From the start\<close>

lemma literals_in':
  "create_error_format \<in> set literals_used" "go_ctl_error_format \<in> set literals_used"
  "socket_error_format \<in> set literals_used" "sockopt_error_format \<in> set literals_used"
  "bind_error_format \<in> set literals_used" "listen_error_format \<in> set literals_used"
  by (simp_all add: literals_used_def)

text \<open>The listening socket is registered: the state in which the endless loop begins.\<close>

lemma listening_good:
  fixes epfd :: u32
  assumes plat: "platform_ok P" and g: "good P w s pls"
  defines "ev \<equiv> stk P ''server_go.ev''"
  defines "w2 \<equiv> on_mem (store_event ev EPOLLIN_EPOLLET (serv_ptr P)) w"
  defines "w3 \<equiv> w2\<lparr>trace := ctl_call P (wmem w2) epfd (ls s) ev # trace w2\<rparr>"
  shows "state_ok P w3 s pls"
    and "sys_epoll_ctl P w2 epfd epoll_ctl_add (ls s) ev = (None, w') \<Longrightarrow> w' = w3 \<and> good P w' s pls"
proof -
  have kern: "kernel_ok (kern P)" using plat by (simp add: platform_ok_def)
  have o: "only (scratch P) (wmem w) (wmem w2)"
    using store_event_only[OF locals_in(7)] by (simp add: on_mem_def w2_def ev_def)
  have g2: "good P w2 s pls"
    using scratch_good(1)[OF plat g o harmless_simps(1)] by (simp add: on_mem_def w2_def)
  note G2 = good_parts[OF g2]
  have "sc_nr (ctl_call P (wmem w2) epfd (ls s) ev) \<noteq> s_munmap" "sc_nr (ctl_call P (wmem w2) epfd (ls s) ev) \<noteq> s_mmap"
    by (simp_all add: ctl_call_def syscall_numbers)
  then show st3: "state_ok P w3 s pls" using G2(4) by (auto simp: state_ok_def blocks_mapped_def w3_def)
  assume ctl: "sys_epoll_ctl P w2 epfd epoll_ctl_add (ls s) ev = (None, w')"
  show "w' = w3 \<and> good P w' s pls"
  proof (cases rule: ctl_cases[OF kern, of w2 epfd "ls s" ev])
    case 2
    have "event_data (ld_bytes (wmem w2) ev 12) = serv_ptr P" by (simp add: on_mem_def store_event_data w2_def)
    then have "watched P w3 pls" using 2(2) G2(5) by (auto simp: watched_def serv_ptr_def w3_def)
    then have "good P w3 s pls" using st3 G2(3) by (simp add: good_def w3_def)
    then show ?thesis using 2(1) ctl by (simp add: w3_def)
  qed (use ctl in simp)
qed

lemma server_go_spec:
  assumes plat: "platform_ok P" and fresh: "kernel_fresh (kern P) (statics P)" and ep: "epoll_ok (kern P)"
    and g: "good P w s pls"
  obtains "server_go P s w = Inl Out_of_fuel" | "server_go P s w = Inl (Exited 1)"
  | code w' where "server_go P s w = Inr (code, w')" "code \<in> {1, 2}"
proof -
  have kern: "kernel_ok (kern P)" using plat by (simp add: platform_ok_def)
  obtain epfd err w1 where c: "sys_epoll_create1 P w 0 = (epfd, err, w1)" by (metis prod_cases3)
  have "calm w w1" using calm_calls(6)[OF kern, of w 0] c by (simp add: world_of_def)
  note g1 = calm_good[OF this g]
  show ?thesis
  proof (cases err)
    case (Some e)
    obtain j w2 where "fmt_fprintf P w1 stderr (lit P create_error_format) [lit P (err_msg e)] = Inr (j, w2)"
      by (rule report_good[OF plat g1 literals_in'(1) format_args(9), where args = "[lit P (err_msg e)]"]) auto
    then show ?thesis using that(3) c Some by (simp add: server_go_def)
  next
    case None
    let ?ev = "stk P ''server_go.ev''"
    let ?w2 = "on_mem (store_event ?ev EPOLLIN_EPOLLET (serv_ptr P)) w1"
    let ?w3 = "?w2\<lparr>trace := ctl_call P (wmem ?w2) epfd (ls s) ?ev # trace ?w2\<rparr>"
    note lg = listening_good[OF plat g1, of epfd]
    have run: "server_go P s w = (case sys_epoll_ctl P ?w2 epfd epoll_ctl_add (ls s) ?ev of (err, w) \<Rightarrow>
        case err of
          Some e \<Rightarrow> andthen (fmt_fprintf P w stderr (lit P go_ctl_error_format) [lit P (err_msg e)])
             (\<lambda>(_, w). let w = snd (sys_close P w epfd); w = snd (sys_close P w (ls s)) in Inr (2, w))
        | None \<Rightarrow> server_rounds (fuel P) P epfd s w)"
      using c None by (simp add: server_go_def Let_def serv_ptr_def)
    show ?thesis
    proof (cases rule: ctl_cases[OF kern, of ?w2 epfd "ls s" ?ev])
      case (1 e)
      obtain j w4 where "fmt_fprintf P ?w3 stderr (lit P go_ctl_error_format) [lit P (err_msg e)] = Inr (j, w4)"
        by (rule report_state[OF plat lg(1) literals_in'(2) format_args(10), where args = "[lit P (err_msg e)]"]) auto
      then show ?thesis using that(3) run 1(1) by (simp add: Let_def)
    next
      case 2
      have "good P ?w3 s pls" using lg(2)[OF 2(1)] by simp
      from server_rounds_spec[OF plat fresh ep this, of "fuel P" epfd] show ?thesis
        using that(1,2) run 2(1) by auto
    qed
  qed
qed

lemma report_error_spec:
  assumes "platform_ok P" and "good P w s pls" and "f \<in> set literals_used" and "args_needed (bytes_of f) = Some 1"
  shows "\<exists>w'. report_error P f e code s' w = Inr (code, s', w') \<and> good P w' s pls"
proof -
  obtain j w' where "fmt_fprintf P w stderr (lit P f) [lit P (err_msg e)] = Inr (j, w')" "good P w' s pls"
    by (rule report_good[OF assms, where args = "[lit P (err_msg e)]"]) auto
  then show ?thesis by (simp add: report_error_def)
qed

lemma good_ls: "good P w (s\<lparr>ls := fd\<rparr>) pls = good P w s pls"
  by (simp add: good_def state_ok_def server_ok_def)

lemma good_mem:
  assumes "platform_ok P" and "good P w s pls" and "only (scratch P) (wmem w) (f (wmem w))"
  shows "good P (on_mem f w) s pls"
  using scratch_good(1)[OF assms harmless_simps(1)] by (simp add: on_mem_def)

lemma addr_writes:
  "only (scratch P) m (st32 m (stk P ''server_init.enable'') 1)"
  "only (scratch P) m (st16 m (stk P ''server_init.addr'') x)"
  "only (scratch P) m (st32 m (stk P ''server_init.addr'' + 4) 0)"
  "only (scratch P) m (st16 m (stk P ''server_init.addr'' + 2) x)"
  "only (scratch P) m (m(stk P ''server_init.addr'' + 8 := 0))"
proof -
  let ?a = "stk P ''server_init.addr''" and ?e = "stk P ''server_init.enable''"
  have e: "span ?e 4 \<subseteq> scratch P" and a: "span ?a 16 \<subseteq> scratch P"
    by (rule local_scratch[OF locals_in(9)], rule local_scratch[OF locals_in(8)])
  have part: "span (?a + k) n \<subseteq> scratch P" if "unat k + n \<le> 16" for k n
    using span_sub[OF that, of ?a] a by simp
  show "only (scratch P) m (st32 m ?e 1)" by (rule c32.only_st_in[OF only_refl e])
  show "only (scratch P) m (st32 m (?a + 4) 0)" by (rule c32.only_st_in[OF only_refl part]) simp
  show "only (scratch P) m (st16 m ?a x)" "only (scratch P) m (st16 m (?a + 2) x)"
    unfolding st16_def using part[of 0 2] part[of 2 2] by (simp_all add: only_st_bytes_in)
  have "?a + 8 \<in> span (?a + 8) 1" by (simp add: span_def)
  then show "only (scratch P) m (m(?a + 8 := 0))" using part[of 8 1] by (intro only_upd[OF only_refl]) auto
qed

lemma server_init_spec:
  assumes plat: "platform_ok P" and g: "good P w s pls"
  obtains code w' s' where "server_init P port s w = Inr (code, s', w')" "code \<in> {0, 1, 2, 3, 4}" "good P w' s' pls"
proof -
  have kern: "kernel_ok (kern P)" using plat by (simp add: platform_ok_def)
  let ?e = "stk P ''server_init.enable''" and ?a = "stk P ''server_init.addr''"
  define w1 where "w1 = on_mem (\<lambda>m. st32 m ?e 1) w"
  have g1: "good P w1 s pls" unfolding w1_def by (rule good_mem[OF plat g]) (rule addr_writes(1))
  obtain fd err2 w2 where c2: "sys_socket P w1 af_inet sock_stream_nonblock 0 = (fd, err2, w2)" by (metis prod_cases3)
  define s2 where "s2 = s\<lparr>ls := fd\<rparr>"
  have "calm w1 w2" using calm_calls(1)[OF kern, of w1 af_inet sock_stream_nonblock 0] c2 by (simp add: world_of_def)
  from calm_good[OF this g1] have g2: "good P w2 s2 pls" by (simp add: good_ls s2_def)
  obtain err3 w3 where c3: "sys_setsockopt P w2 (ls s2) sol_socket so_reuseaddr ?e 4 = (err3, w3)" by fastforce
  have "calm w2 w3" using calm_calls(3)[OF kern, of w2 "ls s2" sol_socket so_reuseaddr ?e 4] c3 by simp
  note g3 = calm_good[OF this g2]
  define w4 where "w4 = on_mem (set_sin_zero0 ?a 0) (on_mem (set_sin_port ?a (hton port))
    (on_mem (set_sin_addr ?a inaddr_any) (on_mem (set_sin_family ?a (ucast af_inet)) w3)))"
  have g4: "good P w4 s2 pls"
    unfolding w4_def sockaddr_fields by (intro good_mem[OF plat] g3 addr_writes)
  obtain err5 w5 where c5: "sys_bind P w4 (ls s2) ?a 16 = (err5, w5)" by fastforce
  have "calm w4 w5" using calm_calls(2)[OF kern, of w4 "ls s2" ?a 16] c5 by simp
  note g5 = calm_good[OF this g4]
  obtain err6 w6 where c6: "sys_listen P w5 (ls s2) backlog = (err6, w6)" by fastforce
  have "calm w5 w6" using calm_calls(4)[OF kern, of w5 "ls s2" backlog] c6 by simp
  note g6 = calm_good[OF this g5]
  have run: "server_init P port s w =
    (case err2 of Some e \<Rightarrow> report_error P socket_error_format e 1 s2 w2
      | None \<Rightarrow> case err3 of Some e \<Rightarrow> report_error P sockopt_error_format e 2 s2 w3
      | None \<Rightarrow> case err5 of Some e \<Rightarrow> report_error P bind_error_format e 3 s2 w5
      | None \<Rightarrow> case err6 of Some e \<Rightarrow> report_error P listen_error_format e 4 s2 w6
      | None \<Rightarrow> Inr (0, s2, w6))"
    by (simp only: server_init_def Let_def w1_def[symmetric] c2 prod.case s2_def[symmetric] c3 w4_def[symmetric] c5 c6)
  have rep: "\<exists>w'. report_error P f e code s2 w = Inr (code, s2, w') \<and> good P w' s2 pls"
    if "good P w s2 pls" "f \<in> set literals_used" "args_needed (bytes_of f) = Some 1" for f e code w
    by (rule report_error_spec[OF plat that])
  note r = rep[OF g2 literals_in'(3) format_args(11)] rep[OF g3 literals_in'(4) format_args(12)]
    rep[OF g5 literals_in'(5) format_args(13)] rep[OF g6 literals_in'(6) format_args(14)]
  have "\<exists>code w'. server_init P port s w = Inr (code, s2, w') \<and> code \<in> {0, 1, 2, 3, 4} \<and> good P w' s2 pls"
  proof (cases err2)
    case (Some e)
    then show ?thesis using r(1)[of e 1] by (auto simp: run)
  next
    case n2: None
    show ?thesis
    proof (cases err3)
      case (Some e)
      then show ?thesis using r(2)[of e 2] n2 by (auto simp: run)
    next
      case n3: None
      show ?thesis
      proof (cases err5)
        case (Some e)
        then show ?thesis using r(3)[of e 3] n2 n3 by (auto simp: run)
      next
        case n5: None
        show ?thesis
        proof (cases err6)
          case (Some e)
          then show ?thesis using r(4)[of e 4] n2 n3 n5 by (auto simp: run)
        qed (use n2 n3 n5 g6 in \<open>simp add: run\<close>)
      qed
    qed
  qed
  then show ?thesis using that by blast
qed

text \<open>The state in which the program starts: the literals are in place, and nothing is mapped.\<close>

lemma empty_server:
  assumes "literals_ok P m" and "length p = max_pools"
  shows "server_ok P m \<lparr>ls = fd, n_pls = 0, first_clp = p\<rparr> []"
  using assms by (simp add: server_ok_def blocks_apart_def)

lemma first_pool_good:
  assumes plat: "platform_ok P" and fresh: "kernel_fresh (kern P) (statics P)"
    and lits: "literals_ok P (wmem w)" and tr: "trace w = []" and p: "length p = max_pools"
    and r: "session_new_clp P \<lparr>ls = fd, n_pls = 0, first_clp = p\<rparr> w = Inr (s', w')"
  obtains pls where "good P w' s' pls" "clients pls = []"
proof -
  have maps: "blocks_mapped P [] (trace w)" by (simp add: blocks_mapped_def pool_area_def)
  have len: "length ([] :: pools) < max_pools" by (simp add: max_pools_def)
  show ?thesis
  proof (cases rule: session_new_clp_spec[OF plat fresh empty_server[OF lits p, of fd] maps len])
    case 1
    then show ?thesis using r by simp
  next
    case (2 q s1 w1)
    have "trace w1 = [pool_map_call]" using 2(8) tr by simp
    then have "watched P w1 [(q, rev (slots q), [])]"
      by (simp add: watched_def pool_map_call_def mmap_call_def syscall_numbers)
    then have "good P w1 s1 [(q, rev (slots q), [])]"
      using 2(3,4) by (simp add: good_def state_ok_def all_live_def clients_def)
    then show ?thesis using that r 2(1) by (simp add: clients_def)
  qed
qed

lemma start_spec:
  assumes plat: "platform_ok P" and fresh: "kernel_fresh (kern P) (statics P)" and ep: "epoll_ok (kern P)"
    and lits: "literals_ok P (wmem w)" and tr: "trace w = []" and p: "length p = max_pools"
  shows "start P ls0 p w \<in> {Out_of_fuel, Exited 1, Exited 2}"
proof -
  have maps: "blocks_mapped P [] (trace w)" by (simp add: blocks_mapped_def pool_area_def)
  have tk: "take max_pools p = p" using p by simp
  have len: "length ([] :: pools) < max_pools" by (simp add: max_pools_def)
  show ?thesis
  proof (cases rule: session_new_clp_spec[OF plat fresh empty_server[OF lits p, of ls0] maps len])
    case 1
    then show ?thesis unfolding start_def tk by simp
  next
    case (2 q s1 w1)
    obtain pls where g1: "good P w1 s1 pls" by (rule first_pool_good[OF assms(1,2,4-6) 2(1)]) (rule that)
    obtain code w2 s2 where init: "server_init P 7070 s1 w1 = Inr (code, s2, w2)" "good P w2 s2 pls"
      using server_init_spec[OF plat g1] by metis
    show ?thesis
      by (rule server_go_spec[OF plat fresh ep init(2)])
        (use 2(1) init(1) in \<open>auto simp: start_def tk sys_exit_def\<close>)
  qed
qed

end
