(* ===== verification/Delivery.thy ===== *)
theory Delivery
  imports Reading
begin

text \<open>
  What a client receives for what it sends: the handlers when the kernel delivers some bytes and
  then says that there are no more, which is the usual course of an edge-triggered event.
\<close>

section \<open>One delivery\<close>

text \<open>
  What the kernel answers a read: some bytes, or that there are none at the moment. A delivery is
  both, one after the other.
\<close>

definition arrives :: "platform \<Rightarrow> sys_call list \<Rightarrow> sys_call \<Rightarrow> u8 list \<Rightarrow> bool" where
  "arrives P h c bs \<longleftrightarrow> succeeded (kern P (c # h)) \<and> out_bytes (kern P (c # h)) = bs"

definition drained :: "platform \<Rightarrow> sys_call list \<Rightarrow> sys_call \<Rightarrow> bool" where
  "drained P h c \<longleftrightarrow> rax (kern P (c # h)) = -11"

definition delivers :: "platform \<Rightarrow> sys_call list \<Rightarrow> sys_call \<Rightarrow> u8 list \<Rightarrow> bool" where
  "delivers P h c bs \<longleftrightarrow> arrives P h c bs \<and> drained P (c # h) c"

lemma again_error: "\<exists>e. set_error 11 = Some e \<and> err_code e = EAGAIN"
proof -
  have "map_option err_code (set_error 11) = Some EAGAIN" by code_simp
  then show ?thesis by auto
qed

lemma arrived_read:
  assumes kern: "kernel_ok (kern P)" and d: "arrives P (trace w) (read_call fd a n) bs"
  shows "sys_read P w fd a n = (of_nat (length bs), None,
      w\<lparr>wmem := st_bytes (wmem w) a bs, trace := read_call fd a n # trace w\<rparr>)"
    and "length bs \<le> unat n"
proof -
  let ?c = "read_call fd a n"
  let ?r = "kern P (?c # trace w)"
  have s: "succeeded ?r" and bs: "out_bytes ?r = bs" using d by (simp_all add: arrives_def)
  have ok: "rax ?r \<le> n" "out_ptr ?r = a" "length bs = unat (rax ?r)"
    using kernel_reply[OF kern, of ?c "trace w"] s bs by (simp_all add: reply_ok_def read_call_def)
  then show "length bs \<le> unat n" by (simp add: word_le_nat_alt)
  show "sys_read P w fd a n = (of_nat (length bs), None,
      w\<lparr>wmem := st_bytes (wmem w) a bs, trace := ?c # trace w\<rparr>)"
    using syscall_raw_succeeded[OF s] bs ok by (simp add: sys_read_def syscall3_def read_call_def)
qed

lemma drained_read:
  assumes kern: "kernel_ok (kern P)" and d: "drained P (trace w) (read_call fd a n)"
  shows "\<exists>v e. sys_read P w fd a n = (v, Some e, w\<lparr>trace := read_call fd a n # trace w\<rparr>) \<and> err_code e = EAGAIN"
proof -
  let ?c = "read_call fd a n"
  have f: "\<not> succeeded (kern P (?c # trace w))" using d by (simp add: drained_def succeeded_def)
  obtain e where e: "set_error 11 = Some e" "err_code e = EAGAIN" using again_error by blast
  have "snd (syscall_raw P w ?c) = w\<lparr>trace := ?c # trace w\<rparr>"
    using syscall_raw_failed[OF kern f] by auto
  moreover have "set_error (errno (fst (syscall_raw P w ?c))) = Some e"
    using e(1) d by (simp add: syscall_raw_def Let_def decode_rax_def drained_def)
  ultimately show ?thesis
    using e(2) by (auto simp: sys_read_def syscall3_def read_call_def split_def Let_def)
qed

context client_reader
begin

abbreviation read_at :: "mem \<Rightarrow> nat \<Rightarrow> sys_call" where
  "read_at m b \<equiv> read_call (cl_fd m c) (c + k + of_nat b) (of_nat (N - b))"

abbreviation stored :: "mem \<Rightarrow> nat \<Rightarrow> nat \<Rightarrow> u8 list \<Rightarrow> mem" where
  "stored m b n bs \<equiv> set_cnt (of_nat n) (st_bytes m (c + k + of_nat b) bs)"

lemma read_args:
  assumes "b \<le> N"
  shows "(scast (of_nat b :: u32) :: u64) = of_nat b" "(scast (of_nat N - of_nat b :: u32) :: u64) = of_nat (N - b)"
proof -
  have e: "(of_nat N - of_nat b :: u32) = of_nat (N - b)" using assms by (simp add: of_nat_diff)
  show "(scast (of_nat b :: u32) :: u64) = of_nat b" "(scast (of_nat N - of_nat b :: u32) :: u64) = of_nat (N - b)"
    unfolding e using assms cap by (simp_all add: count_scast del: of_nat_diff)
qed

text \<open>
  A piece that arrives is stored at the offset at which the loop started, whatever has been counted
  since, and its length is added to the counter.
\<close>

lemma loop_takes:
  fixes w :: world
  assumes plat: "platform_ok P" and b: "b \<le> N" "cnt (wmem w) = of_nat j" "j + length bs \<le> N"
    and bs: "bs \<noteq> []" and d: "arrives P (trace w) (read_at (wmem w) b) bs"
  shows "loop (Suc i) (of_nat b) s w =
      loop i (of_nat b) s (w\<lparr>wmem := stored (wmem w) b (j + length bs) bs, trace := read_at (wmem w) b # trace w\<rparr>)"
    and "only area (wmem w) (stored (wmem w) b (j + length bs) bs)" and "b + length bs \<le> N"
proof -
  have kern: "kernel_ok (kern P)" using plat by (simp add: platform_ok_def)
  note dr = arrived_read[OF kern d]
  have "unat (of_nat (N - b) :: u64) = N - b" using cap by (intro unat_of_nat_less) simp
  with dr(2) b(1) show len: "b + length bs \<le> N" by simp
  let ?m1 = "st_bytes (wmem w) (c + k + of_nat b) bs"
  have b5: "j \<le> 512" "length bs \<le> 512" using b(3) cap by simp_all
  have "span (c + k + of_nat b) (length bs) \<subseteq> span (c + k) N"
  proof (rule span_sub)
    have "unat (of_nat b :: u64) = b" using b(1) cap by (intro unat_of_nat_less) simp
    then show "unat (of_nat b :: u64) + length bs \<le> N" using len by simp
  qed (use cap in simp)
  then have o1: "only (span (c + k) N) (wmem w) ?m1" by (rule only_mono[OF only_st_bytes])
  show "only area (wmem w) (stored (wmem w) b (j + length bs) bs)"
    by (rule only_trans[OF only_mono[OF o1 area(2)] cnt_set(2)])
  have sum: "cnt ?m1 + ucast (of_nat (length bs) :: u64) = of_nat (j + length bs)"
    using cnt_other[OF o1] b(2) counter_add(1)[OF b5] by simp
  have room: "\<not> sint (of_nat (j + length bs) :: u32) > int N" using counter_add(2)[OF b5] b(3) by simp
  have pos: "(ucast (of_nat (length bs) :: u64) :: u32) \<noteq> 0" using counter_add(3)[OF b5] bs by simp
  show "loop (Suc i) (of_nat b) s w =
      loop i (of_nat b) s (w\<lparr>wmem := stored (wmem w) b (j + length bs) bs, trace := read_at (wmem w) b # trace w\<rparr>)"
    using dr(1) pos room
    by (simp only: loop_Suc read_args[OF b(1)] Let_def prod.case option.case if_False on_mem_def sum cnt_set(1) upd_order
        world.select_convs world.update_convs world.surjective)
       (simp add: sum cnt_set(1) upd_order del: of_nat_add)
qed

lemma loop_ends:
  assumes plat: "platform_ok P" and b: "b \<le> N" and d: "drained P (trace w) (read_at (wmem w) b)"
  shows "loop (Suc i) (of_nat b) s w = Inr (True, s, w\<lparr>trace := read_at (wmem w) b # trace w\<rparr>)"
proof -
  have "kernel_ok (kern P)" using plat by (simp add: platform_ok_def)
  from drained_read[OF this d] show ?thesis by (auto simp: loop_Suc read_args[OF b] Let_def)
qed

text \<open>One piece, and then nothing: it is stored behind what is there, and counted.\<close>

lemma loop_delivers:
  fixes w :: world
  assumes plat: "platform_ok P" and b: "b \<le> N" "cnt (wmem w) = of_nat b"
    and bs: "bs \<noteq> []" and d: "delivers P (trace w) (read_at (wmem w) b) bs"
    and fd: "\<And>m m'. only area m m' \<Longrightarrow> cl_fd m' c = cl_fd m c"
  shows "loop (Suc (Suc i)) (of_nat b) s w = Inr (True, s,
      w\<lparr>wmem := set_cnt (of_nat (b + length bs)) (st_bytes (wmem w) (c + k + of_nat b) bs),
        trace := read_at (wmem w) b # read_at (wmem w) b # trace w\<rparr>)"
    and "b + length bs \<le> N"
proof -
  have kern: "kernel_ok (kern P)" using plat by (simp add: platform_ok_def)
  have a: "arrives P (trace w) (read_at (wmem w) b) bs" "drained P (read_at (wmem w) b # trace w) (read_at (wmem w) b)"
    using d by (simp_all add: delivers_def)
  have "unat (of_nat (N - b) :: u64) = N - b" using cap by (intro unat_of_nat_less) simp
  with arrived_read(2)[OF kern a(1)] b(1) show len: "b + length bs \<le> N" by simp
  note t = loop_takes[OF plat b len bs a(1)]
  from fd[OF t(2)] a(2)
  show "loop (Suc (Suc i)) (of_nat b) s w = Inr (True, s,
      w\<lparr>wmem := set_cnt (of_nat (b + length bs)) (st_bytes (wmem w) (c + k + of_nat b) bs),
        trace := read_at (wmem w) b # read_at (wmem w) b # trace w\<rparr>)"
    by (simp add: t(1) loop_ends[OF plat b(1)] del: of_nat_add)
qed

text \<open>
  Two pieces, and then nothing: both are counted, but the second is stored where the first was.
\<close>

lemma loop_delivers_twice:
  fixes w :: world
  assumes plat: "platform_ok P" and b: "b \<le> N" "cnt (wmem w) = of_nat b"
    and bs: "bs \<noteq> []" "cs \<noteq> []" "b + length bs + length cs \<le> N"
    and a: "arrives P (trace w) (read_at (wmem w) b) bs"
      "arrives P (read_at (wmem w) b # trace w) (read_at (wmem w) b) cs"
      "drained P (read_at (wmem w) b # read_at (wmem w) b # trace w) (read_at (wmem w) b)"
    and fd: "\<And>m m'. only area m m' \<Longrightarrow> cl_fd m' c = cl_fd m c"
  obtains w' m2 where "loop (Suc (Suc (Suc i))) (of_nat b) s w = Inr (True, s, w')"
    "wmem w' = set_cnt (of_nat (b + length bs + length cs)) (st_bytes m2 (c + k + of_nat b) cs)"
    "m2 = set_cnt (of_nat (b + length bs)) (st_bytes (wmem w) (c + k + of_nat b) bs)" "only area (wmem w) m2"
proof -
  let ?m2 = "set_cnt (of_nat (b + length bs)) (st_bytes (wmem w) (c + k + of_nat b) bs)"
  let ?w2 = "w\<lparr>wmem := ?m2, trace := read_at (wmem w) b # trace w\<rparr>"
  have len: "b + length bs \<le> N" using bs(3) by simp
  note t = loop_takes[OF plat b len bs(1) a(1)]
  have same: "read_at ?m2 b = read_at (wmem w) b" using fd[OF t(2)] by simp
  have c2: "cnt (wmem ?w2) = of_nat (b + length bs)" by (simp add: cnt_set(1) del: of_nat_add)
  have a2: "arrives P (trace ?w2) (read_at (wmem ?w2) b) cs" using a(2) same by simp
  note u = loop_takes[OF plat b(1) c2 bs(3,2) a2]
  let ?m3 = "set_cnt (of_nat (b + length bs + length cs)) (st_bytes ?m2 (c + k + of_nat b) cs)"
  let ?w3 = "?w2\<lparr>wmem := ?m3, trace := read_at (wmem w) b # trace ?w2\<rparr>"
  have u': "loop (Suc (Suc i)) (of_nat b) s ?w2 = loop (Suc i) (of_nat b) s ?w3" using u(1) same by (simp del: of_nat_add)
  have "cl_fd ?m3 c = cl_fd (wmem w) c" using fd[OF u(2)] fd[OF t(2)] by (simp del: of_nat_add)
  then have "drained P (trace ?w3) (read_at (wmem ?w3) b)" using a(3) by simp
  from loop_ends[OF plat b(1) this]
  have "loop (Suc (Suc (Suc i))) (of_nat b) s w = Inr (True, s, ?w3\<lparr>trace := read_at (wmem ?w3) b # trace ?w3\<rparr>)"
    unfolding t(1) u' .
  from that[OF this _ refl t(2)] show ?thesis by (simp del: of_nat_add)
qed

end

section \<open>What has been received\<close>

lemma ld_appended:
  assumes len: "b + length bs \<le> N" "N \<le> 512" and o: "only S (st_bytes m (a + of_nat b) bs) m'"
    and apart: "span a N \<inter> S = {}"
  shows "ld_bytes m' a (b + length bs) = ld_bytes m a b @ bs"
proof -
  let ?m1 = "st_bytes m (a + of_nat b) bs"
  have "span a (b + length bs) \<inter> S = {}" using apart span_mono[OF len(1), of a] by blast
  then have "ld_bytes m' a (b + length bs) = ld_bytes ?m1 a (b + length bs)"
    by (rule only_ld_bytes[OF o]) (use len in simp)
  also have "\<dots> = ld_bytes ?m1 a b @ ld_bytes ?m1 (a + of_nat b) (length bs)" by (rule ld_bytes_add)
  also have "ld_bytes ?m1 (a + of_nat b) (length bs) = bs" by (rule ld_bytes_st_bytes_same) (use len in simp)
  also have "ld_bytes ?m1 a b = ld_bytes m a b"
  proof (cases "b = 0")
    case False
    have u: "unat (of_nat b :: u64) = b" by (rule unat_of_nat_less) (use len in simp)
    then have "(of_nat b :: u64) \<noteq> 0" using False by auto
    from unat_diff_swap[OF this] u have "unat (- (of_nat b :: u64)) = 2 ^ 64 - b" by simp
    then have "disj a b (a + of_nat b) (length bs)" using u len by (simp add: disj_def)
    from disj_spans[OF this] show ?thesis by (rule only_ld_bytes[OF only_st_bytes]) (use len in simp)
  qed simp
  finally show ?thesis .
qed

lemma fuel_two:
  assumes "platform_ok P"
  obtains f where "fuel P = Suc (Suc f)"
proof -
  have "2 \<le> fuel P" using assms unfolding platform_ok_def by linarith
  from le_Suc_ex[OF this] that show ?thesis by auto
qed

text \<open>A line: the handler answers with the first complete line, if the bytes complete one.\<close>

definition line_reading :: "platform \<Rightarrow> mem \<Rightarrow> u64 \<Rightarrow> sys_call" where
  "line_reading P m c = (let b = length (pending m c)
     in read_call (cl_fd m c) (cl_buf c + of_nat b) (of_nat (max_line_len - b)))"

lemma line_delivered:
  assumes plat: "platform_ok P" and g: "good P w s pls" and c: "c \<in> set (clients pls)"
    and named: "cl_name_ok (wmem w) c = 1" and bs: "bs \<noteq> []"
    and d: "delivers P (trace w) (line_reading P (wmem w) c) bs"
  defines "all \<equiv> pending (wmem w) c @ bs" and "cl \<equiv> line_reading P (wmem w) c"
  shows "\<exists>w' cs. session_line_read P c s w = Inr (s, w') \<and> good P w' s pls \<and> length all \<le> max_line_len \<and>
    (if 10 \<in> set all then
       (let stamp = clock_stamp P (cl # cl # trace w);
            tx = name_of (wmem w) c @ stamp_text stamp @ first_line all
        in pending (wmem w') c = drop (length (first_line all)) all \<and> stamp_calls P stamp cs \<and>
           trace w' = to_others P (wmem w) (stk P ''check_line_and_send.msg'') tx c pls @ cs @ cl # cl # trace w)
     else pending (wmem w') c = all \<and> trace w' = cl # cl # trace w)"
proof -
  obtain b where b: "cl_buf_used (wmem w) c = of_nat b" "b \<le> 512" using counter_bounds[OF g c] by metis
  have sb: "nat (sint (cl_buf_used (wmem w) c)) = b" using b sint_of_nat32[of b] by simp
  have pend: "pending (wmem w) c = ld_bytes (wmem w) (cl_buf c) b" by (simp add: pending_def sb)
  have cl: "cl = read_call (cl_fd (wmem w) c) (c + 8 + of_nat b) (of_nat (512 - b))"
    by (simp add: cl_def line_reading_def pend cl_buf_def max_line_len_def)
  have fd: "cl_fd m' c = cl_fd m c" if "only (span (c + 4) 516) m m'" for m m'
    unfolding cl_fd_def using that by (rule c32.only_ld) (rule disj_spans, simp add: disj_def)
  note ld = line_reader.loop_delivers[OF plat b(2,1) bs d[folded cl_def, unfolded cl] fd, folded cl]
  define m2 where "m2 = set_buf_used c (of_nat (b + length bs)) (st_bytes (wmem w) (c + 8 + of_nat b) bs)"
  define w2 where "w2 = w\<lparr>wmem := m2, trace := cl # cl # trace w\<rparr>"
  obtain f where f: "fuel P = Suc (Suc f)" using fuel_two[OF plat] .
  have loop: "line_read_loop (fuel P) P c (of_nat b) s w = Inr (True, s, w2)"
    using ld(1)[of f s] by (simp only: f w2_def m2_def)
  have "loop_outcome P c (span (c + 4) 516) pls s w (Inr (True, s, w2))"
    using line_reader.loop_spec[OF plat b(2) g c named, of "fuel P"] by (simp only: loop)
  then have g2: "good P w2 s pls" and o2: "only (span (c + 4) 516) (wmem w) m2"
    by (simp_all add: loop_outcome_def w2_def)
  have o1: "only (span (c + 4) 4) (st_bytes (wmem w) (c + 8 + of_nat b) bs) m2"
    unfolding m2_def set_buf_used_def by (rule c32.only_st)
  have "span (c + 8) 512 \<inter> span (c + 4) 4 = {}" by (rule disj_spans) (simp add: disj_def)
  from ld_appended[OF ld(2) _ o1 this]
  have buf: "ld_bytes m2 (c + 8) (b + length bs) = all" by (simp add: all_def pend cl_buf_def)
  have used2: "cl_buf_used m2 c = of_nat (b + length bs)"
    by (simp only: m2_def cl_buf_used_def set_buf_used_def c32.ld_st_same)
  have "nat (sint (of_nat (b + length bs) :: u32)) = b + length bs"
    using ld(2) by (subst sint_of_nat32) simp_all
  then have pend2: "pending m2 c = all" by (simp only: pending_def used2 cl_buf_def buf)
  have len: "length all \<le> max_line_len" using ld(2) by (simp add: all_def pend max_line_len_def)
  have tail: "agree (span (c + 520) 48) (wmem w) m2" by (rule only_agree[OF o2 line_spans(5)])
  have named2: "cl_name_ok (wmem w2) c = 1" using tail_agree(2)[OF tail] named by (simp add: w2_def)
  have "name_of m2 c = name_of (wmem w) c"
  proof -
    have "agree (span (cl_name c) 32) (wmem w) m2" unfolding cl_name_def by (rule agree_mono[OF tail span_mono]) simp
    then have "ld_bytes m2 (cl_name c) 32 = ld_bytes (wmem w) (cl_name c) 32"
      by (intro ld_bytes_cong) (auto simp: agree_def span_def)
    then show ?thesis by (simp add: name_of_def max_name_len_def)
  qed
  moreover have "to_others P m2 buf tx c pls = to_others P (wmem w) buf tx c pls" for buf tx
  proof -
    have st: "stale_ok m2 c" using stale_ok_agree[OF tail] good_stale[OF g c] by simp
    have sub: "span (c + 4) 516 \<subseteq> span c 560" by (rule span_sub) simp_all
    have "only (span c 560 \<union> scratch P) (wmem w) m2" by (rule only_mono[OF o2]) (use sub in auto)
    note cw = client_write(2)[OF good_parts(1)[OF g] _ c this st]
    have lay: "layout_ok P" using plat by (simp add: platform_ok_def)
    have "cl_fd m2 d = cl_fd (wmem w) d" if "d \<in> set (clients pls)" "d \<noteq> c" for d
      using client_agree(1)[OF cw[OF lay clients_slots[OF good_parts(1)[OF g] that(1)] that(2)]] .
    then show ?thesis by (simp add: to_others_def)
  qed
  ultimately have same: "name_of (wmem w2) c = name_of (wmem w) c"
    "to_others P (wmem w2) buf tx c pls = to_others P (wmem w) buf tx c pls" for buf tx
    by (simp_all add: w2_def)
  have run: "session_line_read P c s w = andthen (check_line_and_send P c s w2) (\<lambda>w. Inr (s, w))"
    using loop by (simp add: session_line_read_def b(1))
  have p2: "pending (wmem w2) c = all" by (simp add: w2_def pend2)
  note G2 = good_parts[OF g2]
  show ?thesis
  proof (cases "10 \<in> set all")
    case False
    then have "check_line_and_send P c s w2 = Inr w2" using p2 by (intro check_line_None) simp
    then show ?thesis using run g2 len False p2 by (intro exI[of _ w2]) (simp add: w2_def)
  next
    case True
    then have nl: "10 \<in> set (pending (wmem w2) c)" by (simp add: p2)
    obtain w3 where w3: "check_line_and_send P c s w2 = Inr w3" "good P w3 s pls"
      using check_line_good[OF plat g2 c named2] by metis
    have tr2: "trace w2 = cl # cl # trace w" by (simp add: w2_def)
    show ?thesis
      using check_line_Some[OF plat G2(1,3) c named2 nl] run w3 len True
      by (auto simp: p2 same tr2 Let_def)
  qed
qed

text \<open>A name: the bytes before the first line break name the client, and all are told.\<close>

definition name_reading :: "platform \<Rightarrow> mem \<Rightarrow> u64 \<Rightarrow> sys_call" where
  "name_reading P m c = (let b = length (received m c)
     in read_call (cl_fd m c) (cl_name c + of_nat b) (of_nat (max_name_len - b)))"

lemma name_delivered:
  assumes plat: "platform_ok P" and g: "good P w s pls" and c: "c \<in> set (clients pls)"
    and fresh: "cl_name_ok (wmem w) c = 0" and bs: "bs \<noteq> []"
    and d: "delivers P (trace w) (name_reading P (wmem w) c) bs"
  defines "all \<equiv> received (wmem w) c @ bs" and "cl \<equiv> name_reading P (wmem w) c"
    and "nm \<equiv> takeWhile in_name (received (wmem w) c @ bs)" and "buf \<equiv> stk P ''session_name_read.msg''"
  shows "\<exists>w'. session_name_read P c s w = Inr (s, w') \<and> good P w' s pls \<and> length all \<le> max_name_len \<and>
    (if \<forall>x \<in> set all. in_name x then
       cl_name_ok (wmem w') c = 0 \<and> received (wmem w') c = all \<and> trace w' = cl # cl # trace w
     else cl_name_ok (wmem w') c = 1 \<and> used_name (wmem w') c = nm \<and>
       trace w' = to_others P (wmem w) buf (nm @ bytes_of entered_msg) c pls @
         write_call (cl_fd (wmem w) c) buf (bytes_of welcome_msg @ nm @ [10]) # cl # cl # trace w)"
proof -
  obtain b where b: "cl_name_used (wmem w) c = of_nat b" "b \<le> 32" using counter_bounds[OF g c] by metis
  have sb: "nat (sint (cl_name_used (wmem w) c)) = b" using b sint_of_nat32[of b] by simp
  have pend: "received (wmem w) c = ld_bytes (wmem w) (cl_name c) b" by (simp add: received_def sb)
  have cl: "cl = read_call (cl_fd (wmem w) c) (c + 520 + of_nat b) (of_nat (32 - b))"
    by (simp add: cl_def name_reading_def pend cl_name_def max_name_len_def)
  have fdk: "cl_fd m' c = cl_fd m c" if "only (span (c + 520) 40) m m'" for m m'
    unfolding cl_fd_def using that by (rule c32.only_ld) (rule disj_spans, simp add: disj_def)
  have s36: "span (c + 520) 36 \<subseteq> span (c + 520) 40" by (rule span_mono) simp
  note ld = name_reader.loop_delivers[OF plat b(2,1) bs d[folded cl_def, unfolded cl]
      fdk[OF only_mono[OF _ s36]], folded cl]
  define m2 where "m2 = set_name_used c (of_nat (b + length bs)) (st_bytes (wmem w) (c + 520 + of_nat b) bs)"
  define w2 where "w2 = w\<lparr>wmem := m2, trace := cl # cl # trace w\<rparr>"
  obtain f where f: "fuel P = Suc (Suc f)" using fuel_two[OF plat] .
  have loop: "name_read_loop (fuel P) P c (of_nat b) s w = Inr (True, s, w2)"
    using ld(1)[of f s] by (simp only: f w2_def m2_def)
  have "loop_outcome P c (span (c + 520) 36) pls s w (Inr (True, s, w2))"
    using name_reader.loop_spec[OF plat b(2) g c fresh, of "fuel P"] by (simp only: loop)
  then have g2: "good P w2 s pls" and o2: "only (span (c + 520) 36) (wmem w) m2"
    by (simp_all add: loop_outcome_def w2_def)
  have o1: "only (span (c + 552) 4) (st_bytes (wmem w) (c + 520 + of_nat b) bs) m2"
    unfolding m2_def set_name_used_def by (rule c32.only_st)
  have "span (c + 520) 32 \<inter> span (c + 552) 4 = {}" by (rule disj_spans) (simp add: disj_def)
  from ld_appended[OF ld(2) _ o1 this]
  have chars: "ld_bytes m2 (c + 520) (b + length bs) = all" by (simp add: all_def pend cl_name_def)
  have used2: "cl_name_used m2 c = of_nat (b + length bs)"
    by (simp only: m2_def cl_name_used_def set_name_used_def c32.ld_st_same)
  have "nat (sint (of_nat (b + length bs) :: u32)) = b + length bs"
    using ld(2) by (subst sint_of_nat32) simp_all
  then have "received m2 c = all" by (simp only: received_def used2 cl_name_def chars)
  then have rec2: "received (wmem w2) c = all" by (simp add: w2_def)
  have len: "length all \<le> max_name_len" using ld(2) by (simp add: all_def pend max_name_len_def)
  have ok0: "cl_name_ok (wmem w2) c = 0" using name_write(1)[OF o2] fresh by (simp add: w2_def)
  have run: "session_name_read P c s w = (if cl_name_ok (scan_name (wmem w2) c 0) c = 1
      then announce P c s (w2\<lparr>wmem := scan_name (wmem w2) c 0\<rparr>)
      else Inr (s, w2\<lparr>wmem := scan_name (wmem w2) c 0\<rparr>))"
    using loop by (simp add: session_name_read_alt b(1) on_mem_def Let_def)
  show ?thesis
  proof (cases rule: scan_good[OF plat g2 c])
    case 1
    then show ?thesis using run ok0 g2 len by (intro exI[of _ w2]) (simp add: rec2, simp add: w2_def)
  next
    case (2 m3)
    have "cl_name_ok (wmem (w2\<lparr>wmem := m3\<rparr>)) c = 1" using 2(5) by simp
    from announce_spec[OF plat 2(3) c this] obtain w4 where w4:
      "announce P c s (w2\<lparr>wmem := m3\<rparr>) = Inr (s, w4)" "good P w4 s pls"
      "trace w4 = entered_calls P m3 c pls @ trace w2" "only (scratch P) m3 (wmem w4)"
      by auto
    have out: "client_span c \<inter> scratch P = {}"
      using scratch_outside(1)[OF good_parts(1)[OF g] clients_slots[OF good_parts(1)[OF g] c]] by (auto simp: statics_def)
    have ag: "agree (client_span c) m3 (wmem w4)" by (rule only_agree[OF w4(4) out])
    have "used_name (wmem w4) c = used_name m3 c"
    proof -
      have "nat (sint (cl_name_used m3 c)) \<le> 32"
      proof -
        obtain n where "cl_name_used m3 c = of_nat n" "n \<le> 32"
          using counter_bounds[OF 2(3) c] by auto
        then show ?thesis using sint_of_nat32[of n] by simp
      qed
      moreover have "span (cl_name c) (nat (sint (cl_name_used m3 c))) \<subseteq> client_span c"
        unfolding cl_name_def using calculation by (intro client_part) simp
      ultimately have "ld_bytes (wmem w4) (cl_name c) (nat (sint (cl_name_used m3 c))) =
          ld_bytes m3 (cl_name c) (nat (sint (cl_name_used m3 c)))"
        using out by (intro only_ld_bytes[OF w4(4)]) auto
      then show ?thesis by (simp add: used_name_def client_agree(3)[OF ag])
    qed
    then have nm4: "used_name (wmem w4) c = nm" using 2(6) by (simp add: rec2 nm_def all_def)
    have o3: "only (span (c + 520) 40) (wmem w) m3"
      using only_trans[OF only_mono[OF o2 s36]] 2(7) by (simp add: w2_def)
    have "to_others P m3 bf tx c pls = to_others P (wmem w) bf tx c pls" for bf tx
    proof -
      have sub: "span (c + 520) 40 \<subseteq> client_span c" by (rule client_part) simp
      have "cl_fd m3 d = cl_fd (wmem w) d" if d: "d \<in> set (clients pls)" "d \<noteq> c" for d
      proof -
        note ok = good_parts(1)[OF g]
        have "client_span d \<inter> client_span c = {}"
          by (rule slots_disjoint[OF ok clients_slots[OF ok d(1)] clients_slots[OF ok c] d(2)])
        then show ?thesis using sub by (intro client_agree(1) only_agree[OF o3]) auto
      qed
      then show ?thesis by (simp add: to_others_def)
    qed
    then have "trace w4 = to_others P (wmem w) buf (nm @ bytes_of entered_msg) c pls @
         write_call (cl_fd (wmem w) c) buf (bytes_of welcome_msg @ nm @ [10]) # cl # cl # trace w"
      using w4(3) 2(6) fdk[OF o3] by (simp add: entered_calls_def Let_def rec2 nm_def all_def buf_def) (simp add: w2_def)
    moreover have "cl_name_ok (wmem w4) c = 1" using client_agree(4)[OF ag] 2(5) by simp
    moreover have "\<not> (\<forall>x \<in> set all. in_name x)" using 2(2) by (simp add: rec2)
    ultimately show ?thesis using run 2(1,5) w4(1,2) len nm4 by (intro exI[of _ w4]) simp
  qed
qed

end
