(* ===== verification/Demo.thy ===== *)
theory Demo
  imports Serving Delivery
begin

text \<open>
  A platform on which the server runs: the literals and the locals have addresses, the literals are
  in memory, and the kernel is the demonstration kernel. The hypotheses on linker, loader, compiler
  and kernel hold here together, and so do those on the states of the server.
\<close>

section \<open>Addresses\<close>

definition index_of :: "'a \<Rightarrow> 'a list \<Rightarrow> nat" where
  "index_of x xs = length (takeWhile (\<lambda>y. y \<noteq> x) xs)"

lemma nth_index_of: "x \<in> set xs \<Longrightarrow> index_of x xs < length xs \<and> xs ! index_of x xs = x"
proof -
  assume "x \<in> set xs"
  then have l: "length (takeWhile (\<lambda>y. y \<noteq> x) xs) < length xs" by (intro takeWhile_stops) auto
  from nth_length_takeWhile[OF l] l show ?thesis by (simp add: index_of_def)
qed

definition demo_lit :: literals where
  "demo_lit s = 0x400000 + of_nat (128 * index_of s literals_used)"

definition demo_stk :: "string \<Rightarrow> u64" where
  "demo_stk v = (if v = ''server_go.evt'' then 0x500000
     else 0x501000 + of_nat (4096 * index_of v (map fst locals)))"

definition demo_mem :: mem where
  "demo_mem a =
    (let off = unat (a - 0x400000); i = off div 128; j = off mod 128
     in if i < length literals_used \<and> j < length (literals_used ! i)
        then bytes_of (literals_used ! i) ! j else 0)"

definition demo :: "u8 list list \<Rightarrow> platform" where
  "demo rs = \<lparr>kern = demo_kernel rs, lit = demo_lit, stk = demo_stk, fuel = 1024\<rparr>"

lemma demo_simps [simp]:
  "kern (demo rs) = (demo_kernel rs)" "lit (demo rs) = demo_lit" "stk (demo rs) = demo_stk" "fuel (demo rs) = 1024"
  by (simp_all add: demo_def)

lemma literal_shape: "list_all (\<lambda>s. length s < 128 \<and> 0 \<notin> set (bytes_of s)) literals_used"
  by code_simp

lemma counts: "length literals_used = 26" "length (map fst locals) = 9"
  by (simp_all add: literals_used_def locals_def)

lemma unat_place: "unat b + n < 2 ^ 64 \<Longrightarrow> unat (b + of_nat n :: u64) = unat b + n"
  by (subst unat_plus_less) (simp_all add: unat_of_nat_less)

lemma literal_places:
  assumes "s \<in> set literals_used"
  shows "0x400000 \<le> unat (demo_lit s)" "unat (demo_lit s) + 128 \<le> 0x500000"
  using nth_index_of[OF assms] unfolding demo_lit_def
  by (subst unat_place; simp add: counts)+

lemma local_shape: "list_all (\<lambda>(v, n). v \<noteq> ''server_go.evt'' \<and> n \<le> 2048) locals"
  by (simp add: locals_def)

lemma local_places:
  assumes "(v, n) \<in> set locals"
  shows "0x501000 \<le> unat (demo_stk v)" "unat (demo_stk v) + n \<le> 0x510000"
proof -
  have v: "v \<noteq> ''server_go.evt''" "n \<le> 2048" using local_shape assms by (auto simp: list_all_iff)
  have "v \<in> set (map fst locals)" using assms by force
  then have i: "index_of v (map fst locals) < 9" using nth_index_of[of v "map fst locals"] counts(2) by metis
  show "0x501000 \<le> unat (demo_stk v)" "unat (demo_stk v) + n \<le> 0x510000"
    using i v unfolding demo_stk_def by (simp only: v if_False, subst unat_place, simp, simp)+
qed

lemma event_place: "demo_stk ''server_go.evt'' = 0x500000"
  by (simp add: demo_stk_def)

lemma scratch_place: "x \<in> scratch (demo rs) \<Longrightarrow> 0x501000 \<le> unat x \<and> unat x < 0x510000"
proof -
  assume "x \<in> scratch (demo rs)"
  then obtain v n where v: "(v, n) \<in> set locals" "x \<in> span (demo_stk v) n" by (auto simp: scratch_def)
  show ?thesis using local_places[OF v(1)] v(2) by (subst (asm) span_nowrap) auto
qed

lemma rodata_place: "x \<in> rodata (demo rs) \<Longrightarrow> 0x400000 \<le> unat x \<and> unat x < 0x500000"
proof -
  assume "x \<in> rodata (demo rs)"
  then obtain s where s: "s \<in> set literals_used" "x \<in> span (demo_lit s) (Suc (length s))" by (auto simp: rodata_def)
  note literal_places[OF s(1)]
  moreover from literal_shape s(1) have "length s < 128" by (auto simp: list_all_iff)
  ultimately show ?thesis using s(2) by (subst (asm) span_nowrap) auto
qed

lemma events_place: "x \<in> events_area (demo rs) \<Longrightarrow> 0x500000 \<le> unat x \<and> unat x < 0x500100"
  unfolding events_area_def by (subst (asm) span_nowrap) (simp_all add: event_place max_events_def)

lemma statics_place: "x \<in> statics (demo rs) \<Longrightarrow> 0x400000 \<le> unat x \<and> unat x < 0x510000"
  using scratch_place[of x rs] rodata_place[of x rs] events_place[of x rs] by (auto simp: statics_def)

lemma demo_layout: "layout_ok (demo rs)"
  unfolding layout_ok_def
proof (intro conjI)
  show "\<forall>(v, n) \<in> set ((''server_go.evt'', 192) # locals). stk (demo rs) v \<noteq> 0 \<and> unat (stk (demo rs) v) + n \<le> 2 ^ 47"
  proof -
    have "demo_stk v \<noteq> 0" if "0x501000 \<le> unat (demo_stk v)" for v using that by auto
    then show ?thesis using local_places by (fastforce simp: event_place)
  qed
  show "\<forall>s \<in> set literals_used. unat (lit (demo rs) s) + length s < 2 ^ 47"
    using literal_places(2) literal_shape by (fastforce simp: list_all_iff)
  show "scratch (demo rs) \<inter> rodata (demo rs) = {}"
    using scratch_place rodata_place by fastforce
  show "events_area (demo rs) \<inter> (scratch (demo rs) \<union> rodata (demo rs)) = {}"
    using scratch_place rodata_place events_place by fastforce
  show "span (stk (demo rs) ''fmt_fprintf.buf'') max_buf \<inter> span (stk (demo rs) ''check_line_and_send.msg'') 561 = {}"
    "span (stk (demo rs) ''fmt_fprintf.buf'') max_buf \<inter> span (stk (demo rs) ''check_line_and_send.tp'') 16 = {}"
    "span (stk (demo rs) ''check_line_and_send.msg'') 561 \<inter> span (stk (demo rs) ''check_line_and_send.tp'') 16 = {}"
    by (rule disj_spans, simp add: disj_def demo_stk_def index_of_def locals_def max_buf_def)+
qed

lemma demo_platform: "platform_ok (demo rs)"
  by (simp add: platform_ok_def demo_kernel_ok demo_layout)

lemma demo_literals: "literals_ok (demo rs) demo_mem"
  unfolding literals_ok_def
proof
  fix s assume s: "s \<in> set literals_used"
  let ?i = "index_of s literals_used"
  note i = nth_index_of[OF s]
  have sh: "length s < 128" "0 \<notin> set (bytes_of s)" using literal_shape s by (auto simp: list_all_iff)
  note places = literal_places(1)[OF s]
  have at: "demo_mem (demo_lit s + of_nat j) = (if j < length s then bytes_of s ! j else 0)" if j: "j < 128" for j
  proof -
    have "128 * ?i + j < 2 ^ 64" using i j counts(1) by simp
    then have "unat (of_nat (128 * ?i + j) :: u64) = 128 * ?i + j" by (rule unat_of_nat_less)
    moreover have eq: "demo_lit s + of_nat j - 0x400000 = of_nat (128 * ?i + j)" by (simp add: demo_lit_def)
    ultimately have off: "unat (demo_lit s + of_nat j - 0x400000) = 128 * ?i + j" by (simp only: eq)
    have "(128 * ?i + j) div 128 = ?i" "(128 * ?i + j) mod 128 = j" using j by simp_all
    then show ?thesis using i by (simp add: demo_mem_def off Let_def del: of_nat_add of_nat_mult)
  qed
  have "ld_bytes demo_mem (demo_lit s) (length (bytes_of s)) = bytes_of s"
    by (rule nth_equalityI) (use sh at in simp_all)
  moreover have "demo_mem (demo_lit s + of_nat (length (bytes_of s))) = 0" using at[of "length s"] sh by simp
  moreover have "demo_lit s \<noteq> 0" using places by auto
  ultimately show "cstr_at demo_mem (lit (demo rs) s) (bytes_of s)" using sh by (simp add: cstr_at_def)
qed

section \<open>The kernel\<close>

definition maps_of :: "sys_call list \<Rightarrow> nat" where
  "maps_of h = length (filter (\<lambda>d. sc_nr d = s_mmap) h)"

lemma demo_map_succeeds:
  assumes c: "sc_nr c = s_mmap" and ok: "succeeded (demo_kernel rs (c # h))"
  shows "rax (demo_kernel rs (c # h)) = demo_region (maps_of h)" "maps_of h < 16"
    "unat (sc_args c ! 1) \<le> 0x10000000000"
proof -
  have eq: "calls_before c h = maps_of h" by (simp add: calls_before_def maps_of_def c)
  have no: "\<not> (16 \<le> maps_of h \<or> 0x10000000000 < sc_args c ! 1)"
  proof
    assume "16 \<le> maps_of h \<or> 0x10000000000 < sc_args c ! 1"
    then have "demo_reply rs c h = (-12, 0, [])" by (simp only: demo_reply_map[OF c] eq if_True)
    then show False using ok by (simp add: demo_kernel_reply succeeded_def)
  qed
  then have "demo_reply rs c h = (demo_region (maps_of h), demo_region (maps_of h), replicate (unat (sc_args c ! 1)) 0)"
    by (simp only: demo_reply_map[OF c] eq if_False)
  then show "rax (demo_kernel rs (c # h)) = demo_region (maps_of h)" by (simp add: demo_kernel_reply)
  show "maps_of h < 16" using no by simp
  have "sc_args c ! 1 \<le> 0x10000000000" using no linorder_not_less by blast
  then show "unat (sc_args c ! 1) \<le> 0x10000000000" by (simp add: word_le_nat_alt)
qed

lemma demo_map_span:
  assumes "n < 16" and "k \<le> 0x10000000000"
  shows "x \<in> span (demo_region n) k \<longleftrightarrow>
    0x10000000 + n * 0x20000000000 \<le> unat x \<and> unat x < 0x10000000 + n * 0x20000000000 + k"
  using assms demo_region_bounds(1)[OF assms(1)] by (subst span_nowrap) simp_all

lemma demo_mapped: "x \<in> mapped (demo_kernel rs) h \<Longrightarrow> unat x < 0x10000000 + maps_of h * 0x20000000000"
proof (induction h)
  case (Cons c h)
  show ?case
  proof (cases "sc_nr c = s_mmap \<and> succeeded (demo_kernel rs (c # h))")
    case True
    note s = demo_map_succeeds[of c rs h]
    have m: "maps_of (c # h) = Suc (maps_of h)" using True by (simp add: maps_of_def)
    have "x \<in> mapped (demo_kernel rs) h \<or> x \<in> span (demo_region (maps_of h)) (unat (sc_args c ! 1))"
      using Cons.prems True s(1) by simp
    then show ?thesis
    proof
      assume "x \<in> span (demo_region (maps_of h)) (unat (sc_args c ! 1))"
      then show ?thesis using True s(2,3) by (subst (asm) demo_map_span) (simp_all add: m)
    qed (use Cons.IH in \<open>simp add: m\<close>)
  next
    case False
    then have "x \<in> mapped (demo_kernel rs) h" using Cons.prems by (auto split: if_splits)
    moreover have "maps_of h \<le> maps_of (c # h)" by (simp add: maps_of_def)
    ultimately show ?thesis using Cons.IH by fastforce
  qed
qed simp

lemma demo_fresh: "kernel_fresh (demo_kernel rs) (statics (demo rs))"
  unfolding kernel_fresh_def
proof (intro allI impI)
  fix c h assume c: "sc_nr c = s_mmap" and ok: "succeeded (demo_kernel rs (c # h))"
  note s = demo_map_succeeds[OF c ok]
  show "span (rax (demo_kernel rs (c # h))) (unat (sc_args c ! 1)) \<inter>
      (statics (demo rs) \<union> mapped (demo_kernel rs) h) = {}"
    using demo_map_span[OF s(2,3)] demo_mapped[of _ rs h] statics_place[of _ rs] unfolding s(1)
    by (auto simp: disjoint_iff dest!: demo_mapped statics_place)
qed

lemma demo_epoll: "epoll_ok (demo_kernel rs)"
  unfolding epoll_ok_def
proof (intro allI impI)
  fix c h assume c: "sc_nr c = s_epoll_wait" and ok: "succeeded ((demo_kernel rs) (c # h))"
  have r: "demo_reply rs c h = (if ctl_data h = [] \<or> sc_args c ! 2 < 1 then (-4, 0, []) else (1, sc_args c ! 1, ctl_data h))"
    using c by (simp add: demo_reply_def Let_def syscall_numbers)
  have some: "ctl_data h \<noteq> []" "\<not> sc_args c ! 2 < 1"
    using ok r by (auto simp: demo_kernel_reply succeeded_def split: if_splits)
  then obtain d g where h: "h = d # g" "sc_nr d = s_epoll_ctl" "length (sc_data d) = 12" "ctl_data h = sc_data d"
    by (auto simp: ctl_data_def split: list.splits if_splits)
  have out: "out_bytes ((demo_kernel rs) (c # h)) = sc_data d" using r some h(4) by (simp add: demo_kernel_reply)
  have "demo_reply rs d g = (0, 0, [])" using h(2) by (simp add: demo_reply_def Let_def syscall_numbers)
  then have "succeeded ((demo_kernel rs) h)" by (simp add: h(1) demo_kernel_reply succeeded_def)
  then have "(ucast (sc_args d ! 2), event_data (sc_data d)) \<in> registered (demo_kernel rs) h"
    using h(1,2) by (simp add: syscall_numbers)
  moreover have "event_ptrs (sc_data d) = [event_data (sc_data d)]" using h(3) by (simp add: event_ptrs_def)
  ultimately show "\<exists>ws. distinct ws \<and> set ws \<subseteq> registered (demo_kernel rs) h \<and>
      event_ptrs (out_bytes ((demo_kernel rs) (c # h))) = map snd ws"
    unfolding out by (intro exI[of _ "[(ucast (sc_args d ! 2), event_data (sc_data d))]"]) simp
qed

lemma demo_uninterrupted: "uninterrupted (demo rs)"
  unfolding uninterrupted_def
proof (intro allI impI)
  fix w fd a n v e w' assume r: "sys_read (demo rs) w fd a n = (v, Some e, w')"
  let ?c = "read_call fd a n"
  have s: "set_error (errno (decode_rax (rax ((demo_kernel rs) (?c # trace w))))) = Some e"
    using r by (simp add: sys_read_def syscall3_def syscall_raw_def read_call_def Let_def split_def)
  have "\<exists>n \<le> 512. rax (demo_kernel rs (?c # trace w)) \<in> {of_nat n, -11}"
    by (auto simp: demo_kernel_reply demo_reply_def read_call_def Let_def split: prod.split if_splits)
  then have "errno (decode_rax (rax (demo_kernel rs (?c # trace w)))) \<in> {0, 11}"
    by (auto simp: decode_rax_def small_result)
  then have "set_error 11 = Some e" using s by auto
  then show "err_code e \<noteq> EINTR" using again_error by (auto simp: EAGAIN_def EINTR_def)
qed

section \<open>States of the server\<close>

definition demo_world :: world where
  "demo_world = \<lparr>wmem = demo_mem, trace = []\<rparr>"

definition demo_server :: server where
  "demo_server = \<lparr>ls = 3, n_pls = 0, first_clp = replicate 16 0\<rparr>"

lemma demo_maps:
  assumes "n < 16"
  shows "succeeded (demo_kernel rs (pool_map_call # replicate n pool_map_call))"
proof -
  have nr: "sc_nr pool_map_call = s_mmap" by (simp add: pool_map_call_def mmap_call_def)
  have n: "calls_before pool_map_call (replicate n pool_map_call) = n" by (simp add: calls_before_def filter_replicate)
  have "\<not> (16 \<le> calls_before pool_map_call (replicate n pool_map_call) \<or> 0x10000000000 < sc_args pool_map_call ! 1)"
    using assms unfolding n by (simp add: pool_map_call_def mmap_call_def block_len_def)
  then have "demo_reply rs pool_map_call (replicate n pool_map_call) =
      (demo_region n, demo_region n, replicate (unat (sc_args pool_map_call ! 1)) 0)"
    by (simp only: demo_reply_map[OF nr] if_False n)
  then show ?thesis using demo_region_bounds(2)[OF assms] by (simp add: demo_kernel_reply succeeded_def)
qed

lemma demo_boot: "server_ok (demo rs) (wmem demo_world) demo_server []" "blocks_mapped (demo rs) [] (trace demo_world)"
  using empty_server[of "demo rs" demo_mem "replicate 16 0" 3] demo_literals
  by (simp_all add: demo_world_def demo_server_def max_pools_def blocks_mapped_def pool_area_def)

lemma demo_pool_made:
  obtains q s w where "session_new_clp (demo rs) demo_server demo_world = Inr (s, w)"
    "good (demo rs) w s [(q, rev (slots q), [])]" "trace w = [pool_map_call]" "n_pls s = 1"
    "\<forall>c \<in> set (slots q). cl_next (wmem w) c = 0"
proof -
  have len: "length ([] :: pools) < max_pools" by (simp add: max_pools_def)
  have fresh: "kernel_fresh (kern (demo rs)) (statics (demo rs))" using demo_fresh by simp
  show ?thesis
  proof (cases rule: session_new_clp_spec[OF demo_platform fresh demo_boot len])
    case 1
    then show ?thesis using demo_maps[of 0] by (simp add: demo_world_def)
  next
    case (2 q s w)
    have t: "trace w = [pool_map_call]" using 2(8) by (simp add: demo_world_def)
    then have "watched (demo rs) w [(q, rev (slots q), [])]"
      by (simp add: watched_def pool_map_call_def mmap_call_def syscall_numbers)
    then have "good (demo rs) w s [(q, rev (slots q), [])]"
      using 2(3,4) by (simp add: good_def state_ok_def all_live_def clients_def)
    then show ?thesis using that[OF 2(1) _ t _ 2(7)] 2(2) by (simp add: demo_server_def)
  qed
qed

text \<open>One more client, taken from the pool and set up.\<close>

lemma demo_join:
  assumes g: "good (demo rs) w s ((q, c # fs, us) # rest)" and t: "registered (demo_kernel rs) (trace w) = {}"
  obtains w' where "good (demo rs) w' s ((q, fs, c # us) # rest)" "trace w' = trace w"
    "c \<notin> set (clients ((q, c # fs, us) # rest))"
    "cl_fd (wmem w') c = fd" "cl_buf_used (wmem w') c = 0" "cl_name_used (wmem w') c = 0"
    "cl_name_ok (wmem w') c = 0"
proof -
  let ?old = "(q, c # fs, us) # rest" and ?new = "(q, fs, c # us) # rest"
  have ok: "server_ok (demo rs) (wmem w) s ([] @ (q, c # fs, us) # rest)" using good_parts(1)[OF g] by simp
  have cl: "clients ?new = c # clients ?old" by (simp add: clients_def)
  obtain m' where m': "server_ok (demo rs) m' s ?new" "c \<notin> set (clients ?old)"
    "\<And>d. d \<in> set (clients ?old) \<Longrightarrow> agree (client_span d) (wmem w) m'"
    using open_from_pool[OF ok, where fresh = False] by auto
  let ?w1 = "w\<lparr>wmem := m'\<rparr>"
  have "blocks_mapped (demo rs) ?new (trace w)"
    using good_parts(2)[OF g] by (simp add: blocks_mapped_def pool_area_def blocks_def)
  then have st: "state_ok (demo rs) ?w1 s ?new" using m'(1) by (simp add: state_ok_def)
  have c: "c \<in> set (clients ?new)" by (simp add: cl)
  have live: "live_ok (wmem ?w1) d" if "d \<in> set (clients ?new)" "d \<noteq> c" for d
  proof -
    have d: "d \<in> set (clients ?old)" using that by (simp add: cl)
    then have "live_ok (wmem w) d" using good_live[OF g] by simp
    then show ?thesis using client_agree(7)[OF m'(3)[OF d]] by simp
  qed
  have "registered (demo_kernel rs) (trace ?w1) = {}" using t by simp
  then have reg: "(f, p) \<in> registered (kern (demo rs)) (trace ?w1) \<Longrightarrow> p = stk (demo rs) ''_start.serv'' \<or> p = c \<and> f = fd \<or>
      p \<in> set (clients ?new) \<and> p \<noteq> c \<and> cl_fd (wmem ?w1) p = f" for f p
    by simp
  note sg = setup_good(1)[OF demo_platform st c live reg]
  note f = init_client_facts[where c = c and fd = fd and m = m']
  show ?thesis
    by (rule that[OF sg]) (use m'(2) f in \<open>simp_all add: on_mem_def\<close>)
qed

lemma demo_nothing_watched:
  "registered (demo_kernel rs) [pool_map_call] = {}" "registered (demo_kernel rs) [pool_map_call, pool_map_call] = {}"
proof -
  have "sc_nr pool_map_call \<noteq> s_epoll_ctl" by (simp add: pool_map_call_def mmap_call_def syscall_numbers)
  then show "registered (demo_kernel rs) [pool_map_call] = {}"
    "registered (demo_kernel rs) [pool_map_call, pool_map_call] = {}" by simp_all
qed

text \<open>A client that has not given its name, and another one.\<close>

lemma demo_guests:
  obtains s w pls c d where "good (demo rs) w s pls" "clients pls = [c, d]" "c \<noteq> d" "trace w = [pool_map_call]"
    "cl_name_ok (wmem w) c = 0" "cl_name_used (wmem w) c = 0" "cl_buf_used (wmem w) c = 0" "cl_fd (wmem w) c = 6"
    "n_pls s = 1"
proof -
  obtain q s w0 where p: "good (demo rs) w0 s [(q, rev (slots q), [])]" "trace w0 = [pool_map_call]" "n_pls s = 1"
    using demo_pool_made .
  have len: "length (rev (slots q)) = 1023" by simp
  obtain d c fs where r: "rev (slots q) = d # c # fs"
    using len by (cases "rev (slots q)" rule: remdups_adj.cases) auto
  obtain w1 where w1: "good (demo rs) w1 s [(q, c # fs, [d])]" "trace w1 = [pool_map_call]"
    using demo_join[OF p(1)[unfolded r], where fd = 5] p(2) demo_nothing_watched(1) by (metis (no_types))
  have none: "registered (demo_kernel rs) (trace w1) = {}" by (simp only: w1(2) demo_nothing_watched)
  obtain w2 where "good (demo rs) w2 s [(q, fs, [c, d])]" "trace w2 = trace w1"
    "c \<notin> set (clients [(q, c # fs, [d])])"
    "cl_fd (wmem w2) c = 6" "cl_buf_used (wmem w2) c = 0" "cl_name_used (wmem w2) c = 0" "cl_name_ok (wmem w2) c = 0"
    by (rule demo_join[OF w1(1) none, where fd = 6])
  then show ?thesis using that[of w2 s "[(q, fs, [c, d])]" c d] p(3) w1(2) by (simp add: clients_def)
qed

text \<open>The same client with an (empty) name.\<close>

lemma demo_members:
  obtains s w pls c d where "good (demo rs) w s pls" "clients pls = [c, d]" "c \<noteq> d" "trace w = [pool_map_call]"
    "cl_name_ok (wmem w) c = 1" "pending (wmem w) c = []" "n_pls s = 1"
proof -
  obtain s w pls c d where g: "good (demo rs) w s pls" "clients pls = [c, d]" "c \<noteq> d" "trace w = [pool_map_call]"
    "cl_buf_used (wmem w) c = 0" "n_pls s = 1" using demo_guests .
  have c: "c \<in> set (clients pls)" using g(2) by simp
  note f = named_at_facts[of 0 c "wmem w", simplified]
  have "span (c + 520) 40 \<subseteq> span (c + 4) 556" using span_sub[of 516 40 556 "c + 4"] by (simp add: add.assoc)
  note o = only_mono[OF f(1) this]
  have "live_ok (named_at c 0 (wmem w)) c"
    using f(3,5) g(5) by (auto simp: live_ok_def intro: exI[of _ 0])
  from write_good_mem(1)[OF demo_platform g(1) c o f(7) this]
  have "good (demo rs) (w\<lparr>wmem := named_at c 0 (wmem w)\<rparr>) s pls" .
  moreover have "pending (named_at c 0 (wmem w)) c = []" using f(5) g(5) by (simp add: pending_def)
  ultimately show ?thesis using that[of "w\<lparr>wmem := named_at c 0 (wmem w)\<rparr>" s pls c d] g f(2) by simp
qed

text \<open>The same client with a complete line in its buffer.\<close>

lemma demo_line:
  obtains s w pls c d where "good (demo rs) w s pls" "clients pls = [c, d]" "c \<noteq> d" "trace w = [pool_map_call]"
    "cl_name_ok (wmem w) c = 1" "pending (wmem w) c = [104, 105, 10]"
proof -
  obtain s w pls c d where g: "good (demo rs) w s pls" "clients pls = [c, d]" "c \<noteq> d" "trace w = [pool_map_call]"
    "cl_name_ok (wmem w) c = 1" using demo_members .
  have c: "c \<in> set (clients pls)" using g(2) by simp
  let ?bs = "[104, 105, 10] :: u8 list"
  define m where "m = set_buf_used c 3 (st_bytes (wmem w) (c + 8) ?bs)"
  have l: "length ?bs = 3" by simp
  have "span (c + 8) (length ?bs) \<subseteq> span (c + 4) 516"
    unfolding l using span_sub[of 4 3 516 "c + 4"] by (simp add: add.assoc)
  then have o: "only (span (c + 4) 516) (wmem w) m"
    unfolding m_def set_buf_used_def by (intro c32.only_st_in only_st_bytes_in only_refl line_spans(2))
  note tl = only_agree[OF o line_spans(5)]
  have st: "stale_ok m c" using stale_ok_agree[OF tl] good_stale[OF g(1) c] by simp
  have used: "cl_buf_used m c = 3" by (simp add: m_def cl_buf_used_def set_buf_used_def c32.ld_st_same)
  obtain n where "cl_name_used (wmem w) c = of_nat n" "n \<le> 32" using counter_bounds[OF g(1) c] by metis
  then have "live_ok m c"
    using tail_agree(1)[OF tl] used by (auto simp: live_ok_def max_line_len_def max_name_len_def intro: exI[of _ 3])
  from write_good_mem(1)[OF demo_platform g(1) c only_mono[OF o line_spans(3)] st this]
  have "good (demo rs) (w\<lparr>wmem := m\<rparr>) s pls" .
  moreover have "pending m c = ?bs"
  proof -
    have "span (c + 8) 3 \<inter> span (c + 4) 4 = {}" by (rule disj_spans) (simp add: disj_def)
    then have "ld_bytes m (c + 8) 3 = ld_bytes (st_bytes (wmem w) (c + 8) ?bs) (c + 8) 3"
      unfolding m_def set_buf_used_def by (intro only_ld_bytes[OF c32.only_st]) simp_all
    also have "\<dots> = ?bs" using ld_bytes_st_bytes_same[of ?bs "wmem w" "c + 8"] unfolding l by simp
    finally show ?thesis by (simp add: pending_def used cl_buf_def)
  qed
  moreover have "cl_name_ok m c = 1" using tail_agree(2)[OF tl] g(5) by simp
  ultimately show ?thesis using that[of "w\<lparr>wmem := m\<rparr>" s pls c d] g(2-4) by simp
qed

text \<open>Two pools, the first with one client.\<close>

lemma demo_second_pool:
  obtains q r s w where "good (demo rs) w s [(q, rev (slots q), []), (r, rev (slots r), [])]"
    "trace w = [pool_map_call, pool_map_call]"
proof -
  obtain q s w where p: "good (demo rs) w s [(q, rev (slots q), [])]" "trace w = [pool_map_call]"
    using demo_pool_made .
  have len: "length [(q, rev (slots q), [] :: u64 list)] < max_pools" by (simp add: max_pools_def)
  have fresh: "kernel_fresh (kern (demo rs)) (statics (demo rs))" using demo_fresh by simp
  show ?thesis
  proof (cases rule: session_new_clp_spec[OF demo_platform fresh good_parts(1,2)[OF p(1)] len])
    case 1
    then show ?thesis using demo_maps[of 1] by (simp add: p(2))
  next
    case (2 r s' w')
    have t: "trace w' = [pool_map_call, pool_map_call]" using 2(8) by (simp add: p(2))
    let ?pls = "[(q, rev (slots q), []), (r, rev (slots r), [])]"
    have "watched (demo rs) w' ?pls"
      unfolding watched_def t using demo_nothing_watched(2)[of rs] by simp
    then have "good (demo rs) w' s' ?pls"
      using 2(3,4) by (simp add: good_def state_ok_def all_live_def clients_def)
    then show ?thesis using that t by blast
  qed
qed

lemma demo_two_pools:
  obtains q r c fs s w where "good (demo rs) w s [(q, fs, [c]), (r, rev (slots r), [])]"
    "trace w = [pool_map_call, pool_map_call]"
proof -
  obtain q r s w where p: "good (demo rs) w s [(q, rev (slots q), []), (r, rev (slots r), [])]"
    "trace w = [pool_map_call, pool_map_call]" using demo_second_pool .
  obtain c fs where e: "rev (slots q) = c # fs"
    using length_slots[of q] by (cases "rev (slots q)") (simp_all del: length_slots)
  have none: "registered (demo_kernel rs) (trace w) = {}" by (simp only: p(2) demo_nothing_watched)
  obtain w' where "good (demo rs) w' s [(q, fs, [c]), (r, rev (slots r), [])]" "trace w' = trace w"
    by (rule demo_join[OF p(1)[unfolded e] none])
  then show ?thesis using that p(2) by simp
qed

end
