(* ===== verification/Machine.thy ===== *)
theory Machine
  imports Demo
begin

text \<open>
  The endless loop of \<^verbatim>\<open>server_go\<close> as a state machine: a phase is the wait for events or the
  handling of the events of one wait, and a step is one wait or one event. The machine is the
  rounds of the function, keeps its invariant, and refines an abstract machine that knows only
  which clients are connected.
\<close>

section \<open>Steps\<close>

datatype phase = Waiting server world | Handling nat nat server world

abbreviation evt_at :: "platform \<Rightarrow> u64" where
  "evt_at P \<equiv> stk P ''server_go.evt''"

inductive go_step :: "platform \<Rightarrow> u32 \<Rightarrow> phase \<Rightarrow> phase \<Rightarrow> bool" for P epfd where
  interrupted: "sys_epoll_wait P w epfd (evt_at P) (of_nat max_events) (-1) = (v, Some e, w1) \<Longrightarrow>
    err_code e = EINTR \<Longrightarrow> go_step P epfd (Waiting s w) (Waiting s w1)"
| failed: "sys_epoll_wait P w epfd (evt_at P) (of_nat max_events) (-1) = (v, Some e, w1) \<Longrightarrow>
    err_code e \<noteq> EINTR \<Longrightarrow>
    fmt_fprintf P w1 stderr (lit P wait_error_format) [lit P (err_msg e)] = Inr (j, w2) \<Longrightarrow>
    go_step P epfd (Waiting s w) (Waiting s w2)"
| woken: "sys_epoll_wait P w epfd (evt_at P) (of_nat max_events) (-1) = (v, None, w1) \<Longrightarrow>
    go_step P epfd (Waiting s w) (Handling 0 (nat (sint v)) s w1)"
| handled: "i < n \<Longrightarrow> handle_event P epfd (event_ptr (wmem w) (evt_at P) i) s w = Inr (s', w') \<Longrightarrow>
    go_step P epfd (Handling i n s w) (Handling (Suc i) n s' w')"
| finished: "go_step P epfd (Handling n n s w) (Waiting s w)"

inductive_cases waiting_step: "go_step P epfd (Waiting s w) ph"
inductive_cases handling_step: "go_step P epfd (Handling i n s w) ph"

text \<open>The rounds of the function, without a bound on their number.\<close>

fun rounds :: "nat \<Rightarrow> platform \<Rightarrow> u32 \<Rightarrow> server \<Rightarrow> world \<Rightarrow> halt + server \<times> world" where
  "rounds 0 P epfd s w = Inr (s, w)"
| "rounds (Suc k) P epfd s w = andthen (rounds k P epfd s w) (\<lambda>(s, w). server_round P epfd s w)"

lemma rounds_first:
  "rounds (Suc k) P epfd s w = andthen (server_round P epfd s w) (\<lambda>(s, w). rounds k P epfd s w)"
proof (induction k)
  case 0
  show ?case by (cases "server_round P epfd s w") auto
next
  case (Suc k)
  have "rounds (Suc (Suc k)) P epfd s w = andthen (andthen (server_round P epfd s w) (\<lambda>(s, w). rounds k P epfd s w))
      (\<lambda>(s, w). server_round P epfd s w)"
    by (simp only: rounds.simps(2)[of "Suc k"] Suc.IH)
  also have "\<dots> = andthen (server_round P epfd s w) (\<lambda>(s, w). rounds (Suc k) P epfd s w)"
    unfolding andthen_assoc by (cases "server_round P epfd s w") auto
  finally show ?case .
qed

lemma server_rounds_alt:
  "server_rounds k P epfd s w = (case rounds k P epfd s w of Inl h \<Rightarrow> Inl h | Inr _ \<Rightarrow> Inl Out_of_fuel)"
proof (induction k arbitrary: s w)
  case (Suc k)
  show ?case
    unfolding rounds_first using Suc.IH by (cases "server_round P epfd s w") (auto split: prod.split)
qed simp

definition resume :: "platform \<Rightarrow> u32 \<Rightarrow> phase \<Rightarrow> halt + server \<times> world" where
  "resume P epfd ph = (case ph of Waiting s w \<Rightarrow> Inr (s, w)
     | Handling i n s w \<Rightarrow> dispatch (n - i) P epfd i s w)"

lemma resume_step:
  "go_step P epfd (Handling i n s w) ph \<Longrightarrow> resume P epfd ph = resume P epfd (Handling i n s w)"
  by (erule handling_step) (auto simp: resume_def Suc_diff_Suc[symmetric])

lemma round_step: "go_step P epfd (Waiting s w) ph \<Longrightarrow> resume P epfd ph = server_round P epfd s w"
  by (erule waiting_step) (auto simp: resume_def server_round_def)

lemma steps_rounds:
  "(go_step P epfd)\<^sup>*\<^sup>* (Waiting s w) ph \<Longrightarrow> \<exists>k. rounds k P epfd s w = resume P epfd ph"
proof (induction rule: rtranclp_induct)
  case base
  have "rounds 0 P epfd s w = resume P epfd (Waiting s w)" by (simp add: resume_def)
  then show ?case by blast
next
  case (step ph ph')
  then obtain k where k: "rounds k P epfd s w = resume P epfd ph" by blast
  show ?case
  proof (cases ph)
    case (Waiting s1 w1)
    then have "rounds (Suc k) P epfd s w = resume P epfd ph'"
      using k round_step[of P epfd s1 w1 ph'] step(2) by (simp add: resume_def)
    then show ?thesis by blast
  next
    case (Handling i n s1 w1)
    then show ?thesis using k resume_step[of P epfd i n s1 w1 ph'] step(2) by auto
  qed
qed

lemma dispatch_steps:
  "dispatch k P epfd i s w = Inr (s', w') \<Longrightarrow>
   (go_step P epfd)\<^sup>*\<^sup>* (Handling i (i + k) s w) (Handling (i + k) (i + k) s' w')"
proof (induction k arbitrary: i s w)
  case (Suc k)
  obtain s1 w1 where h: "handle_event P epfd (event_ptr (wmem w) (evt_at P) i) s w = Inr (s1, w1)"
    "dispatch k P epfd (Suc i) s1 w1 = Inr (s', w')"
    using Suc.prems by (auto simp: andthen_Inr_iff)
  from handled[OF _ h(1), of "i + Suc k"] have "go_step P epfd (Handling i (i + Suc k) s w) (Handling (Suc i) (i + Suc k) s1 w1)"
    by simp
  with Suc.IH[OF h(2)] show ?case by (simp add: converse_rtranclp_into_rtranclp)
qed simp

lemma round_steps:
  assumes "server_round P epfd s w = Inr (s', w')"
  shows "(go_step P epfd)\<^sup>*\<^sup>* (Waiting s w) (Waiting s' w')"
proof -
  obtain v err w1 where c: "sys_epoll_wait P w epfd (evt_at P) (of_nat max_events) (-1) = (v, err, w1)"
    by (metis prod_cases3)
  show ?thesis
  proof (cases err)
    case (Some e)
    then have "go_step P epfd (Waiting s w) (Waiting s' w')"
      using assms c interrupted failed by (auto simp: server_round_def andthen_Inr_iff split: if_splits)
    then show ?thesis by blast
  next
    case None
    then have "dispatch (nat (sint v)) P epfd 0 s w1 = Inr (s', w')" using assms c by (simp add: server_round_def)
    from dispatch_steps[OF this]
    have "(go_step P epfd)\<^sup>*\<^sup>* (Handling 0 (nat (sint v)) s w1) (Handling (nat (sint v)) (nat (sint v)) s' w')" by simp
    moreover have "go_step P epfd (Waiting s w) (Handling 0 (nat (sint v)) s w1)"
      using c None by (intro woken) simp
    ultimately show ?thesis by (meson finished converse_rtranclp_into_rtranclp rtranclp.rtrancl_into_rtrancl)
  qed
qed

lemma rounds_steps:
  "rounds k P epfd s w = Inr (s', w') \<Longrightarrow> (go_step P epfd)\<^sup>*\<^sup>* (Waiting s w) (Waiting s' w')"
proof (induction k arbitrary: s' w')
  case (Suc k)
  obtain s1 w1 where "rounds k P epfd s w = Inr (s1, w1)" "server_round P epfd s1 w1 = Inr (s', w')"
    using Suc.prems by (auto simp: andthen_Inr_iff)
  with Suc.IH round_steps show ?case by (meson rtranclp_trans)
qed simp

text \<open>So the machine is the loop of the function: it waits again after whole rounds.\<close>

lemma machine_rounds:
  "(go_step P epfd)\<^sup>*\<^sup>* (Waiting s w) (Waiting s' w') = (\<exists>k. rounds k P epfd s w = Inr (s', w'))"
  using steps_rounds[of P epfd s w "Waiting s' w'"] rounds_steps[of _ P epfd s w s' w']
  by (auto simp: resume_def)

section \<open>Connected clients\<close>

text \<open>What a walk over the lists of all pools finds.\<close>

fun client_list :: "nat \<Rightarrow> mem \<Rightarrow> u64 \<Rightarrow> u64 list" where
  "client_list 0 m p = []"
| "client_list (Suc k) m p = (if p = 0 then [] else p # client_list k m (cl_next m p))"

definition connected :: "server \<Rightarrow> mem \<Rightarrow> u64 list" where
  "connected s m = concat (map (\<lambda>q. client_list max_clients_in_pool m (clp_client m q))
     (take (n_pls s) (first_clp s)))"

lemma client_list_chain: "chain (cl_next m) p us \<Longrightarrow> length us \<le> k \<Longrightarrow> client_list k m p = us"
proof (induction us arbitrary: p k)
  case Nil
  then show ?case by (cases k) auto
next
  case (Cons u us)
  then show ?case by (cases k) auto
qed

lemma connected_clients:
  assumes ok: "server_ok P m s pls"
  shows "connected s m = clients pls"
proof -
  have "client_list max_clients_in_pool m (clp_client m q) = us" if e: "(q, fs, us) \<in> set pls" for q fs us
  proof (rule client_list_chain)
    note D = server_okD[OF ok e]
    show "chain (cl_next m) (clp_client m q) us" using D(3) by (simp add: clp_ok_def)
    show "length us \<le> max_clients_in_pool" using clp_counts[OF D(1,3)] by (simp add: max_clients_in_pool_def)
  qed
  then have "map (\<lambda>q. client_list max_clients_in_pool m (clp_client m q)) (blocks pls) = map (\<lambda>(q, fs, us). us) pls"
    by (auto simp: blocks_def)
  moreover have "take (n_pls s) (first_clp s) = blocks pls" using ok by (simp add: server_ok_def)
  ultimately show ?thesis by (simp add: connected_def clients_def)
qed

lemma clients_distinct: "server_ok P m s pls \<Longrightarrow> distinct (clients pls)"
proof -
  assume ok: "server_ok P m s pls"
  have "distinct (clients ps)" if "\<exists>qs. pls = qs @ ps" for ps
    using that
  proof (induction ps)
    case (Cons e ps)
    obtain q fs us where e: "e = (q, fs, us)" by (cases e) auto
    obtain qs where qs: "pls = qs @ (q, fs, us) # ps" using Cons.prems e by auto
    have "(q, fs, us) \<in> set pls" by (simp add: qs)
    note D = server_okD[OF ok this]
    have "pls = (qs @ [(q, fs, us)]) @ ps" by (simp add: qs)
    then have "distinct (clients ps)" using Cons.IH by blast
    moreover have "u \<notin> set (clients ps)" if "u \<in> set us" for u
      using client_elsewhere(2)[OF ok[unfolded qs]] D(5) that by blast
    moreover have "clients (e # ps) = us @ clients ps" by (simp add: clients_def e)
    ultimately show ?case using D(7) by auto
  qed (simp add: clients_def)
  then show ?thesis by blast
qed

lemma clients_count: "server_ok P m s pls \<Longrightarrow> length (clients pls) \<le> max_pools * max_clients_in_pool"
proof -
  assume ok: "server_ok P m s pls"
  have "length us \<le> max_clients_in_pool" if "(q, fs, us) \<in> set pls" for q fs us
    using clp_counts[OF server_okD(1,3)[OF ok that]] by (simp add: max_clients_in_pool_def)
  then have "length (clients ps) \<le> length ps * max_clients_in_pool" if "set ps \<subseteq> set pls" for ps
    using that by (induction ps) (fastforce simp: clients_def)+
  from this[of pls] have "length (clients pls) \<le> length pls * max_clients_in_pool" by simp
  also have "\<dots> \<le> max_pools * max_clients_in_pool" using ok by (simp add: server_ok_def)
  finally show ?thesis .
qed

section \<open>Transition systems\<close>

locale invariant_system =
  fixes init :: "'a \<Rightarrow> bool" and trans :: "'a \<Rightarrow> 'a \<Rightarrow> bool" and inv :: "'a \<Rightarrow> bool"
  assumes inv_init: "init x \<Longrightarrow> inv x"
    and inv_trans: "inv x \<Longrightarrow> trans x y \<Longrightarrow> inv y"
begin

lemma inv_reachable:
  assumes "init x" and "trans\<^sup>*\<^sup>* x y"
  shows "inv y"
  using assms(2) inv_init[OF assms(1)] by (induction rule: rtranclp_induct) (blast intro: inv_trans)+

end

locale refined_system = invariant_system +
  fixes abs :: "'a \<Rightarrow> 'b" and spec :: "'b \<Rightarrow> 'b \<Rightarrow> bool"
  assumes simulates: "inv x \<Longrightarrow> trans x y \<Longrightarrow> spec (abs x) (abs y)"
begin

lemma simulates_run:
  assumes "init x" and "trans\<^sup>*\<^sup>* x y"
  shows "spec\<^sup>*\<^sup>* (abs x) (abs y)"
  using assms(2)
proof (induction rule: rtranclp_induct)
  case (step y z)
  have "inv y" by (rule inv_reachable[OF assms(1) step(1)])
  from step(3) simulates[OF this step(2)] show ?case by (rule rtranclp.rtrancl_into_rtrancl)
qed simp

end

section \<open>The invariant of the loop\<close>

definition env_ok :: "platform \<Rightarrow> bool" where
  "env_ok P \<longleftrightarrow> platform_ok P \<and> kernel_fresh (kern P) (statics P) \<and> epoll_ok (kern P)"

text \<open>The events still to be handled are those of the listening socket and of connected clients.\<close>

definition events_left :: "platform \<Rightarrow> nat \<Rightarrow> nat \<Rightarrow> world \<Rightarrow> u64 list" where
  "events_left P i n w = map (event_ptr (wmem w) (evt_at P)) [i..<n]"

definition events_known :: "platform \<Rightarrow> nat \<Rightarrow> nat \<Rightarrow> world \<Rightarrow> u64 list \<Rightarrow> bool" where
  "events_known P i n w cs \<longleftrightarrow> i \<le> n \<and> n \<le> max_events \<and>
     set (events_left P i n w) \<subseteq> insert (serv_ptr P) (set cs) \<and>
     distinct (filter (\<lambda>e. e \<noteq> serv_ptr P) (events_left P i n w))"

definition phase_ok :: "platform \<Rightarrow> phase \<Rightarrow> bool" where
  "phase_ok P ph \<longleftrightarrow> (case ph of Waiting s w \<Rightarrow> \<exists>pls. good P w s pls
     | Handling i n s w \<Rightarrow> \<exists>pls. good P w s pls \<and> events_known P i n w (clients pls))"

definition phase_clients :: "phase \<Rightarrow> u64 list" where
  "phase_clients ph = (case ph of Waiting s w \<Rightarrow> connected s (wmem w)
     | Handling i n s w \<Rightarrow> connected s (wmem w))"

lemma good_connected: "good P w s pls \<Longrightarrow> connected s (wmem w) = clients pls"
  by (rule connected_clients[OF good_parts(1)])

text \<open>
  The abstract machine. It is idle with some clients, or busy with a list of events, where
  \<open>Some c\<close> is an event of a connected client and \<open>None\<close> one of the listening socket.
  A batch holds at most one event of each client. Clients join only when the listening socket is
  served, and a client leaves only at its own event.
\<close>

datatype chat = Idle "u64 list" | Busy "u64 option list" "u64 list"

inductive chat_step :: "chat \<Rightarrow> chat \<Rightarrow> bool" where
  stay: "chat_step (Idle cs) (Idle cs)"
| wake: "length es \<le> max_events \<Longrightarrow> set es \<subseteq> insert None (Some ` set cs) \<Longrightarrow>
    distinct (filter (\<lambda>e. e \<noteq> None) es) \<Longrightarrow> chat_step (Idle cs) (Busy es cs)"
| join: "set cs \<subseteq> set cs' \<Longrightarrow> distinct cs' \<Longrightarrow> length cs' \<le> max_pools * max_clients_in_pool \<Longrightarrow>
    chat_step (Busy (None # es) cs) (Busy es cs')"
| heard: "c \<in> set cs \<Longrightarrow> chat_step (Busy (Some c # es) cs) (Busy es cs)"
| leave: "c \<in> set cs \<Longrightarrow> chat_step (Busy (Some c # es) cs) (Busy es (filter (\<lambda>d. d \<noteq> c) cs))"
| rest: "chat_step (Busy [] cs) (Idle cs)"

definition event_of :: "platform \<Rightarrow> u64 \<Rightarrow> u64 option" where
  "event_of P e = (if e = serv_ptr P then None else Some e)"

definition phase_chat :: "platform \<Rightarrow> phase \<Rightarrow> chat" where
  "phase_chat P ph = (case ph of Waiting s w \<Rightarrow> Idle (connected s (wmem w))
     | Handling i n s w \<Rightarrow> Busy (map (event_of P) (events_left P i n w)) (connected s (wmem w)))"

lemma filter_event_of:
  "filter (\<lambda>e. e \<noteq> None) (map (event_of P) es) = map Some (filter (\<lambda>e. e \<noteq> serv_ptr P) es)"
  by (induction es) (simp_all add: event_of_def)

lemma known_wake:
  assumes "events_known P 0 n w cs"
  shows "chat_step (Idle cs) (Busy (map (event_of P) (events_left P 0 n w)) cs)"
proof (rule wake)
  have sub: "set (events_left P 0 n w) \<subseteq> insert (serv_ptr P) (set cs)"
    and d: "distinct (filter (\<lambda>e. e \<noteq> serv_ptr P) (events_left P 0 n w))"
    using assms by (simp_all add: events_known_def)
  show "length (map (event_of P) (events_left P 0 n w)) \<le> max_events"
    using assms by (simp add: events_known_def events_left_def)
  show "set (map (event_of P) (events_left P 0 n w)) \<subseteq> insert None (Some ` set cs)"
    using sub by (auto simp: event_of_def)
  show "distinct (filter (\<lambda>e. e \<noteq> None) (map (event_of P) (events_left P 0 n w)))"
    unfolding filter_event_of using d by (simp add: distinct_map inj_on_def)
qed

text \<open>One event, on the invariant and on the abstract state.\<close>

lemma handled_ok:
  assumes env: "env_ok P" and g: "good P w s pls" and ev: "events_known P i n w (clients pls)" and i: "i < n"
    and h: "handle_event P epfd (event_ptr (wmem w) (evt_at P) i) s w = Inr (s', w')"
  obtains pls' where "good P w' s' pls'" "events_known P (Suc i) n w' (clients pls')"
    "chat_step (Busy (map (event_of P) (events_left P i n w)) (clients pls))
       (Busy (map (event_of P) (events_left P (Suc i) n w')) (clients pls'))"
proof -
  have plat: "platform_ok P" and fresh: "kernel_fresh (kern P) (statics P)" using env by (simp_all add: env_ok_def)
  let ?e = "event_ptr (wmem w) (evt_at P) i"
  have left: "events_left P i n w = ?e # events_left P (Suc i) n w" using i by (simp add: events_left_def upt_conv_Cons)
  have n: "n \<le> max_events" and known: "set (events_left P i n w) \<subseteq> insert (serv_ptr P) (set (clients pls))"
    and dist: "distinct (filter (\<lambda>e. e \<noteq> serv_ptr P) (events_left P i n w))"
    using ev by (simp_all add: events_known_def)
  have e: "?e = serv_ptr P \<or> ?e \<in> set (clients pls)" using known by (simp add: left)
  show ?thesis
  proof (cases rule: handle_event_spec[OF plat fresh g e, of epfd])
    case (3 s1 w1 pls')
    then have r: "good P w' s' pls'" "set (clients pls) - ({?e} - {serv_ptr P}) \<subseteq> set (clients pls')"
      "agree (events_area P) (wmem w) (wmem w')"
      "?e \<noteq> serv_ptr P \<longrightarrow> clients pls' = clients pls \<or> clients pls' = filter (\<lambda>d. d \<noteq> ?e) (clients pls)"
      using h by simp_all
    have same: "events_left P (Suc i) n w' = events_left P (Suc i) n w"
      using event_ptr_agree[OF r(3)] n by (simp add: events_left_def)
    have "events_known P (Suc i) n w' (clients pls')"
      unfolding events_known_def same using i n known dist r(2) by (auto simp: left split: if_splits)
    moreover have "chat_step (Busy (map (event_of P) (events_left P i n w)) (clients pls))
        (Busy (map (event_of P) (events_left P (Suc i) n w')) (clients pls'))"
    proof (cases "?e = serv_ptr P")
      case True
      note ok = good_parts(1)[OF r(1)]
      from join[OF _ clients_distinct[OF ok] clients_count[OF ok]] r(2) True show ?thesis
        by (simp add: left same event_of_def)
    next
      case False
      with r(4) e show ?thesis by (auto simp: left same event_of_def intro: heard leave)
    qed
    ultimately show ?thesis using that r(1) by blast
  qed (use h in simp_all)
qed

text \<open>One wait.\<close>

lemma waited_ok:
  assumes env: "env_ok P" and g: "good P w s pls"
    and c: "sys_epoll_wait P w epfd (evt_at P) (of_nat max_events) (-1) = (v, err, w1)"
  shows "good P w1 s pls" and "err = None \<Longrightarrow> events_known P 0 (nat (sint v)) w1 (clients pls)"
proof -
  have plat: "platform_ok P" and ep: "epoll_ok (kern P)" using env by (simp_all add: env_ok_def)
  have kern: "kernel_ok (kern P)" using plat by (simp add: platform_ok_def)
  have "good P w1 s pls \<and> (err = None \<longrightarrow> events_known P 0 (nat (sint v)) w1 (clients pls))"
  proof (cases rule: wait_cases[OF kern ep, of w epfd])
    case (1 v' e w')
    then show ?thesis using c calm_good[OF 1(2) g] by simp
  next
    case (2 v' bs ws x)
    have w1: "w1 = w\<lparr>wmem := st_bytes (wmem w) (evt_at P) bs, trace := [x] @ trace w\<rparr>" using c 2(1) by simp
    have "span (evt_at P) (length bs) \<subseteq> events_area P"
      unfolding events_area_def using 2(4,5) by (intro span_mono) simp
    then have "only (events_area P) (wmem w) (st_bytes (wmem w) (evt_at P) bs)" by (rule only_mono[OF only_st_bytes])
    then have g1: "good P w1 s pls" unfolding w1 using 2(2) by (intro events_good[OF plat g]) simp_all
    have wt: "p = serv_ptr P \<or> p \<in> set (clients pls) \<and> cl_fd (wmem w) p = fd" if "(fd, p) \<in> set ws" for fd p
      using good_parts(5)[OF g] 2(7) that by (auto simp: watched_def serv_ptr_def)
    have v: "nat (sint v) = length ws" using c 2(1,3) by simp
    have "event_ptr (wmem w1) (evt_at P) j = map snd ws ! j" if "j < length ws" for j
      using stored_events[OF 2(5) that 2(4), of "wmem w" "evt_at P"] 2(8) by (simp add: w1)
    then have left: "events_left P 0 (nat (sint v)) w1 = map snd ws"
      unfolding events_left_def v by (intro nth_equalityI) simp_all
    have "inj_on snd (set (filter (\<lambda>x. snd x \<noteq> serv_ptr P) ws))" by (auto simp: inj_on_def dest: wt)
    then have "distinct (map snd (filter (\<lambda>x. snd x \<noteq> serv_ptr P) ws))" using 2(6) by (simp add: distinct_map)
    then have "distinct (filter (\<lambda>e. e \<noteq> serv_ptr P) (map snd ws))" by (simp add: filter_map o_def)
    moreover have "set (map snd ws) \<subseteq> insert (serv_ptr P) (set (clients pls))" by (auto dest: wt)
    ultimately show ?thesis using g1 v 2(4) by (simp add: events_known_def left[unfolded v])
  qed
  then show "good P w1 s pls" "err = None \<Longrightarrow> events_known P 0 (nat (sint v)) w1 (clients pls)" by blast+
qed

section \<open>The machine of the server\<close>

inductive_simps idle_step: "chat_step (Idle cs) x"
inductive_simps busy_step: "chat_step (Busy (e # es) cs) x"

text \<open>
  What the abstract step says of the program: who is connected after a step. Only the event of the
  listening socket adds clients, and only the event of a client removes one, namely this client.
\<close>

definition clients_after :: "platform \<Rightarrow> phase \<Rightarrow> phase \<Rightarrow> bool" where
  "clients_after P ph ph' \<longleftrightarrow>
    (let cs = phase_clients ph; cs' = phase_clients ph' in
     case ph of
       Waiting s w \<Rightarrow> cs' = cs
     | Handling i n s w \<Rightarrow>
         (if i = n then cs' = cs
          else let e = event_ptr (wmem w) (evt_at P) i
               in if e = serv_ptr P then set cs \<subseteq> set cs'
                  else e \<in> set cs \<and> (cs' = cs \<or> cs' = filter (\<lambda>d. d \<noteq> e) cs)))"

lemma clients_after_step:
  assumes "go_step P epfd ph ph'" and "chat_step (phase_chat P ph) (phase_chat P ph')"
  shows "clients_after P ph ph'"
  using assms(1)
proof cases
  case (interrupted w v e w1 s)
  then show ?thesis using assms(2) by (simp add: clients_after_def phase_clients_def phase_chat_def idle_step)
next
  case (failed w v e w1 j w2 s)
  then show ?thesis using assms(2) by (simp add: clients_after_def phase_clients_def phase_chat_def idle_step)
next
  case (woken w v w1 s)
  then show ?thesis using assms(2) by (simp add: clients_after_def phase_clients_def phase_chat_def idle_step)
next
  case (handled i n w s s' w')
  have "events_left P i n w = event_ptr (wmem w) (evt_at P) i # events_left P (Suc i) n w"
    using handled(3) by (simp add: events_left_def upt_conv_Cons)
  then show ?thesis
    using assms(2) handled(3) unfolding handled(1,2)
    by (auto simp: clients_after_def phase_clients_def phase_chat_def busy_step event_of_def Let_def
        split: if_splits)
next
  case (finished n s w)
  then show ?thesis by (simp add: clients_after_def phase_clients_def)
qed

lemma phase_inv_step:
  assumes env: "env_ok P" and inv: "phase_ok P ph" and st: "go_step P epfd ph ph'"
  shows "phase_ok P ph'" and "chat_step (phase_chat P ph) (phase_chat P ph')"
proof -
  have plat: "platform_ok P" using env by (simp add: env_ok_def)
  have "phase_ok P ph' \<and> chat_step (phase_chat P ph) (phase_chat P ph')"
    using st
  proof cases
    case (interrupted w v e w1 s)
    obtain pls where g: "good P w s pls" using inv interrupted(1) by (auto simp: phase_ok_def)
    have "good P w1 s pls" by (rule waited_ok(1)[OF env g interrupted(3)])
    with g interrupted(1,2) show ?thesis
      by (auto simp: phase_ok_def phase_chat_def good_connected stay)
  next
    case (failed w v e w1 j w2 s)
    obtain pls where g: "good P w s pls" using inv failed(1) by (auto simp: phase_ok_def)
    have g1: "good P w1 s pls" by (rule waited_ok(1)[OF env g failed(3)])
    obtain j' w2' where "fmt_fprintf P w1 stderr (lit P wait_error_format) [lit P (err_msg e)] = Inr (j', w2')"
      "good P w2' s pls"
      by (rule report_good[OF plat g1 literals_in(13) format_args(8), where args = "[lit P (err_msg e)]"]) auto
    then have "good P w2 s pls" using failed(5) by simp
    with g failed(1,2) show ?thesis by (auto simp: phase_ok_def phase_chat_def good_connected stay)
  next
    case (woken w v w1 s)
    obtain pls where g: "good P w s pls" using inv woken(1) by (auto simp: phase_ok_def)
    note wo = waited_ok[OF env g woken(3)]
    with g woken(1,2) known_wake show ?thesis by (auto simp: phase_ok_def phase_chat_def good_connected)
  next
    case (handled i n w s s' w')
    obtain pls where g: "good P w s pls" "events_known P i n w (clients pls)"
      using inv handled(1) by (auto simp: phase_ok_def)
    obtain pls' where r: "good P w' s' pls'" "events_known P (Suc i) n w' (clients pls')"
      "chat_step (Busy (map (event_of P) (events_left P i n w)) (clients pls))
         (Busy (map (event_of P) (events_left P (Suc i) n w')) (clients pls'))"
      by (rule handled_ok[OF env g handled(3,4)])
    with g handled(1,2) show ?thesis by (auto simp: phase_ok_def phase_chat_def good_connected)
  next
    case (finished n s w)
    with inv show ?thesis by (auto simp: phase_ok_def phase_chat_def events_left_def rest)
  qed
  then show "phase_ok P ph'" "chat_step (phase_chat P ph) (phase_chat P ph')" by blast+
qed

text \<open>The start of the loop: a pool has been made, and the listening socket is registered.\<close>

definition booted :: "platform \<Rightarrow> u32 \<Rightarrow> phase \<Rightarrow> bool" where
  "booted P epfd ph \<longleftrightarrow> (\<exists>ls0 p w0 s1 w1 s2 w2 w3 w4. literals_ok P (wmem w0) \<and> trace w0 = [] \<and> length p = max_pools \<and>
     session_new_clp P \<lparr>ls = ls0, n_pls = 0, first_clp = p\<rparr> w0 = Inr (s1, w1) \<and>
     server_init P 7070 s1 w1 = Inr (0, s2, w2) \<and> sys_epoll_create1 P w2 0 = (epfd, None, w3) \<and>
     sys_epoll_ctl P (on_mem (store_event (stk P ''server_go.ev'') EPOLLIN_EPOLLET (serv_ptr P)) w3)
       epfd epoll_ctl_add (ls s2) (stk P ''server_go.ev'') = (None, w4) \<and> ph = Waiting s2 w4)"

lemma bootedI:
  assumes "literals_ok P (wmem w0)" and "trace w0 = []" and "length p = max_pools"
    and "session_new_clp P \<lparr>ls = ls0, n_pls = 0, first_clp = p\<rparr> w0 = Inr (s1, w1)"
    and "server_init P 7070 s1 w1 = Inr (0, s2, w2)" and "sys_epoll_create1 P w2 0 = (epfd, None, w3)"
    and "sys_epoll_ctl P (on_mem (store_event (stk P ''server_go.ev'') EPOLLIN_EPOLLET (serv_ptr P)) w3)
       epfd epoll_ctl_add (ls s2) (stk P ''server_go.ev'') = (None, w4)"
  shows "booted P epfd (Waiting s2 w4)"
  unfolding booted_def using assms by blast

lemma booted_ok:
  assumes env: "env_ok P" and b: "booted P epfd ph"
  shows "phase_ok P ph" and "phase_chat P ph = Idle []"
proof -
  have plat: "platform_ok P" and fresh: "kernel_fresh (kern P) (statics P)" using env by (simp_all add: env_ok_def)
  have kern: "kernel_ok (kern P)" using plat by (simp add: platform_ok_def)
  obtain ls0 p w0 s1 w1 s2 w2 w3 w4 where b: "literals_ok P (wmem w0)" "trace w0 = []" "length p = max_pools"
    "session_new_clp P \<lparr>ls = ls0, n_pls = 0, first_clp = p\<rparr> w0 = Inr (s1, w1)"
    "server_init P 7070 s1 w1 = Inr (0, s2, w2)" "sys_epoll_create1 P w2 0 = (epfd, None, w3)"
    "sys_epoll_ctl P (on_mem (store_event (stk P ''server_go.ev'') EPOLLIN_EPOLLET (serv_ptr P)) w3)
       epfd epoll_ctl_add (ls s2) (stk P ''server_go.ev'') = (None, w4)" "ph = Waiting s2 w4"
    using b unfolding booted_def by blast
  obtain pls where g1: "good P w1 s1 pls" and none: "clients pls = []" by (rule first_pool_good[OF plat fresh b(1-4)])
  obtain code w2' s2' where "server_init P 7070 s1 w1 = Inr (code, s2', w2')" "good P w2' s2' pls"
    using server_init_spec[OF plat g1] by metis
  then have g2: "good P w2 s2 pls" using b(5) by simp
  have "calm w2 w3" using calm_calls(6)[OF kern, of w2 0] b(6) by (simp add: world_of_def)
  from listening_good(2)[OF plat calm_good[OF this g2] b(7)] have "good P w4 s2 pls" by (rule conjunct2)
  with none show "phase_ok P ph" "phase_chat P ph = Idle []"
    by (auto simp: phase_ok_def phase_chat_def b(8) good_connected)
qed

interpretation chat: refined_system
  "\<lambda>ph. env_ok P \<and> booted P epfd ph" "go_step P epfd" "\<lambda>ph. env_ok P \<and> phase_ok P ph" "phase_chat P" chat_step
  for P epfd
  by unfold_locales (auto intro: booted_ok phase_inv_step)

section \<open>The machine starts on the demonstration platform\<close>

lemma demo_quiet:
  assumes "sc_nr c \<notin> {s_read, s_mmap, s_clock_gettime, s_epoll_wait, s_accept4}"
  shows "syscall_raw (demo rs) w c = (\<lparr>r1 = 0, errno = 0\<rparr>, w\<lparr>trace := c # trace w\<rparr>)"
  using assms by (simp add: syscall_raw_def demo_kernel_reply demo_reply_def decode_rax_def Let_def)

lemma demo_results:
  "fst (snd (sys_socket (demo rs) w f t p)) = None" "fst (sys_setsockopt (demo rs) w fd l n v k) = None"
  "fst (sys_bind (demo rs) w fd a k) = None" "fst (sys_listen (demo rs) w fd q) = None"
  "sys_epoll_create1 (demo rs) w fl = (0, None, snd (snd (sys_epoll_create1 (demo rs) w fl)))"
  "sys_epoll_ctl (demo rs) w epfd opr fd ev = (None, snd (sys_epoll_ctl (demo rs) w epfd opr fd ev))"
  by (simp_all add: sys_socket_def sys_setsockopt_def sys_bind_def sys_listen_def sys_epoll_create1_def
      sys_epoll_ctl_def syscall3_def syscall6_def demo_quiet syscall_numbers)

lemma demo_env: "env_ok (demo rs)"
  using demo_fresh demo_epoll by (simp add: env_ok_def demo_platform)

lemma demo_init: "\<exists>s' w'. server_init (demo rs) port s w = Inr (0, s', w')"
  by (simp add: server_init_def Let_def split_def demo_results)

lemma demo_booted:
  obtains s w where "booted (demo rs) 0 (Waiting s w)" "\<exists>s' w'. go_step (demo rs) 0 (Waiting s w) (Handling 0 1 s' w')"
proof -
  obtain s1 w1 where clp: "session_new_clp (demo rs) \<lparr>ls = 3, n_pls = 0, first_clp = replicate 16 0\<rparr> demo_world = Inr (s1, w1)"
    using demo_pool_made unfolding demo_server_def by metis
  obtain s2 w2 where init: "server_init (demo rs) 7070 s1 w1 = Inr (0, s2, w2)" using demo_init by blast
  let ?w3 = "snd (snd (sys_epoll_create1 (demo rs) w2 0))" and ?ev = "stk (demo rs) ''server_go.ev''"
  let ?w = "on_mem (store_event ?ev EPOLLIN_EPOLLET (serv_ptr (demo rs))) ?w3"
  let ?w4 = "snd (sys_epoll_ctl (demo rs) ?w 0 epoll_ctl_add (ls s2) ?ev)"
  have "booted (demo rs) 0 (Waiting s2 ?w4)"
    by (rule bootedI[OF _ _ _ clp init demo_results(5) demo_results(6)])
      (simp_all add: demo_world_def max_pools_def demo_literals)
  moreover have "go_step (demo rs) 0 (Waiting s2 ?w4) (Handling 0 1 s2 (snd (snd
      (sys_epoll_wait (demo rs) ?w4 0 (evt_at (demo rs)) (of_nat max_events) (-1)))))"
  proof -
    have t: "trace ?w4 = ctl_call (demo rs) (wmem ?w) 0 (ls s2) ?ev # trace ?w"
      by (simp add: sys_epoll_ctl_def syscall6_def demo_quiet syscall_numbers ctl_call_def)
    have d: "length (ctl_data (trace ?w4)) = 12"
      unfolding t by (simp add: ctl_data_def ctl_call_def)
    let ?c = "epoll_wait_call 0 (evt_at (demo rs)) (of_nat max_events) (-1)"
    have "demo_reply rs ?c (trace ?w4) = (1, sc_args ?c ! 1, ctl_data (trace ?w4))"
      using d by (auto simp: demo_reply_def Let_def epoll_wait_call_def syscall_numbers int_arg_def max_events_def)
    then have "fst (syscall_raw (demo rs) ?w4 ?c) = \<lparr>r1 = 1, errno = 0\<rparr>"
      by (simp add: syscall_raw_def demo_kernel_reply Let_def decode_rax_def word_le_nat_alt)
    then have "sys_epoll_wait (demo rs) ?w4 0 (evt_at (demo rs)) (of_nat max_events) (-1) = (1, None, snd (snd
        (sys_epoll_wait (demo rs) ?w4 0 (evt_at (demo rs)) (of_nat max_events) (-1))))"
      by (simp add: sys_epoll_wait_def syscall6_def epoll_wait_call_def split_def Let_def)
    from woken[OF this] show ?thesis by simp
  qed
  ultimately show ?thesis using that by blast
qed

end
