(* ===== verification/Chat.thy ===== *)
theory Chat
  imports Machine
begin

text \<open>
  The chat server as a whole, on states of the whole program, each property with an instance on the
  demonstration platform: the program from its start, and the loop as a state machine.
\<close>

section \<open>The whole program\<close>

text \<open>
  C1: From a loaded image (the literals in memory, no system call made yet) the program never gets
  stuck: whatever the kernel answers, no failed assertion, panic, store through a null client, index
  outside the array of pools or other step that the model marks as undefined ends it. It exits with
  status 1 (memory for a pool refused, the listening socket not set up, or no epoll instance) or
  with status 2 (the listening socket could not be registered), or it is still serving when the
  fuel is used up.
\<close>

theorem start_never_stuck:
  assumes "platform_ok P" and "kernel_fresh (kern P) (statics P)" and "epoll_ok (kern P)"
    and "literals_ok P (wmem w)" and "trace w = []" and "length p = max_pools"
  shows "start P ls0 p w \<in> {Out_of_fuel, Exited 1, Exited 2}"
  by (rule start_spec[OF assms])

theorem start_never_stuck_witness:
  "start (demo []) 3 (replicate 16 0) demo_world \<in> {Out_of_fuel, Exited 1, Exited 2}"
  by (rule start_never_stuck)
    (use demo_platform demo_fresh[of "[]"] demo_epoll[of "[]"] demo_literals[of "[]"] in
      \<open>simp_all add: demo_world_def max_pools_def\<close>)

section \<open>The loop as a state machine\<close>

definition phase_state :: "phase \<Rightarrow> server \<times> world" where
  "phase_state ph = (case ph of Waiting s w \<Rightarrow> (s, w) | Handling i n s w \<Rightarrow> (s, w))"

text \<open>
  What holds of one client: its record is mapped memory, its counters are within its buffers, and
  its name is terminated once it has one.
\<close>

definition client_bounds :: "platform \<Rightarrow> world \<Rightarrow> u64 \<Rightarrow> bool" where
  "client_bounds P w c \<longleftrightarrow> c \<noteq> 0 \<and> client_span c \<subseteq> mapped (kern P) (trace w) \<and>
     0 \<le> sint (cl_buf_used (wmem w) c) \<and> sint (cl_buf_used (wmem w) c) \<le> int max_line_len \<and>
     0 \<le> sint (cl_name_used (wmem w) c) \<and> sint (cl_name_used (wmem w) c) \<le> int max_name_len \<and>
     (cl_name_ok (wmem w) c = 0 \<or> cl_name_ok (wmem w) c = 1 \<and>
       sint (cl_name_used (wmem w) c) < int max_name_len \<and>
       wmem w (cl_name c + scast (cl_name_used (wmem w) c)) = 0)"

text \<open>What the kernel watches: the listening socket, and descriptors of connected clients.\<close>

definition watched_clients :: "platform \<Rightarrow> world \<Rightarrow> u64 list \<Rightarrow> bool" where
  "watched_clients P w cs \<longleftrightarrow> (\<forall>(fd, p) \<in> registered (kern P) (trace w).
     p = serv_ptr P \<or> p \<in> set cs \<and> cl_fd (wmem w) p = fd)"

lemma small_count: "n \<le> 512 \<Longrightarrow> sint (of_nat n :: u32) = int n"
  using counter_add(2)[of 0 n] by simp

lemma good_client_bounds:
  assumes g: "good P w s pls" and c: "c \<in> set (clients pls)"
  shows "client_bounds P w c"
proof -
  note ok = good_parts(1)[OF g]
  obtain b n where n: "cl_buf_used (wmem w) c = of_nat b" "b \<le> 512" "cl_name_used (wmem w) c = of_nat n" "n \<le> 32"
    using counter_bounds[OF g c] .
  have "c \<noteq> 0" using client_pool[OF ok c] slot_nonnull by metis
  moreover have "client_span c \<subseteq> mapped (kern P) (trace w)"
    using client_area[OF ok c] good_parts(2)[OF g] by (auto simp: blocks_mapped_def)
  moreover have "cl_name_ok (wmem w) c = 0 \<or> cl_name_ok (wmem w) c = 1 \<and>
      sint (cl_name_used (wmem w) c) < int max_name_len \<and>
      wmem w (cl_name c + scast (cl_name_used (wmem w) c)) = 0"
    using good_stale[OF g c] by (auto simp: stale_ok_def max_name_len_def small_count count_scast)
  moreover have "sint (cl_buf_used (wmem w) c) = int b" "sint (cl_name_used (wmem w) c) = int n"
    using n by (simp_all add: small_count)
  ultimately show ?thesis using n(2,4) by (simp add: client_bounds_def max_line_len_def max_name_len_def)
qed

lemma good_watched: "good P w s pls \<Longrightarrow> watched_clients P w (clients pls)"
  using good_parts(5) unfolding watched_def watched_clients_def serv_ptr_def by blast

lemma reachable_good:
  assumes "env_ok P" and "booted P epfd ph0" and "(go_step P epfd)\<^sup>*\<^sup>* ph0 ph"
  obtains s w pls where "phase_state ph = (s, w)" "good P w s pls" "phase_clients ph = clients pls"
proof -
  have "env_ok P \<and> phase_ok P ph" using chat.inv_reachable[OF _ assms(3)] assms(1,2) by simp
  then obtain s w pls where "phase_state ph = (s, w)" "good P w s pls" "phase_clients ph = connected s (wmem w)"
    by (cases ph) (auto simp: phase_ok_def phase_state_def phase_clients_def)
  then show ?thesis using that good_connected by metis
qed

text \<open>
  C2: In every state the event loop can reach, in the middle of a batch of events too, the lists of
  the pools hold each client once and at most 16 * 1023 of them, the record of every client is
  mapped memory with its counters within its buffers and its name terminated, and the kernel
  watches only the listening socket and the descriptors of these clients.
\<close>

theorem reachable_invariant:
  assumes "env_ok P" and "booted P epfd ph0" and "(go_step P epfd)\<^sup>*\<^sup>* ph0 ph"
  shows "(case phase_state ph of (s, w) \<Rightarrow>
      distinct (phase_clients ph) \<and> length (phase_clients ph) \<le> max_pools * max_clients_in_pool \<and>
      (\<forall>c \<in> set (phase_clients ph). client_bounds P w c) \<and> watched_clients P w (phase_clients ph))"
proof -
  obtain s w pls where r: "phase_state ph = (s, w)" "good P w s pls" "phase_clients ph = clients pls"
    by (rule reachable_good[OF assms])
  note ok = good_parts(1)[OF r(2)]
  show ?thesis
    using clients_distinct[OF ok] clients_count[OF ok] good_client_bounds[OF r(2)] good_watched[OF r(2)]
    by (simp add: r(1,3))
qed

theorem reachable_invariant_witness:
  "\<exists>ph0 ph. booted (demo []) 0 ph0 \<and> go_step (demo []) 0 ph0 ph \<and>
     (case phase_state ph of (s, w) \<Rightarrow>
        distinct (phase_clients ph) \<and> length (phase_clients ph) \<le> max_pools * max_clients_in_pool \<and>
        (\<forall>c \<in> set (phase_clients ph). client_bounds (demo []) w c) \<and>
        watched_clients (demo []) w (phase_clients ph))"
proof -
  obtain s w s' w' where b: "booted (demo []) 0 (Waiting s w)" "go_step (demo []) 0 (Waiting s w) (Handling 0 1 s' w')"
    by (rule demo_booted[of "[]"]) (elim exE, rule that)
  have "(go_step (demo []) 0)\<^sup>*\<^sup>* (Waiting s w) (Handling 0 1 s' w')" by (rule r_into_rtranclp) (rule b(2))
  from b(1) b(2) reachable_invariant[OF demo_env b(1) this] show ?thesis by (intro exI conjI)
qed

text \<open>
  C3: Every single step of the event loop, from every state that it can reach from its start without
  clients, is a step of an abstract machine that knows only the connected clients and the events
  still to be handled. Spelled out for the program: a wait changes nobody; the end of a batch
  changes nobody; an event that is handled is one of the listening socket, which may add clients and
  keeps all others, or one of a client that is still connected, after which the clients are the same
  in the same order, but for at most this client. In particular nobody is lost or added by the event
  of another, however the memory and the kernel's state change.
\<close>

theorem loop_refines_chat:
  assumes "env_ok P" and "booted P epfd ph0" and "(go_step P epfd)\<^sup>*\<^sup>* ph0 ph" and "go_step P epfd ph ph'"
  shows "phase_chat P ph0 = Idle [] \<and> chat_step (phase_chat P ph) (phase_chat P ph') \<and> clients_after P ph ph'"
proof -
  have "env_ok P \<and> phase_ok P ph" using chat.inv_reachable[OF _ assms(3)] assms(1,2) by simp
  then have "chat_step (phase_chat P ph) (phase_chat P ph')" using phase_inv_step(2) assms(4) by blast
  then show ?thesis using booted_ok(2)[OF assms(1,2)] clients_after_step[OF assms(4)] by simp
qed

theorem loop_refines_chat_witness:
  "\<exists>ph0 ph. booted (demo []) 0 ph0 \<and> go_step (demo []) 0 ph0 ph \<and> phase_chat (demo []) ph0 = Idle [] \<and>
     chat_step (phase_chat (demo []) ph0) (phase_chat (demo []) ph) \<and> clients_after (demo []) ph0 ph"
proof -
  obtain s w s' w' where b: "booted (demo []) 0 (Waiting s w)" "go_step (demo []) 0 (Waiting s w) (Handling 0 1 s' w')"
    by (rule demo_booted[of "[]"]) (elim exE, rule that)
  from b loop_refines_chat[OF demo_env b(1) rtranclp.rtrancl_refl b(2)] show ?thesis by (intro exI conjI) auto
qed

end
