(* ===== verification/Talk.thy ===== *)
theory Talk
  imports Chat
begin

text \<open>
  What the functions of a session do, each with an instance on the demonstration platform: names and
  lines that are read, the line that is sent on, sessions that open and close.
\<close>

section \<open>Reading\<close>

lemma demo_delivers:
  assumes "calls_before (read_call fd a n) h = 0" and "length bs \<le> unat n" and "length bs \<le> 512"
  shows "delivers (demo [bs]) h (read_call fd a n) bs"
proof -
  have nr: "sc_nr (read_call fd a n) = s_read" "sc_args (read_call fd a n) ! 2 = n"
    by (simp_all add: read_call_def)
  have later: "calls_before (read_call fd a n) (read_call fd a n # h) = 1"
    using assms(1) by (simp add: calls_before_def)
  show ?thesis
    using assms nr later small_result[of "length bs"]
    by (simp add: delivers_def arrives_def drained_def succeeded_def demo_kernel_reply demo_reply_def)
qed

lemma demo_first_read: "calls_before (read_call fd a n) [pool_map_call] = 0"
  by (simp add: calls_before_def read_call_def pool_map_call_def mmap_call_def syscall_numbers)

text \<open>
  C11: A client that gives its name. The bytes one read delivers are appended to those received so
  far; while there is no line feed and no carriage return among them the name is not complete and
  nobody is told. Otherwise the bytes before the first of these become the client's name, which is
  terminated, the client is welcomed by it, and every other client, and no one else, is sent the
  news that this name has entered, newest call first in the trace; what follows the name is dropped.
\<close>

theorem name_read_delivered:
  assumes "platform_ok P" and "good P w s pls" and "c \<in> set (clients pls)" and "cl_name_ok (wmem w) c = 0"
    and "bs \<noteq> []" and "delivers P (trace w) (name_reading P (wmem w) c) bs"
  shows "let total = received (wmem w) c @ bs; nm = takeWhile (\<lambda>x. x \<noteq> 10 \<and> x \<noteq> 13) total;
      cl = name_reading P (wmem w) c; buf = stk P ''session_name_read.msg''
    in \<exists>w'. session_name_read P c s w = Inr (s, w') \<and> good P w' s pls \<and> length total \<le> max_name_len \<and>
      (if 10 \<notin> set total \<and> 13 \<notin> set total then
         cl_name_ok (wmem w') c = 0 \<and> received (wmem w') c = total \<and> trace w' = cl # cl # trace w
       else cl_name_ok (wmem w') c = 1 \<and> used_name (wmem w') c = nm \<and>
         trace w' = to_others P (wmem w) buf (nm @ bytes_of entered_msg) c pls @
           write_call (cl_fd (wmem w) c) buf (bytes_of welcome_msg @ nm @ [10]) # cl # cl # trace w)"
proof -
  have "in_name = (\<lambda>x. x \<noteq> 10 \<and> x \<noteq> 13)" by (simp add: in_name_def fun_eq_iff)
  moreover have "(\<forall>x \<in> set (received (wmem w) c @ bs). in_name x) \<longleftrightarrow>
      10 \<notin> set (received (wmem w) c @ bs) \<and> 13 \<notin> set (received (wmem w) c @ bs)"
    by (auto simp: in_name_def)
  ultimately show ?thesis using name_delivered[OF assms] unfolding Let_def by presburger
qed

theorem name_read_delivered_witness:
  "\<exists>s w w' c d. session_name_read (demo [[66, 111, 98, 10]]) c s w = Inr (s, w') \<and>
    cl_name_ok (wmem w) c = 0 \<and> cl_name_ok (wmem w') c = 1 \<and> used_name (wmem w') c = [66, 111, 98] \<and>
    (\<exists>h. trace w' = write_call (cl_fd (wmem w) d) (demo_stk ''session_name_read.msg'')
       ([66, 111, 98] @ bytes_of entered_msg) # h)"
proof -
  let ?P = "demo [[66, 111, 98, 10]]"
  obtain s w pls c d where g: "good ?P w s pls" "clients pls = [c, d]" "c \<noteq> d" "trace w = [pool_map_call]"
    "cl_name_ok (wmem w) c = 0" "cl_name_used (wmem w) c = 0" by (rule demo_guests)
  have c: "c \<in> set (clients pls)" using g(2) by simp
  have r: "received (wmem w) c = []" using g(6) by (simp add: received_def)
  have "delivers ?P (trace w) (name_reading ?P (wmem w) c) [66, 111, 98, 10]"
    unfolding g(4) name_reading_def r Let_def
    by (rule demo_delivers[OF demo_first_read]) (simp_all add: max_name_len_def)
  from name_read_delivered[OF demo_platform g(1) c g(5) _ this]
  obtain w' where "session_name_read ?P c s w = Inr (s, w')" "cl_name_ok (wmem w') c = 1"
    "used_name (wmem w') c = [66, 111, 98]"
    "trace w' = to_others ?P (wmem w) (demo_stk ''session_name_read.msg'') ([66, 111, 98] @ bytes_of entered_msg) c pls @
       write_call (cl_fd (wmem w) c) (demo_stk ''session_name_read.msg'') (bytes_of welcome_msg @ [66, 111, 98] @ [10]) #
       name_reading ?P (wmem w) c # name_reading ?P (wmem w) c # trace w"
    by (auto simp: Let_def r)
  then show ?thesis using g(2,3,5)
    by (intro exI[of _ s] exI[of _ w] exI[of _ w'] exI[of _ c] exI[of _ d]) (simp add: to_others_def)
qed

text \<open>
  C10: A named client that sends. The bytes one read delivers are appended to those pending; while
  there is no line feed among them they stay pending and nothing is sent. Otherwise the first line
  goes to every other client, once each, after the sender's name and the time of day (left out when
  the clock fails), and exactly what follows that line stays pending.
\<close>

theorem line_read_delivered:
  assumes "platform_ok P" and "good P w s pls" and "c \<in> set (clients pls)" and "cl_name_ok (wmem w) c = 1"
    and "bs \<noteq> []" and "delivers P (trace w) (line_reading P (wmem w) c) bs"
  shows "let total = pending (wmem w) c @ bs; cl = line_reading P (wmem w) c
    in \<exists>w' cs. session_line_read P c s w = Inr (s, w') \<and> good P w' s pls \<and> length total \<le> max_line_len \<and>
      (if 10 \<in> set total then
         (let stamp = clock_stamp P (cl # cl # trace w);
              tx = name_of (wmem w) c @ stamp_text stamp @ first_line total
          in pending (wmem w') c = drop (length (first_line total)) total \<and> stamp_calls P stamp cs \<and>
             trace w' = to_others P (wmem w) (stk P ''check_line_and_send.msg'') tx c pls @ cs @ cl # cl # trace w)
       else pending (wmem w') c = total \<and> trace w' = cl # cl # trace w)"
  unfolding Let_def by (rule line_delivered[OF assms, unfolded Let_def])

theorem line_read_delivered_witness:
  "\<exists>s w w' c d. session_line_read (demo [[104, 105, 10, 120]]) c s w = Inr (s, w') \<and> pending (wmem w) c = [] \<and>
    pending (wmem w') c = [120] \<and> (\<exists>tx h. trace w' =
      write_call (cl_fd (wmem w) d) (demo_stk ''check_line_and_send.msg'') (tx @ [104, 105, 10]) # h)"
proof -
  let ?P = "demo [[104, 105, 10, 120]]" and ?bs = "[104, 105, 10, 120] :: u8 list"
  obtain s w pls c d where g: "good ?P w s pls" "clients pls = [c, d]" "c \<noteq> d" "trace w = [pool_map_call]"
    "cl_name_ok (wmem w) c = 1" "pending (wmem w) c = []" by (rule demo_members)
  have c: "c \<in> set (clients pls)" using g(2) by simp
  have "delivers ?P (trace w) (line_reading ?P (wmem w) c) ?bs"
    unfolding g(4) line_reading_def g(6) Let_def
    by (rule demo_delivers[OF demo_first_read]) (simp_all add: max_line_len_def)
  note d = line_read_delivered[OF demo_platform g(1) c g(5) _ this, simplified]
  let ?cl = "line_reading ?P (wmem w) c"
  let ?tx = "name_of (wmem w) c @ stamp_text (clock_stamp ?P (?cl # ?cl # trace w))"
  obtain w' cs where "session_line_read ?P c s w = Inr (s, w')" "pending (wmem w') c = [120]"
    "trace w' = to_others ?P (wmem w) (demo_stk ''check_line_and_send.msg'') (?tx @ [104, 105, 10]) c pls @
      cs @ ?cl # ?cl # trace w"
    using d by (simp add: Let_def g(6) first_line_def) blast
  then show ?thesis using g(2,3,6)
    by (intro exI[of _ s] exI[of _ w] exI[of _ w'] exI[of _ c] exI[of _ d]) 
      (auto simp: to_others_def intro!: exI[of _ ?tx])
qed

section \<open>Sending\<close>

text \<open>
  C5: A line of a named client is passed on whole: with no line feed among the pending bytes nothing
  happens. Otherwise the message is the sender's name, the time of day in brackets if the clock can
  be read, and the bytes up to and including the first line feed; one write of exactly this message
  is made for every client but the sender, it never exceeds the 561 bytes of its buffer, the line
  leaves the sender's buffer and the rest moves to its start, and the other clients' records keep
  every byte.
\<close>

theorem line_broadcast:
  assumes "platform_ok P" and "good P w s pls" and "c \<in> set (clients pls)" and "cl_name_ok (wmem w) c = 1"
  shows "let bs = pending (wmem w) c; stamp = clock_stamp P (trace w);
      tx = name_of (wmem w) c @ stamp_text stamp @ first_line bs; buf = stk P ''check_line_and_send.msg''
    in if 10 \<in> set bs then
        \<exists>w' cs. check_line_and_send P c s w = Inr w' \<and> stamp_calls P stamp cs \<and> length tx \<le> 561 \<and>
          trace w' = rev (map (\<lambda>d. write_call (cl_fd (wmem w) d) buf tx) (filter (\<lambda>d. d \<noteq> c) (clients pls))) @ cs @ trace w \<and>
          pending (wmem w') c = drop (length (first_line bs)) bs \<and>
          (\<forall>d \<in> set (clients pls). d \<noteq> c \<longrightarrow> agree (client_span d) (wmem w) (wmem w'))
      else check_line_and_send P c s w = Inr w"
proof (cases "10 \<in> set (pending (wmem w) c)")
  case True
  note ok = good_parts(1)[OF assms(2)] and live = good_parts(3)[OF assms(2)]
  have lay: "layout_ok P" using assms(1) by (simp add: platform_ok_def)
  note sp = check_line_Some[OF assms(1) ok live assms(3,4) True]
  obtain w' cs where r: "check_line_and_send P c s w = Inr w'" "stamp_calls P (clock_stamp P (trace w)) cs"
    "trace w' = to_others P (wmem w) (stk P ''check_line_and_send.msg'') (name_of (wmem w) c @
       stamp_text (clock_stamp P (trace w)) @ first_line (pending (wmem w) c)) c pls @ cs @ trace w"
    "pending (wmem w') c = drop (length (first_line (pending (wmem w) c))) (pending (wmem w) c)"
    "length (name_of (wmem w) c @ stamp_text (clock_stamp P (trace w)) @ first_line (pending (wmem w) c)) \<le> 561"
    "only (span (c + 4) 556 \<union> scratch P) (wmem w) (wmem w')"
    using sp by blast
  have "agree (client_span d) (wmem w) (wmem w')" if d: "d \<in> set (clients pls)" "d \<noteq> c" for d
  proof (rule only_agree[OF r(6)])
    have s: "is_slot pls c" "is_slot pls d" using clients_slots[OF ok] assms(3) d(1) by blast+
    show "client_span d \<inter> (span (c + 4) 556 \<union> scratch P) = {}"
      using slots_disjoint[OF ok s(2,1) d(2)] scratch_outside(1)[OF ok s(2)] client_part[of 4 556 c]
      by (auto simp: statics_def)
  qed
  then show ?thesis using True r(1-5) unfolding Let_def to_others_def by auto
qed (simp add: check_line_None Let_def)

theorem line_broadcast_witness:
  "\<exists>s w w' c d. pending (wmem w) c = [104, 105, 10] \<and> check_line_and_send (demo []) c s w = Inr w' \<and>
    pending (wmem w') c = [] \<and> (\<exists>tx h. trace w' =
      write_call (cl_fd (wmem w) d) (demo_stk ''check_line_and_send.msg'') (tx @ [104, 105, 10]) # h)"
proof -
  obtain s w pls c d where g: "good (demo []) w s pls" "clients pls = [c, d]" "c \<noteq> d" "trace w = [pool_map_call]"
    "cl_name_ok (wmem w) c = 1" "pending (wmem w) c = [104, 105, 10]" by (rule demo_line)
  have c: "c \<in> set (clients pls)" using g(2) by simp
  let ?tx = "name_of (wmem w) c @ stamp_text (clock_stamp (demo []) (trace w))"
  obtain w' cs where "check_line_and_send (demo []) c s w = Inr w'" "pending (wmem w') c = []"
    "trace w' = write_call (cl_fd (wmem w) d) (demo_stk ''check_line_and_send.msg'') (?tx @ [104, 105, 10]) # cs @ trace w"
    using line_broadcast[OF demo_platform g(1) c g(5)] g(2,3) by (auto simp: Let_def g(6) first_line_def)
  then show ?thesis using g(6)
    by (intro exI[of _ s] exI[of _ w] exI[of _ w'] exI[of _ c] exI[of _ d]) (auto intro!: exI[of _ ?tx])
qed

text \<open>
  C15: A message goes to every connected client except one, once each and in the order of the lists,
  with exactly its bytes; nothing else is called and no byte of memory changes.
\<close>

theorem send_all_once:
  assumes "platform_ok P" and "good P w s pls"
  shows "\<exists>w'. session_send_all P msg exc s w = Inr w' \<and> wmem w' = wmem w \<and>
    trace w' = rev (map (\<lambda>d. write_call (cl_fd (wmem w) d) (str_base msg)
        (ld_bytes (wmem w) (str_base msg) (unat (str_len msg))))
      (filter (\<lambda>d. d \<noteq> exc) (connected s (wmem w)))) @ trace w \<and> distinct (connected s (wmem w))"
  using send_all_spec[OF assms(1) good_parts(1)[OF assms(2)], of msg exc]
    good_connected[OF assms(2)] clients_distinct[OF good_parts(1)[OF assms(2)]]
  by (simp add: broadcast_def sent_bytes_def)

theorem send_all_once_witness:
  "\<exists>s w w' c d. session_send_all (demo []) \<lparr>str_base = demo_lit left_msg, str_len = 19\<rparr> c s w = Inr w' \<and>
    trace w' = write_call (cl_fd (wmem w) d) (demo_lit left_msg) (bytes_of left_msg) # trace w"
proof -
  obtain s w pls c d where g: "good (demo []) w s pls" "clients pls = [c, d]" "c \<noteq> d" "trace w = [pool_map_call]"
    by (rule demo_members)
  have lay: "layout_ok (demo [])" using demo_platform by (simp add: platform_ok_def)
  have "literals_ok (demo []) (wmem w)" using good_parts(1)[OF g(1)] by (simp add: server_ok_def)
  from literal_bytes(1)[OF this lay literals_in(7)]
  have "ld_bytes (wmem w) (demo_lit left_msg) 19 = bytes_of left_msg" by (simp add: length_left_msg)
  then obtain w' where "session_send_all (demo []) \<lparr>str_base = demo_lit left_msg, str_len = 19\<rparr> c s w = Inr w'"
    "trace w' = write_call (cl_fd (wmem w) d) (demo_lit left_msg) (bytes_of left_msg) # trace w"
    using send_all_once[OF demo_platform g(1), of "\<lparr>str_base = demo_lit left_msg, str_len = 19\<rparr>" c] g(2,3)
      good_connected[OF g(1)] by auto
  then show ?thesis by blast
qed

section \<open>Closing a session\<close>

text \<open>
  C6: Closing a connected client's session never fails and removes exactly this client: afterwards
  the lists hold the other clients in their old order and their records keep their bytes, the
  invariant of the server holds again, and the calls made are, in this order, the farewell to every
  other client (if this one had a name), the close of its own descriptor, and, only if its pool is
  given up, one unmap call with a report if the kernel refuses it.
\<close>

theorem session_close_removes:
  assumes "platform_ok P" and "good P w s pls" and "c \<in> set (clients pls)"
  shows "\<exists>s' w' pls' cs. session_close P c s w = Inr (s', w') \<and> good P w' s' pls' \<and>
    connected s' (wmem w') = filter (\<lambda>d. d \<noteq> c) (connected s (wmem w)) \<and>
    (\<forall>d \<in> set (connected s' (wmem w')). agree (span d 560) (wmem w) (wmem w')) \<and>
    trace w' = cs @ close_call (cl_fd (wmem w) c) #
      (if cl_name_ok (wmem w) c = 1
       then to_others P (wmem w) (stk P ''session_close.msg'') (used_name (wmem w) c @ bytes_of left_msg) c pls
       else []) @ trace w \<and>
    gave_up P c pls pls' cs"
proof -
  note ok = good_parts(1)[OF assms(2)]
  have live: "live_ok (wmem w) d" if "d \<in> set (clients pls)" "d \<noteq> c" for d
    using good_live[OF assms(2) that(1)] .
  obtain s' w' pls' cs where r: "session_close P c s w = Inr (s', w')" "settled P c pls w s' w' pls'"
    "clients pls' = filter (\<lambda>d. d \<noteq> c) (clients pls)" "gave_up P c pls pls' cs"
    "trace w' = cs @ close_call (cl_fd (wmem w) c) # left_calls P (wmem w) c pls @ trace w"
    by (rule close_settles[OF assms(1) good_parts(4,5)[OF assms(2)] assms(3) live])
  have g: "good P w' s' pls'" using r(2) by (simp add: settled_def)
  obtain pls2 where "clients pls2 = clients pls'" "server_ok P (wmem w') s' pls2"
    "\<forall>d. is_slot pls2 d \<longrightarrow> d \<noteq> c \<longrightarrow> agree (span d 560) (wmem w) (wmem w')"
    using session_close_spec[OF assms(1) ok assms(3)] r(1,3) by auto
  then have "agree (span d 560) (wmem w) (wmem w')" if "d \<in> set (clients pls')" for d
    using that clients_slots[of P "wmem w'" s' pls2 d] r(3) by auto
  then show ?thesis
    using r(1,3-5) g good_connected[OF g] good_connected[OF assms(2)]
    by (intro exI[of _ s'] exI[of _ w'] exI[of _ pls'] exI[of _ cs]) (simp add: left_calls_def)
qed

theorem session_close_removes_witness:
  "\<exists>s w s' w' c d. session_close (demo []) c s w = Inr (s', w') \<and>
    connected s (wmem w) = [c, d] \<and> connected s' (wmem w') = [d]"
proof -
  obtain s w pls c d where g: "good (demo []) w s pls" "clients pls = [c, d]" "c \<noteq> d" "trace w = [pool_map_call]"
    by (rule demo_members)
  have c: "c \<in> set (clients pls)" using g(2) by simp
  have n: "connected s (wmem w) = [c, d]" using good_connected[OF g(1)] g(2) by simp
  obtain s' w' where "session_close (demo []) c s w = Inr (s', w')" "connected s' (wmem w') = [d]"
    using session_close_removes[OF demo_platform g(1) c] g(3) unfolding n by auto
  then show ?thesis using n by blast
qed

text \<open>
  C17: A pool whose last client leaves, while others exist, is taken out of the server's table, but
  only its first page is unmapped: the other 141 of its 142 pages stay mapped, and no pool of the
  server contains them any more.
\<close>

theorem session_close_leaks:
  assumes "platform_ok P" and "good P w s (A @ (q, fs, [c]) # B)" and "A @ B \<noteq> []"
  shows "\<exists>s' w'. session_close P c s w = Inr (s', w') \<and> n_pls s' = n_pls s - 1 \<and>
    take (n_pls s') (first_clp s') = blocks (A @ B) \<and>
    pool_block q - span q (unat page_size) \<subseteq> mapped (kern P) (trace w') \<and>
    (\<forall>r \<in> set (take (n_pls s') (first_clp s')). pool_block r \<inter> pool_block q = {})"
proof -
  let ?pls = "A @ (q, fs, [c]) # B"
  note ok = good_parts(1)[OF assms(2)]
  have e: "(q, fs, [c]) \<in> set ?pls" by simp
  note D = server_okD[OF ok e]
  have c: "c \<in> set (clients ?pls)" by (simp add: clients_def)
  have slot: "c \<in> set (slots q)" using D(5) by simp
  have out: "c \<notin> set (clients A)" "c \<notin> set (clients B)" using client_elsewhere[OF ok slot] by simp_all
  obtain s' w' pls' cs where r: "session_close P c s w = Inr (s', w')" "good P w' s' pls'"
    "trace w' = cs @ close_call (cl_fd (wmem w) c) #
      (if cl_name_ok (wmem w) c = 1
       then to_others P (wmem w) (stk P ''session_close.msg'') (used_name (wmem w) c @ bytes_of left_msg) c ?pls
       else []) @ trace w" "gave_up P c ?pls pls' cs"
    using session_close_removes[OF assms(1,2) c] by blast
  have "length ?pls \<noteq> 1" using assms(3) by (cases A) auto
  with r(4) e obtain A' q' fs' B' x where s: "?pls = A' @ (q', fs', [c]) # B'" "blocks pls' = blocks (A' @ B')"
    "cs = x @ [unmap_call q' page_size]" "x = [] \<or> (\<exists>bs. x = [write_call stderr (stk P ''fmt_fprintf.buf'') bs])"
    unfolding gave_up_def by blast
  have "(q', fs', [c]) \<notin> set A \<union> set B" using out by (force simp: clients_def)
  moreover have "(q', fs', [c]) \<in> set ?pls" unfolding s(1) by simp
  ultimately have q: "q' = q" by auto
  have dist: "blocks_apart (blocks ?pls)" "n_pls s = length ?pls" using ok by (simp_all add: server_ok_def)
  have parts: "blocks ((r, gs, us) # Y) = r # blocks Y" "blocks (X @ Y) = blocks X @ blocks Y"
    for X Y :: pools and r gs us by (simp_all add: blocks_def)
  have "distinct (blocks A @ q # blocks B)" using dist(1) by (simp add: blocks_apart_def parts)
  moreover have "blocks A' @ q # blocks B' = blocks A @ q # blocks B" using arg_cong[OF s(1), of blocks] by (simp add: parts q)
  ultimately have "remove1 q (blocks A' @ q # blocks B') = remove1 q (blocks A @ q # blocks B)"
    "q \<notin> set (blocks A)" "q \<notin> set (blocks A')" by (auto dest: arg_cong[of _ _ distinct])
  then have new: "blocks pls' = blocks (A @ B)" by (simp add: s(2) parts remove1_append)
  have tab: "take (n_pls s') (first_clp s') = blocks pls'" "n_pls s' = length pls'"
    using good_parts(1)[OF r(2)] by (simp_all add: server_ok_def)
  have "length (blocks pls') = length (blocks (A @ B))" by (simp add: new)
  then have n: "n_pls s' = n_pls s - 1" using tab(2) dist(2) by (simp add: blocks_def)
  let ?h = "close_call (cl_fd (wmem w) c) #
      (if cl_name_ok (wmem w) c = 1
       then to_others P (wmem w) (stk P ''session_close.msg'') (used_name (wmem w) c @ bytes_of left_msg) c ?pls
       else [])"
  have harm: "harmless ?h" "harmless x" using s(4) harmless_left(1) by auto
  have "pool_block q \<subseteq> mapped (kern P) (?h @ trace w)"
    using mapped_grows[OF harm(1), of "kern P" "trace w"] good_parts(2)[OF assms(2)] D(4)
    by (auto simp: blocks_mapped_def pool_area_def)
  then have "pool_block q - span q (unat page_size) \<subseteq> mapped (kern P) (unmap_call q page_size # ?h @ trace w)"
    using mapped_unmap[of "kern P" "?h @ trace w" q page_size] by blast
  then have "pool_block q - span q (unat page_size) \<subseteq> mapped (kern P) (trace w')"
    using mapped_grows[OF harm(2), of "kern P" "unmap_call q page_size # ?h @ trace w"] r(3) s(3) q by auto
  moreover have "pool_block r \<inter> pool_block q = {}" if "r \<in> set (blocks (A @ B))" for r
    using that dist(1) by (auto simp: blocks_apart_def parts)
  ultimately show ?thesis using r(1) n tab(1) new by (intro exI[of _ s'] exI[of _ w']) simp
qed

theorem session_close_leaks_witness:
  "\<exists>s w s' w' c q. session_close (demo []) c s w = Inr (s', w') \<and> connected s (wmem w) = [c] \<and>
     n_pls s' = n_pls s - 1 \<and> pool_block q - span q (unat page_size) \<subseteq> mapped (demo_kernel []) (trace w')"
proof -
  obtain q r c fs s w where g: "good (demo []) w s [(q, fs, [c]), (r, rev (slots r), [])]"
    "trace w = [pool_map_call, pool_map_call]" by (rule demo_two_pools)
  have g': "good (demo []) w s ([] @ (q, fs, [c]) # [(r, rev (slots r), [])])" using g(1) by simp
  have "connected s (wmem w) = [c]" using good_connected[OF g(1)] by (simp add: clients_def)
  moreover obtain s' w' where "session_close (demo []) c s w = Inr (s', w')" "n_pls s' = n_pls s - 1"
    "pool_block q - span q (unat page_size) \<subseteq> mapped (demo_kernel []) (trace w')"
    using session_close_leaks[OF demo_platform g'] by auto
  ultimately show ?thesis by blast
qed

section \<open>Opening a session\<close>

lemma full_count:
  assumes ok: "server_ok P m s pls" and full: "\<forall>(q, fs, us) \<in> set pls. fs = []"
  shows "length (clients pls) = length pls * max_clients_in_pool"
proof -
  have "length us = max_clients_in_pool" if "(q, fs, us) \<in> set pls" for q fs us
    using pool_length(2)[OF ok that] full that by (auto simp: max_clients_in_pool_def)
  then have "length (clients ps) = length ps * max_clients_in_pool" if "set ps \<subseteq> set pls" for ps
    using that by (induction ps) (auto simp: clients_def)
  then show ?thesis by simp
qed

text \<open>
  C7: Opening a session. A place for a new client is found while fewer than 16 * 1023 are connected:
  the record is not null, is mapped memory apart from those of all connected clients, whose records
  keep every byte, and the client is added to the lists and no other. A region is asked of the
  kernel only when all places are taken; if the kernel refuses it the program exits with status 1.
  With all 16 pools full the result is null, and nothing has changed.
\<close>

theorem session_new_outcome:
  assumes "platform_ok P" and "kernel_fresh (kern P) (statics P)" and "good P w s pls"
  defines "cs \<equiv> connected s (wmem w)"
  shows "(session_new P s w = Inl (Exited 1) \<and> \<not> succeeded (kern P (pool_map_call # trace w)) \<and>
      length cs = n_pls s * max_clients_in_pool) \<or>
    (session_new P s w = Inr (0, s, w) \<and> length cs = max_pools * max_clients_in_pool) \<or>
    (\<exists>c s' w'. session_new P s w = Inr (c, s', w') \<and> c \<noteq> 0 \<and> c \<notin> set cs \<and>
      set (connected s' (wmem w')) = insert c (set cs) \<and> distinct (connected s' (wmem w')) \<and>
      client_span c \<subseteq> mapped (kern P) (trace w') \<and>
      (\<forall>d \<in> set cs. client_span d \<inter> client_span c = {} \<and> agree (client_span d) (wmem w) (wmem w')) \<and>
      (trace w' = trace w \<or> trace w' = pool_map_call # trace w \<and> length cs = n_pls s * max_clients_in_pool))"
proof -
  note ok = good_parts(1)[OF assms(3)]
  have cs: "cs = clients pls" unfolding cs_def by (rule good_connected[OF assms(3)])
  have n: "n_pls s = length pls" using ok by (simp add: server_ok_def)
  note full = full_count[OF ok]
  show ?thesis
  proof (cases rule: session_new_spec[OF assms(1,2) good_parts(4)[OF assms(3)]])
    case 1
    have "length cs = n_pls s * max_clients_in_pool" using full[OF 1(3)] n cs by simp
    with 1(1,2) show ?thesis by (intro disjI1 conjI)
  next
    case 2
    then show ?thesis using full n cs by simp
  next
    case (3 c s' w' pls')
    have op: "state_ok P w' s' pls'" "c \<noteq> 0" "c \<notin> set cs" "set (clients pls') = insert c (set cs)"
      "\<forall>d \<in> set cs. agree (client_span d) (wmem w) (wmem w')" using 3(2) cs by (simp_all add: opened_def)
    have ok': "server_ok P (wmem w') s' pls'" "blocks_mapped P pls' (trace w')" using op(1) by (simp_all add: state_ok_def)
    have con: "connected s' (wmem w') = clients pls'" by (rule connected_clients[OF ok'(1)])
    have c: "c \<in> set (clients pls')" using op(4) by simp
    have "client_span c \<subseteq> mapped (kern P) (trace w')"
      using client_area[OF ok'(1) c] ok'(2) by (auto simp: blocks_mapped_def)
    moreover have "client_span d \<inter> client_span c = {}" if "d \<in> set cs" for d
      using slots_disjoint[OF ok'(1) clients_slots[OF ok'(1)] clients_slots[OF ok'(1)], of d c] that op(3,4) by auto
    moreover have "trace w' = trace w \<or> trace w' = pool_map_call # trace w \<and> length cs = n_pls s * max_clients_in_pool"
      using 3(3) full n cs by auto
    ultimately show ?thesis
      apply -
      apply (rule disjI2)
      apply (rule disjI2)
      by (intro exI[of _ c] exI[of _ s'] exI[of _ w'] conjI ballI)
        (use 3(1) op clients_distinct[OF ok'(1)] in \<open>simp_all add: con\<close>)
  qed
qed

theorem session_new_outcome_witness:
  "\<exists>s w c s' w'. connected s (wmem w) = [] \<and> session_new (demo []) s w = Inr (c, s', w') \<and>
     c \<noteq> 0 \<and> connected s' (wmem w') = [c] \<and> trace w' = trace w"
proof -
  obtain q s w where p: "good (demo []) w s [(q, rev (slots q), [])]" "trace w = [pool_map_call]" "n_pls s = 1"
    by (rule demo_pool_made)
  have fresh: "kernel_fresh (kern (demo [])) (statics (demo []))" using demo_fresh by simp
  have none: "connected s (wmem w) = []" using good_connected[OF p(1)] by (simp add: clients_def)
  have "0 < n_pls s * max_clients_in_pool" using p(3) by (simp add: max_clients_in_pool_def)
  with session_new_outcome[OF demo_platform fresh p(1)] none
  obtain c s' w' where r: "session_new (demo []) s w = Inr (c, s', w')" "c \<noteq> 0"
    "set (connected s' (wmem w')) = {c}" "distinct (connected s' (wmem w'))" "trace w' = trace w"
    by (auto simp: max_pools_def max_clients_in_pool_def)
  then have "connected s' (wmem w') = [c]" by (cases "connected s' (wmem w')") (auto simp: subset_singleton_iff)
  then show ?thesis using r none by blast
qed

section \<open>Fragments\<close>

lemma line_read_twice:
  assumes plat: "platform_ok P" and g: "good P w s pls" and c: "c \<in> set (clients pls)"
    and b: "length (pending (wmem w) c) = b" and cl: "line_reading P (wmem w) c = cl"
    and bs: "bs \<noteq> []" "cs \<noteq> []" "b + length bs + length cs \<le> max_line_len"
    and a: "arrives P (trace w) cl bs" "arrives P (cl # trace w) cl cs" "drained P (cl # cl # trace w) cl"
  obtains w' where "line_read_loop (fuel P) P c (cl_buf_used (wmem w) c) s w = Inr (True, s, w')"
    "cl_buf_used (wmem w') c = of_nat (b + length bs + length cs)"
    "ld_bytes (wmem w') (cl_buf c) (b + length cs) = pending (wmem w) c @ cs"
proof -
  obtain b' where b': "cl_buf_used (wmem w) c = of_nat b'" "b' \<le> 512" using counter_bounds[OF g c] by metis
  then have pend: "pending (wmem w) c = ld_bytes (wmem w) (cl_buf c) b'" by (simp add: pending_def small_count)
  then have bb: "b' = b" using b by simp
  have call: "cl = read_call (cl_fd (wmem w) c) (c + 8 + of_nat b) (of_nat (512 - b))"
    using cl by (simp add: line_reading_def b cl_buf_def max_line_len_def)
  have fd: "cl_fd m' c = cl_fd m c" if "only (span (c + 4) 516) m m'" for m m'
    unfolding cl_fd_def using that by (rule c32.only_ld) (rule disj_spans, simp add: disj_def)
  have len: "b + length bs + length cs \<le> 512" using bs(3) by (simp add: max_line_len_def)
  have ub: "cl_buf_used (wmem w) c = of_nat b" using b'(1) bb by simp
  have "3 \<le> fuel P" using plat unfolding platform_ok_def by linarith
  then obtain f where f: "fuel P = Suc (Suc (Suc f))" by (metis le_Suc_ex numeral_3_eq_3 add_Suc)
  obtain w' m2 where r: "line_read_loop (fuel P) P c (of_nat b) s w = Inr (True, s, w')"
    "wmem w' = set_buf_used c (of_nat (b + length bs + length cs)) (st_bytes m2 (c + 8 + of_nat b) cs)"
    "m2 = set_buf_used c (of_nat (b + length bs)) (st_bytes (wmem w) (c + 8 + of_nat b) bs)"
    using line_reader.loop_delivers_twice[OF plat b'(2)[unfolded bb] ub bs(1,2) len a(1)[unfolded call]
        a(2)[unfolded call] a(3)[unfolded call] fd, of f s] unfolding f by metis
  have o: "only (span (c + 4) 4) m (set_buf_used c v m)" for m v unfolding set_buf_used_def by (rule c32.only_st)
  have apart: "span (c + 8) 512 \<inter> span (c + 4) 4 = {}" using line_spans(4)[of c] by blast
  have "ld_bytes m2 (c + 8) (b + length bs) = ld_bytes (wmem w) (c + 8) b @ bs"
    unfolding r(3) by (rule ld_appended[OF _ _ o apart]) (use len in simp_all)
  then have m2: "ld_bytes m2 (c + 8) b = ld_bytes (wmem w) (c + 8) b" by (simp add: ld_bytes_add)
  have "ld_bytes (wmem w') (c + 8) (b + length cs) = ld_bytes m2 (c + 8) b @ cs"
    unfolding r(2) by (rule ld_appended[OF _ _ o apart]) (use len in simp_all)
  moreover have "cl_buf_used (wmem w') c = of_nat (b + length bs + length cs)"
    unfolding r(2) cl_buf_used_def set_buf_used_def by (rule c32.ld_st_same)
  ultimately show ?thesis using that[OF r(1)[folded ub]] m2 pend bb by (simp add: cl_buf_def)
qed

text \<open>
  C18: A line that comes in two pieces during one event is damaged: both pieces are counted, but the
  second is stored at the offset of the first, so that the bytes from there are those of the second
  piece and what it covers of the first is lost, while the counter claims both.
\<close>

theorem fragments_overwritten:
  assumes "platform_ok P" and "good P w s pls" and "c \<in> set (clients pls)"
    and "bs \<noteq> []" "cs \<noteq> []" "length (pending (wmem w) c) + length bs + length cs \<le> max_line_len"
    and "arrives P (trace w) (line_reading P (wmem w) c) bs"
    and "arrives P (line_reading P (wmem w) c # trace w) (line_reading P (wmem w) c) cs"
    and "drained P (line_reading P (wmem w) c # line_reading P (wmem w) c # trace w) (line_reading P (wmem w) c)"
  shows "\<exists>w'. line_read_loop (fuel P) P c (cl_buf_used (wmem w) c) s w = Inr (True, s, w') \<and>
    cl_buf_used (wmem w') c = of_nat (length (pending (wmem w) c) + length bs + length cs) \<and>
    take (length (pending (wmem w) c) + length cs) (pending (wmem w') c) = pending (wmem w) c @ cs"
proof -
  obtain w' where r: "line_read_loop (fuel P) P c (cl_buf_used (wmem w) c) s w = Inr (True, s, w')"
    "cl_buf_used (wmem w') c = of_nat (length (pending (wmem w) c) + length bs + length cs)"
    "ld_bytes (wmem w') (cl_buf c) (length (pending (wmem w) c) + length cs) = pending (wmem w) c @ cs"
    by (rule line_read_twice[OF assms(1-3) refl refl assms(4-9)])
  let ?b = "length (pending (wmem w) c)"
  have "pending (wmem w') c = ld_bytes (wmem w') (cl_buf c) ((?b + length cs) + length bs)"
    using assms(6) by (simp add: pending_def r(2) small_count max_line_len_def ac_simps del: of_nat_add)
  then have "take (?b + length cs) (pending (wmem w') c) = pending (wmem w) c @ cs"
    by (simp add: ld_bytes_add[of "wmem w'" "cl_buf c" "?b + length cs" "length bs"] r(3) del: of_nat_add)
  then show ?thesis using r(1,2) by blast
qed

theorem fragments_overwritten_witness:
  "\<exists>s w w' c. line_read_loop 1024 (demo [[104, 101], [108, 108]]) c (cl_buf_used (wmem w) c) s w = Inr (True, s, w') \<and>
     pending (wmem w) c = [] \<and> length (pending (wmem w') c) = 4 \<and> take 2 (pending (wmem w') c) = [108, 108]"
proof -
  let ?P = "demo [[104, 101], [108, 108]]"
  obtain s w pls c d where g: "good ?P w s pls" "clients pls = [c, d]" "c \<noteq> d" "trace w = [pool_map_call]"
    "cl_name_ok (wmem w) c = 1" "pending (wmem w) c = []" by (rule demo_members)
  have c: "c \<in> set (clients pls)" using g(2) by simp
  define cl where "cl = line_reading ?P (wmem w) c"
  have nr: "sc_nr cl = s_read" "unat (sc_args cl ! 2) = 512"
    unfolding cl_def line_reading_def g(6) by (simp_all add: read_call_def max_line_len_def Let_def)
  have n: "sc_nr pool_map_call \<noteq> s_read" by (simp add: pool_map_call_def mmap_call_def syscall_numbers)
  have k: "calls_before cl [pool_map_call] = 0" "calls_before cl [cl, pool_map_call] = 1"
    "calls_before cl [cl, cl, pool_map_call] = 2" using n nr(1) by (simp_all add: calls_before_def)
  have "arrives ?P (trace w) cl [104, 101]" "arrives ?P (cl # trace w) cl [108, 108]" "drained ?P (cl # cl # trace w) cl"
    using nr k by (simp_all add: g(4) arrives_def drained_def succeeded_def demo_kernel_reply demo_reply_def)
  note a = this[unfolded cl_def]
  obtain w' where r: "line_read_loop 1024 ?P c (cl_buf_used (wmem w) c) s w = Inr (True, s, w')"
    "cl_buf_used (wmem w') c = 4" "take 2 (pending (wmem w') c) = [108, 108]"
    using fragments_overwritten[OF demo_platform g(1) c _ _ _ a] by (auto simp: g(6) max_line_len_def numeral_2_eq_2)
  have "length (pending (wmem w') c) = 4" by (simp add: pending_def r(2))
  then show ?thesis using r(1,3) g(6) by blast
qed

end
