(* ===== verification/Listening.thy ===== *)
theory Listening
  imports Talk
begin

text \<open>
  The listening socket: how \<^verbatim>\<open>server_init\<close> sets it up, and how \<^verbatim>\<open>server_handle\<close>
  takes the clients that wait at it.
\<close>

section \<open>The address\<close>

lemma le_bytes_16: "le_bytes 2 (unat (x :: u16)) = [ucast x, ucast (drop_bit 8 x)]"
proof -
  have "(of_nat (unat x mod 256) :: u8) = ucast x"
    by (simp add: word_unat_eq_iff unat_of_nat unsigned_ucast_eq take_bit_eq_mod)
  moreover have "(of_nat (unat x div 256 mod 256) :: u8) = ucast (drop_bit 8 x)"
    by (simp add: word_unat_eq_iff unat_of_nat unsigned_ucast_eq take_bit_eq_mod drop_bit_eq_div unat_div_distrib)
  ultimately show ?thesis by (simp add: numeral_2_eq_2)
qed

lemma hton_bytes: "le_bytes 2 (unat (hton port)) = [ucast (drop_bit 8 port), ucast port]"
proof -
  have far: "\<not> bit port n" if "16 \<le> n" for n using bit_imp_le_length[of port n] that by auto
  have "(ucast (hton port) :: u8) = ucast (drop_bit 8 port)"
    by (rule bit_word_eqI) (auto simp: hton_def bit_simps)
  moreover have "(ucast (drop_bit 8 (hton port)) :: u8) = ucast port"
    by (rule bit_word_eqI) (auto simp: hton_def bit_simps far)
  ultimately show ?thesis by (simp add: le_bytes_16)
qed

definition bind_address :: "u64 \<Rightarrow> u16 \<Rightarrow> mem \<Rightarrow> mem" where
  "bind_address a port m = (st16 (st32 (st16 m a (ucast af_inet)) (a + 4) 0) (a + 2) (hton port))(a + 8 := 0)"

lemma stored_at:
  fixes a :: u64
  shows "st_bytes m (a + k) bs (a + j) = (if unat (j - k) < length bs then bs ! unat (j - k) else m (a + j))"
    and "st_bytes m a bs (a + j) = (if unat j < length bs then bs ! unat j else m (a + j))"
  by (simp_all add: st_bytes_def)

lemma bind_address_bytes:
  "ld_bytes (bind_address a port m) a 16 =
    [2, 0, ucast (drop_bit 8 port), ucast port, 0, 0, 0, 0, 0] @ ld_bytes (bind_address a port m) (a + 9) 7"
proof -
  have af: "le_bytes 2 (unat (ucast af_inet :: u16)) = [2, 0]" by code_simp
  have z: "le_bytes 4 (unat (0 :: u32)) = [0, 0, 0, 0]" by code_simp
  note at = bind_address_def st16_def st32_def hton_bytes af z stored_at
  let ?m = "bind_address a port m"
  have "?m (a + 0) = 2" "?m (a + 1) = 0" "?m (a + 2) = ucast (drop_bit 8 port)" "?m (a + 3) = ucast port"
    "?m (a + 4) = 0" "?m (a + 5) = 0" "?m (a + 6) = 0" "?m (a + 7) = 0" "?m (a + 8) = 0"
    by (simp_all only: at fun_upd_apply add_left_cancel)
      (simp_all add: unsigned_minus_1_eq_mask mask_eq_exp_minus_1)
  then have "ld_bytes ?m a 9 = [2, 0, ucast (drop_bit 8 port), ucast port, 0, 0, 0, 0, 0]"
    by (simp add: ld_bytes_def upt_conv_Cons)
  then show ?thesis using ld_bytes_add[of ?m a 9 7] by simp
qed

section \<open>Setting up the socket\<close>

text \<open>The four calls, as the kernel sees them.\<close>

definition socket_call :: sys_call where
  "socket_call = \<lparr>sc_nr = s_socket, sc_args = [int_arg af_inet, int_arg sock_stream_nonblock, int_arg 0], sc_data = []\<rparr>"

definition sockopt_call :: "u32 \<Rightarrow> u64 \<Rightarrow> sys_call" where
  "sockopt_call fd v = \<lparr>sc_nr = s_setsockopt,
     sc_args = [int_arg fd, int_arg sol_socket, int_arg so_reuseaddr, v, int_arg 4, 0], sc_data = [1, 0, 0, 0]\<rparr>"

definition bind_call :: "u32 \<Rightarrow> u64 \<Rightarrow> u8 list \<Rightarrow> sys_call" where
  "bind_call fd a bs = \<lparr>sc_nr = s_bind, sc_args = [int_arg fd, a, int_arg 16], sc_data = bs\<rparr>"

definition listen_call :: "u32 \<Rightarrow> sys_call" where
  "listen_call fd = \<lparr>sc_nr = s_listen, sc_args = [int_arg fd, int_arg backlog, 0], sc_data = []\<rparr>"

lemma le_bytes_one: "le_bytes 4 (unat (1 :: u32)) = [1, 0, 0, 0]"
  by code_simp

lemma setup_calls:
  assumes kern: "kernel_ok (kern P)"
  shows "snd (snd (sys_socket P w af_inet sock_stream_nonblock 0)) = w\<lparr>trace := socket_call # trace w\<rparr>"
    and "ld_bytes (wmem w) v 4 = [1, 0, 0, 0] \<Longrightarrow>
      snd (sys_setsockopt P w fd sol_socket so_reuseaddr v 4) = w\<lparr>trace := sockopt_call fd v # trace w\<rparr>"
    and "snd (sys_bind P w fd a 16) = w\<lparr>trace := bind_call fd a (ld_bytes (wmem w) a 16) # trace w\<rparr>"
    and "snd (sys_listen P w fd backlog) = w\<lparr>trace := listen_call fd # trace w\<rparr>"
proof -
  have q: "stores_nothing socket_call" "stores_nothing (sockopt_call fd v)" "stores_nothing (bind_call fd a bs)"
    "stores_nothing (listen_call fd)" for bs
    by (simp_all add: stores_nothing_def socket_call_def sockopt_call_def bind_call_def listen_call_def syscall_numbers)
  show "snd (snd (sys_socket P w af_inet sock_stream_nonblock 0)) = w\<lparr>trace := socket_call # trace w\<rparr>"
    using syscall_raw_quiet[OF kern q(1), of w]
    by (simp add: sys_socket_def syscall3_def socket_call_def split_def Let_def)
  show "snd (sys_setsockopt P w fd sol_socket so_reuseaddr v 4) = w\<lparr>trace := sockopt_call fd v # trace w\<rparr>"
    if "ld_bytes (wmem w) v 4 = [1, 0, 0, 0]"
    using syscall_raw_quiet[OF kern q(2), of w] that
    by (simp add: sys_setsockopt_def syscall6_def sockopt_call_def split_def Let_def)
  show "snd (sys_bind P w fd a 16) = w\<lparr>trace := bind_call fd a (ld_bytes (wmem w) a 16) # trace w\<rparr>"
    using syscall_raw_quiet[OF kern q(3), of w]
    by (simp add: sys_bind_def syscall3_def bind_call_def split_def Let_def)
  show "snd (sys_listen P w fd backlog) = w\<lparr>trace := listen_call fd # trace w\<rparr>"
    using syscall_raw_quiet[OF kern q(4), of w]
    by (simp add: sys_listen_def syscall3_def listen_call_def split_def Let_def)
qed

lemma init_trace:
  fixes w :: world and s :: server
  assumes kern: "kernel_ok (kern P)" and r: "server_init P port s w = Inr (0, s', w')"
  defines "v \<equiv> stk P ''server_init.enable''" and "a \<equiv> stk P ''server_init.addr''"
  shows "\<exists>rest. trace w' = listen_call (ls s') # bind_call (ls s') a
      ([2, 0, ucast (drop_bit 8 port), ucast port, 0, 0, 0, 0, 0] @ rest) # sockopt_call (ls s') v # socket_call # trace w"
    and "\<exists>fd. s' = s\<lparr>ls := fd\<rparr>"
proof -
  define w1 where "w1 = on_mem (\<lambda>m. st32 m v 1) w"
  obtain fd err1 w2 where c1: "sys_socket P w1 af_inet sock_stream_nonblock 0 = (fd, err1, w2)" by (metis prod_cases3)
  have w2: "w2 = w1\<lparr>trace := socket_call # trace w1\<rparr>" using setup_calls(1)[OF kern, of w1] c1 by simp
  have e1: "err1 = None"
    using r c1 by (auto simp: server_init_def report_error_def Let_def v_def w1_def andthen_Inr_iff split: option.splits)
  obtain err2 w3 where c2: "sys_setsockopt P w2 fd sol_socket so_reuseaddr v 4 = (err2, w3)" by (metis prod.exhaust)
  have four: "length ([1, 0, 0, 0] :: u8 list) = 4" by simp
  have "ld_bytes (wmem w2) v 4 = [1, 0, 0, 0]"
    using ld_bytes_st_bytes_same[of "[1, 0, 0, 0]" "wmem w" v, unfolded four]
    by (simp add: w2 w1_def on_mem_def st32_def le_bytes_one del: unsigned_1)
  then have w3: "w3 = w2\<lparr>trace := sockopt_call fd v # trace w2\<rparr>" using setup_calls(2)[OF kern, of w2 v fd] c2 by simp
  have e2: "err2 = None"
    using r c1 e1 c2 by (auto simp: server_init_def report_error_def Let_def v_def w1_def andthen_Inr_iff split: option.splits)
  define w4 where "w4 = on_mem (bind_address a port) w3"
  have w4': "on_mem (set_sin_zero0 a 0) (on_mem (set_sin_port a (hton port))
      (on_mem (set_sin_addr a inaddr_any) (on_mem (set_sin_family a (ucast af_inet)) w3))) = w4"
    by (simp add: w4_def on_mem_def bind_address_def sockaddr_fields)
  obtain err3 w5 where c3: "sys_bind P w4 fd a 16 = (err3, w5)" by (metis prod.exhaust)
  have w5: "w5 = w4\<lparr>trace := bind_call fd a (ld_bytes (wmem w4) a 16) # trace w4\<rparr>"
    using setup_calls(3)[OF kern, of w4 fd a] c3 by simp
  have e3: "err3 = None"
    using r c1 e1 c2 e2 c3 w4'
    by (auto simp: server_init_def report_error_def Let_def v_def a_def w1_def andthen_Inr_iff split: option.splits)
  obtain err4 w6 where c4: "sys_listen P w5 fd backlog = (err4, w6)" by (metis prod.exhaust)
  have w6: "w6 = w5\<lparr>trace := listen_call fd # trace w5\<rparr>" using setup_calls(4)[OF kern, of w5 fd] c4 by simp
  have "w' = w6 \<and> s' = s\<lparr>ls := fd\<rparr>"
    using r c1 e1 c2 e2 c3 e3 c4 w4'
    by (auto simp: server_init_def report_error_def Let_def v_def a_def w1_def andthen_Inr_iff split: option.splits)
  then show "\<exists>fd. s' = s\<lparr>ls := fd\<rparr>" "\<exists>rest. trace w' = listen_call (ls s') # bind_call (ls s') a
      ([2, 0, ucast (drop_bit 8 port), ucast port, 0, 0, 0, 0, 0] @ rest) # sockopt_call (ls s') v # socket_call # trace w"
    by (auto simp: w6 w5 w4_def w3 w2 w1_def on_mem_def bind_address_bytes)
qed

text \<open>
  C16: Setting up the listening socket ends with one of the codes 0 to 4, without a stuck step and
  with the clients untouched, the code telling which of the four calls the kernel refused. When it
  is 0, the kernel has been given exactly these calls: a non-blocking stream socket, the option that
  lets the address be used again with the value 1, the address of any interface with the port in
  network byte order, and the queue length; the last three on the descriptor kept in the server.
\<close>

theorem server_init_binds:
  assumes "platform_ok P" and "good P w s pls"
  shows "\<exists>code s' w'. server_init P port s w = Inr (code, s', w') \<and> code \<in> {0, 1, 2, 3, 4} \<and> good P w' s' pls \<and>
    (code = 0 \<longrightarrow> (\<exists>rest. trace w' =
       listen_call (ls s') #
       bind_call (ls s') (stk P ''server_init.addr'')
         ([2, 0, ucast (drop_bit 8 port), ucast port, 0, 0, 0, 0, 0] @ rest) #
       sockopt_call (ls s') (stk P ''server_init.enable'') # socket_call # trace w))"
proof -
  have kern: "kernel_ok (kern P)" using assms(1) by (simp add: platform_ok_def)
  obtain code w' s' where r: "server_init P port s w = Inr (code, s', w')" "code \<in> {0, 1, 2, 3, 4}" "good P w' s' pls"
    by (rule server_init_spec[OF assms])
  then show ?thesis
    by (intro exI[of _ code] exI[of _ s'] exI[of _ w'] conjI impI) (use init_trace(1)[OF kern, of port s w s' w'] in simp_all)
qed

theorem server_init_binds_witness:
  "\<exists>s w s' w' rest. server_init (demo []) 7070 s w = Inr (0, s', w') \<and> trace w' =
     listen_call (ls s') # bind_call (ls s') (demo_stk ''server_init.addr'') ([2, 0, 0x1B, 0x9E, 0, 0, 0, 0, 0] @ rest) #
     sockopt_call (ls s') (demo_stk ''server_init.enable'') # socket_call # trace w"
proof -
  obtain q s w where p: "good (demo []) w s [(q, rev (slots q), [])]" by (rule demo_pool_made)
  obtain s' w' where i: "server_init (demo []) 7070 s w = Inr (0, s', w')" using demo_init by blast
  have b: "(ucast (drop_bit 8 (7070 :: u16)) :: u8) = 0x1B" "(ucast (7070 :: u16) :: u8) = 0x9E" by code_simp+
  from server_init_binds[OF demo_platform p, of 7070, unfolded b] i
  obtain rest where "trace w' = listen_call (ls s') #
     bind_call (ls s') (demo_stk ''server_init.addr'') ([2, 0, 0x1B, 0x9E, 0, 0, 0, 0, 0] @ rest) #
     sockopt_call (ls s') (demo_stk ''server_init.enable'') # socket_call # trace w" by auto
  with i show ?thesis by blast
qed

section \<open>Serving a client\<close>

text \<open>
  C14: As long as the reads of the kernel are not interrupted by signals, handling an event of a
  connected client ends, whatever the kernel answers: the fuel is enough, the server's invariant
  holds afterwards, and at most this client has been removed.
\<close>

theorem session_reads_return:
  assumes "platform_ok P" and "uninterrupted P" and "good P w s pls" and "c \<in> set (clients pls)"
  shows "\<exists>s' w' pls'. (if cl_name_ok (wmem w) c = 0 then session_name_read P c s w else session_line_read P c s w) =
      Inr (s', w') \<and> good P w' s' pls' \<and>
    (connected s' (wmem w') = connected s (wmem w) \<or>
     connected s' (wmem w') = filter (\<lambda>d. d \<noteq> c) (connected s (wmem w)))"
proof -
  let ?r = "if cl_name_ok (wmem w) c = 0 then session_name_read P c s w else session_line_read P c s w"
  have "settles P c pls w ?r \<and> (\<exists>y. ?r = Inr y)"
  proof (cases "cl_name_ok (wmem w) c = 0")
    case True
    then show ?thesis using session_name_read_spec[OF assms(1,3,4)] assms(2) by simp
  next
    case False
    then have "cl_name_ok (wmem w) c = 1" using good_stale[OF assms(3,4)] by (auto simp: stale_ok_def)
    then show ?thesis using session_line_read_spec[OF assms(1,3,4)] assms(2) False by simp
  qed
  then obtain s' w' pls' where r: "?r = Inr (s', w')" "settled P c pls w s' w' pls'"
    by (auto simp: settles_def)
  then have "good P w' s' pls'" by (simp add: settled_def)
  from r this good_connected[OF this] good_connected[OF assms(3)] show ?thesis
    unfolding settled_def by auto
qed

theorem session_reads_return_witness:
  "\<exists>s w c s' w'. cl_name_ok (wmem w) c = 1 \<and> session_line_read (demo [[104, 105]]) c s w = Inr (s', w')"
proof -
  obtain s w pls c d where g: "good (demo [[104, 105]]) w s pls" "clients pls = [c, d]" "cl_name_ok (wmem w) c = 1"
    by (rule demo_members)
  have "c \<in> set (clients pls)" using g(2) by simp
  from session_reads_return[OF demo_platform demo_uninterrupted g(1) this] g(3)
  obtain s' w' where "session_line_read (demo [[104, 105]]) c s w = Inr (s', w')" by auto
  with g(3) show ?thesis by blast
qed

section \<open>Accepting\<close>

definition accept_call :: "u32 \<Rightarrow> sys_call" where
  "accept_call fd = \<lparr>sc_nr = s_accept4, sc_args = [int_arg fd, 0, 0, int_arg sock_nonblock, 0, 0], sc_data = []\<rparr>"

lemma accept_cases:
  assumes kern: "kernel_ok (kern P)"
  shows "succeeded (kern P (accept_call l # trace w)) \<Longrightarrow> sys_accept4 P w l 0 0 sock_nonblock =
      (ucast (rax (kern P (accept_call l # trace w))), None, w\<lparr>trace := accept_call l # trace w\<rparr>)"
    and "drained P (trace w) (accept_call l) \<Longrightarrow>
      \<exists>v e. sys_accept4 P w l 0 0 sock_nonblock = (v, Some e, w\<lparr>trace := accept_call l # trace w\<rparr>) \<and> err_code e = EAGAIN"
proof -
  let ?c = "accept_call l"
  have "stores_nothing ?c" by (simp add: stores_nothing_def accept_call_def syscall_numbers)
  from syscall_raw_quiet[OF kern this] have q: "snd (syscall_raw P w ?c) = w\<lparr>trace := ?c # trace w\<rparr>" .
  have r: "sys_accept4 P w l 0 0 sock_nonblock = (ucast (r1 (fst (syscall_raw P w ?c))),
      set_error (errno (fst (syscall_raw P w ?c))), snd (syscall_raw P w ?c))"
    by (simp add: sys_accept4_def syscall6_def accept_call_def split_def Let_def)
  show "sys_accept4 P w l 0 0 sock_nonblock =
      (ucast (rax (kern P (?c # trace w))), None, w\<lparr>trace := ?c # trace w\<rparr>)" if s: "succeeded (kern P (?c # trace w))"
    using syscall_raw_succeeded[OF s] q r by simp
  obtain e where e: "set_error 11 = Some e" "err_code e = EAGAIN" using again_error by blast
  show "\<exists>v e. sys_accept4 P w l 0 0 sock_nonblock = (v, Some e, w\<lparr>trace := ?c # trace w\<rparr>) \<and> err_code e = EAGAIN"
    if "drained P (trace w) ?c"
    using that e unfolding r q by (simp add: drained_def syscall_raw_def Let_def decode_rax_def)
qed

text \<open>
  C8: A connection that waits at the listening socket becomes a client. While a pool has room and the
  kernel takes the registration, serving the socket accepts the connection, adds one new client and
  removes none, gives it the descriptor of the connection, empty buffers and no name, registers this
  descriptor with the client's address, asks for a name on it, and ends when no other connection
  waits.
\<close>

theorem server_handle_admits:
  fixes w :: world and s :: server
  defines "acc \<equiv> accept_call (ls s)" and "old \<equiv> connected s (wmem w)"
  assumes "platform_ok P" and "kernel_fresh (kern P) (statics P)" and "good P w s pls"
    and "length old < n_pls s * max_clients_in_pool"
    and "succeeded (kern P (acc # trace w))" and "fd = ucast (rax (kern P (acc # trace w)))"
    and "\<forall>m c. succeeded (kern P (admit_call P m epfd fd c # acc # trace w))"
    and "\<forall>m c d. drained P (d # admit_call P m epfd fd c # acc # trace w) acc"
  shows "\<exists>c w' pls'. server_handle P epfd s w = Inr (s, w') \<and> good P w' s pls' \<and>
    c \<notin> set old \<and> set (connected s (wmem w')) = insert c (set old) \<and>
    cl_fd (wmem w') c = fd \<and> cl_buf_used (wmem w') c = 0 \<and> cl_name_used (wmem w') c = 0 \<and> cl_name_ok (wmem w') c = 0 \<and>
    (fd, c) \<in> registered (kern P) (trace w') \<and>
    (\<exists>m. trace w' = acc # write_call fd (lit P name_prompt) (bytes_of name_prompt) # admit_call P m epfd fd c # acc # trace w)"
proof -
  have kern: "kernel_ok (kern P)" using assms(3) by (simp add: platform_ok_def)
  note g = assms(5)
  have old: "old = clients pls" unfolding old_def by (rule good_connected[OF g])
  have n: "n_pls s = length pls" using good_parts(1)[OF g] by (simp add: server_ok_def)
  let ?w1 = "w\<lparr>trace := acc # trace w\<rparr>"
  have acc: "sys_accept4 P w (ls s) 0 0 sock_nonblock = (fd, None, ?w1)"
    using accept_cases(1)[OF kern] assms(7,8) by (simp add: acc_def)
  have "ordinary acc" by (simp add: ordinary_def acc_def accept_call_def syscall_numbers)
  from calm_good[OF calmI[OF this] g] have g1: "good P ?w1 s pls" .
  have room: "\<not> (\<forall>(q, fs, us) \<in> set pls. fs = [])"
  proof
    assume "\<forall>(q, fs, us) \<in> set pls. fs = []"
    from full_count[OF good_parts(1)[OF g] this] show False using assms(6) old n by simp
  qed
  obtain c w2 pls' where o: "session_new P s ?w1 = Inr (c, s, w2)" "opened P c pls ?w1 s w2 pls'" "trace w2 = acc # trace w"
  proof (cases rule: session_new_spec[OF assms(3,4) good_parts(4)[OF g1]])
    case (3 c s' w' pls')
    with room that show ?thesis by auto
  qed (use room in simp_all)
  have c: "c \<noteq> 0" "c \<notin> set old" "set (clients pls') = insert c (set old)" using o(2) old by (simp_all add: opened_def)
  obtain w3 where a: "admit P epfd fd c s w2 = Inr (s, w3)" "good P w3 s pls'"
    "cl_fd (wmem w3) c = fd" "cl_buf_used (wmem w3) c = 0" "cl_name_used (wmem w3) c = 0" "cl_name_ok (wmem w3) c = 0"
    "trace w3 = write_call fd (lit P name_prompt) (bytes_of name_prompt) # admit_call P (wmem w2) epfd fd c # acc # trace w"
    "(fd, c) \<in> registered (kern P) (trace w3)"
    by (rule admit_cases[OF assms(3) g1 o(2), of epfd fd]) (use assms(9) o(3) that in auto)
  have "drained P (trace w3) (accept_call (ls s))" using assms(10) by (simp add: a(7) acc_def)
  then obtain v e where again: "sys_accept4 P w3 (ls s) 0 0 sock_nonblock = (v, Some e, w3\<lparr>trace := acc # trace w3\<rparr>)"
    "err_code e = EAGAIN" using accept_cases(2)[OF kern, of w3 "ls s"] by (auto simp: acc_def)
  obtain k where k: "fuel P = Suc (Suc k)" using fuel_two[OF assms(3)] .
  have "server_handle P epfd s w = handle_loop (Suc k) P epfd s w3"
    using acc o(1) c(1) a(1) by (simp add: server_handle_def k handle_loop_Suc[of "Suc k"] del: handle_loop.simps)
  also have "\<dots> = Inr (s, w3\<lparr>trace := acc # trace w3\<rparr>)" using again by (simp add: handle_loop_Suc)
  finally have run: "server_handle P epfd s w = Inr (s, w3\<lparr>trace := acc # trace w3\<rparr>)" .
  have g3: "good P (w3\<lparr>trace := acc # trace w3\<rparr>) s pls'" by (rule calm_good[OF calmI[OF \<open>ordinary acc\<close>] a(2)])
  have "registered (kern P) (trace w3) \<subseteq> registered (kern P) (acc # trace w3)"
    by (simp add: acc_def accept_call_def syscall_numbers)
  with a(3-8) c(2,3) run g3 good_connected[OF g3] show ?thesis
    by (intro exI[of _ c] exI[of _ "w3\<lparr>trace := acc # trace w3\<rparr>"] exI[of _ pls']) auto
qed

theorem server_handle_admits_witness:
  "\<exists>s w c w'. server_handle (demo []) 0 s w = Inr (s, w') \<and> connected s (wmem w) = [] \<and>
     connected s (wmem w') = [c] \<and> cl_fd (wmem w') c = 5 \<and> cl_name_ok (wmem w') c = 0"
proof -
  obtain q s w where p: "good (demo []) w s [(q, rev (slots q), [])]" "trace w = [pool_map_call]" "n_pls s = 1"
    by (rule demo_pool_made)
  have fresh: "kernel_fresh (kern (demo [])) (statics (demo []))" using demo_fresh by simp
  have none: "connected s (wmem w) = []" using good_connected[OF p(1)] by (simp add: clients_def)
  let ?acc = "accept_call (ls s)"
  have nr: "sc_nr ?acc = s_accept4" "sc_nr (admit_call (demo []) m 0 5 c) = s_epoll_ctl" for m c
    by (simp_all add: accept_call_def admit_call_def ctl_call_def)
  have ne: "sc_nr pool_map_call \<noteq> s_accept4" by (simp add: pool_map_call_def mmap_call_def syscall_numbers)
  have n: "calls_before ?acc [pool_map_call] = 0"
    "0 < calls_before ?acc (d # admit_call (demo []) m 0 5 c # ?acc # h)" for d m c h
    using ne nr by (simp_all add: calls_before_def)
  have reply: "demo_reply [] x h = (if 0 < calls_before x h then -11 else 5, 0, [])" if "sc_nr x = s_accept4" for x h
    using that by (simp add: demo_reply_def Let_def syscall_numbers)
  have first: "kern (demo []) (?acc # trace w) = \<lparr>rax = 5, out_ptr = 0, out_bytes = []\<rparr>"
    using n(1) by (simp add: demo_kernel_reply reply[OF nr(1)] p(2))
  have ctl: "\<forall>m c. succeeded (kern (demo []) (admit_call (demo []) m 0 5 c # ?acc # trace w))"
    using nr(2) by (simp add: demo_kernel_reply demo_reply_def succeeded_def syscall_numbers Let_def)
  have last: "\<forall>m c d. drained (demo []) (d # admit_call (demo []) m 0 5 c # ?acc # trace w) ?acc"
    using n(2) by (simp add: drained_def demo_kernel_reply reply[OF nr(1)])
  have room: "length (connected s (wmem w)) < n_pls s * max_clients_in_pool"
    using none p(3) by (simp add: max_clients_in_pool_def)
  have ok: "succeeded (kern (demo []) (?acc # trace w))" "5 = (ucast (rax (kern (demo []) (?acc # trace w))) :: u32)"
    unfolding first by (simp_all add: succeeded_def word_le_nat_alt)
  obtain c w' pls' where r: "server_handle (demo []) 0 s w = Inr (s, w')" "good (demo []) w' s pls'"
    "set (connected s (wmem w')) = {c}" "cl_fd (wmem w') c = 5" "cl_name_ok (wmem w') c = 0"
    using server_handle_admits[OF demo_platform fresh p(1) room ok ctl last] none by auto
  have "distinct (connected s (wmem w'))"
    using good_connected[OF r(2)] clients_distinct[OF good_parts(1)[OF r(2)]] by simp
  with r(3) have "connected s (wmem w') = [c]" by (cases "connected s (wmem w')") (auto simp: subset_singleton_iff)
  with r none show ?thesis by blast
qed

section \<open>A server with no place left\<close>

text \<open>Every chunk of a pool is free or a client.\<close>

lemma clients_and_free:
  assumes ok: "server_ok P m s pls"
  shows "length (clients pls) + sum_list (map (\<lambda>(q, fs, us). length fs) pls) = length pls * max_clients_in_pool"
proof -
  have one: "length us + length fs = max_clients_in_pool" if "(q, fs, us) \<in> set pls" for q fs us
    using pool_length(2)[OF ok that] by (simp add: max_clients_in_pool_def)
  have "length (clients ps) + sum_list (map (\<lambda>(q, fs, us). length fs) ps) = length ps * max_clients_in_pool"
    if "set ps \<subseteq> set pls" for ps
    using that
  proof (induction ps)
    case (Cons e ps)
    obtain q fs us where e: "e = (q, fs, us)" by (cases e) auto
    show ?case using Cons one[of q fs us] by (simp add: clients_def e)
  qed (simp add: clients_def)
  then show ?thesis by simp
qed

lemma all_taken_iff:
  assumes "server_ok P m s pls"
  shows "length (clients pls) = length pls * max_clients_in_pool \<longleftrightarrow> (\<forall>(q, fs, us) \<in> set pls. fs = [])"
proof -
  have "length (clients pls) = length pls * max_clients_in_pool \<longleftrightarrow> sum_list (map (\<lambda>(q, fs, us). length fs) pls) = 0"
    using clients_and_free[OF assms] by linarith
  also have "\<dots> \<longleftrightarrow> (\<forall>(q, fs, us) \<in> set pls. fs = [])" unfolding sum_list_eq_0_iff by force
  finally show ?thesis .
qed

lemma session_new_full:
  assumes ok: "server_ok P (wmem w) s pls" and full: "length (clients pls) = max_pools * max_clients_in_pool"
  shows "session_new P s w = Inr (0, s, w)"
proof -
  have n: "n_pls s = length pls" "length pls \<le> max_pools" using ok by (simp_all add: server_ok_def)
  have "length pls = max_pools" using clients_and_free[OF ok] full n(2) by (simp add: max_clients_in_pool_def)
  moreover from this have "\<forall>(q, fs, us) \<in> set pls. fs = []" using all_taken_iff[OF ok] full by simp
  then have "find_free (n_pls s) (wmem w) s 0 = Inr None"
    using find_free_cases[OF ok, of 0 "n_pls s"] n(1) by fastforce
  ultimately show ?thesis using n(1) by (simp add: session_new_def)
qed

lemma limit_facts: "limit_conn_msg \<in> set literals_used" "length limit_conn_msg = 43"
  by (simp_all add: literals_used_def limit_conn_msg_def newline_def)

lemma limit_sent:
  assumes "platform_ok P" and "good P w s pls"
  shows "snd (sys_close P (world_of (sys_write P w fd (lit P limit_conn_msg) (of_nat (length limit_conn_msg)))) fd) =
    w\<lparr>trace := close_call fd # write_call fd (lit P limit_conn_msg) (bytes_of limit_conn_msg) # trace w\<rparr>"
proof -
  have kern: "kernel_ok (kern P)" and lay: "layout_ok P" using assms(1) by (simp_all add: platform_ok_def)
  have "literals_ok P (wmem w)" using good_parts(1)[OF assms(2)] by (simp add: server_ok_def)
  from literal_bytes(1)[OF this lay limit_facts(1)] show ?thesis
    by (simp add: sys_write_world[OF kern] sys_close_world[OF kern] limit_facts(2))
qed

text \<open>
  C9: When all 16 * 1023 places are taken, a waiting connection is told so and closed, and nothing
  else happens: the memory with all clients and the server structure stay as they were, and the
  kernel gets exactly the accept, the message, the close, and the accept that finds nothing more.
\<close>

theorem full_server_refuses:
  fixes w :: world and s :: server
  defines "acc \<equiv> accept_call (ls s)"
  assumes "platform_ok P" and "good P w s pls"
    and "length (connected s (wmem w)) = max_pools * max_clients_in_pool"
    and "succeeded (kern P (acc # trace w))" and "fd = ucast (rax (kern P (acc # trace w)))"
  defines "h \<equiv> close_call fd # write_call fd (lit P limit_conn_msg) (bytes_of limit_conn_msg) # acc # trace w"
  assumes "drained P h acc"
  shows "server_handle P epfd s w = Inr (s, w\<lparr>trace := acc # h\<rparr>)"
proof -
  have kern: "kernel_ok (kern P)" using assms(2) by (simp add: platform_ok_def)
  let ?w1 = "w\<lparr>trace := acc # trace w\<rparr>" and ?w2 = "w\<lparr>trace := h\<rparr>"
  have acc: "sys_accept4 P w (ls s) 0 0 sock_nonblock = (fd, None, ?w1)"
    using accept_cases(1)[OF kern] assms(5,6) by (simp add: acc_def)
  have "ordinary acc" by (simp add: ordinary_def acc_def accept_call_def syscall_numbers)
  from calm_good[OF calmI[OF this] assms(3)] have g1: "good P ?w1 s pls" .
  have new: "session_new P s ?w1 = Inr (0, s, ?w1)"
    using session_new_full[OF good_parts(1)[OF g1]] good_connected[OF assms(3)] assms(4) by simp
  have sent: "snd (sys_close P (world_of (sys_write P ?w1 fd (lit P limit_conn_msg) (of_nat (length limit_conn_msg)))) fd) = ?w2"
    unfolding limit_sent[OF assms(2) g1] by (simp add: h_def)
  obtain v e where again: "sys_accept4 P ?w2 (ls s) 0 0 sock_nonblock = (v, Some e, w\<lparr>trace := acc # h\<rparr>)" "err_code e = EAGAIN"
    using accept_cases(2)[OF kern, of ?w2 "ls s"] assms(8) by (auto simp: acc_def)
  obtain k where k: "fuel P = Suc (Suc k)" using fuel_two[OF assms(2)] .
  have "server_handle P epfd s w = handle_loop (Suc k) P epfd s ?w2"
    using acc new sent by (simp add: server_handle_def k handle_loop_Suc[of "Suc k"] del: handle_loop.simps)
  also have "\<dots> = Inr (s, w\<lparr>trace := acc # h\<rparr>)" using again by (simp add: handle_loop_Suc)
  finally show ?thesis .
qed

text \<open>Such a server exists: the demonstration kernel has memory for all of its clients.\<close>

lemma demo_filled:
  assumes "n \<le> max_pools * max_clients_in_pool"
  shows "\<exists>w s pls k. good (demo rs) w s pls \<and> trace w = replicate k pool_map_call \<and> k \<le> length pls \<and> length (clients pls) = n"
  using assms
proof (induction n)
  case 0
  show ?case
    by (rule demo_pool_made[of rs]) (force simp: clients_def intro!: exI[of _ "Suc 0"])
next
  case (Suc n)
  then obtain w s pls k where g: "good (demo rs) w s pls" "trace w = replicate k pool_map_call" "k \<le> length pls" "length (clients pls) = n"
    by auto
  note ok = good_parts(1)[OF g(1)]
  have len: "length pls \<le> max_pools" "n_pls s = length pls" using ok by (simp_all add: server_ok_def)
  have fresh: "kernel_fresh (kern (demo rs)) (statics (demo rs))" using demo_fresh by simp
  have room: "length pls < max_pools" if "\<forall>(q, fs, us) \<in> set pls. fs = []"
    using full_count[OF ok that] g(4) Suc.prems by (simp add: max_clients_in_pool_def)
  show ?case
  proof (cases rule: session_new_spec[OF demo_platform fresh good_parts(4)[OF g(1)]])
    case 1
    from room[OF 1(3)] g(3) have "k < 16" by (simp add: max_pools_def)
    with 1(2) demo_maps[of k rs] show ?thesis by (simp add: g(2))
  next
    case 2
    from room[OF 2(3)] 2(2) show ?thesis by simp
  next
    case (3 c s' w' pls')
    note O = opened_after[OF g(1) 3(2)]
    have none: "registered (demo_kernel rs) (replicate j pool_map_call) = {}" for j
      by (induction j) (simp_all add: pool_map_call_def mmap_call_def syscall_numbers)
    obtain k' where t: "trace w' = replicate k' pool_map_call"
      using 3(3) g(2) by (metis replicate_Suc)
    have good: "good (demo rs) (on_mem (init_client c 5) w') s' pls'"
      by (rule setup_good(1)[OF demo_platform O(1,3) O(6)]) (simp_all add: t none)
    have ok': "server_ok (demo rs) (wmem (on_mem (init_client c 5) w')) s' pls'" by (rule good_parts(1)[OF good])
    have "set (clients pls') = insert c (set (clients pls))" using 3(2) by (simp add: opened_def)
    then have n: "length (clients pls') = Suc n"
      using distinct_card[OF clients_distinct[OF ok]] distinct_card[OF clients_distinct[OF ok']] O(5) g(4) by simp
    have "k' \<le> length pls'"
      using 3(3)
    proof (elim disjE conjE)
      assume "s' = s" "trace w' = trace w"
      then show ?thesis using t g(2,3) len(2) ok' by (simp add: server_ok_def)
    next
      assume a: "trace w' = pool_map_call # trace w" "\<forall>(q, fs, us) \<in> set pls. fs = []"
      have "length pls * max_clients_in_pool < length pls' * max_clients_in_pool"
        using full_count[OF ok a(2)] clients_and_free[OF ok'] n g(4) by linarith
      then have "Suc (length pls) \<le> length pls'" by simp
      moreover have "k' = Suc k" using a(1) t g(2) by (metis length_replicate length_Cons)
      ultimately show ?thesis using g(3) by simp
    qed
    with good t n show ?thesis by (intro exI conjI) (assumption | simp add: on_mem_def)+
  qed
qed

theorem full_server_refuses_witness:
  "\<exists>s w. length (connected s (wmem w)) = 16368 \<and> server_handle (demo []) 0 s w =
     Inr (s, w\<lparr>trace := accept_call (ls s) # close_call 5 # write_call 5 (demo_lit limit_conn_msg) (bytes_of limit_conn_msg) #
       accept_call (ls s) # trace w\<rparr>)"
proof -
  obtain w s pls k where g: "good (demo []) w s pls" "trace w = replicate k pool_map_call" "length (clients pls) = 16368"
    using demo_filled[of 16368 "[]"] by (auto simp: max_pools_def max_clients_in_pool_def)
  have con: "length (connected s (wmem w)) = max_pools * max_clients_in_pool"
    using g(3) good_connected[OF g(1)] by (simp add: max_pools_def max_clients_in_pool_def)
  let ?acc = "accept_call (ls s)"
  have reply: "demo_reply [] ?acc h = (if 0 < calls_before ?acc h then -11 else 5, 0, [])" for h
    by (simp add: demo_reply_def Let_def syscall_numbers accept_call_def)
  have none: "filter (\<lambda>d. sc_nr d = sc_nr ?acc) (trace w) = []"
    by (simp add: g(2) accept_call_def pool_map_call_def mmap_call_def syscall_numbers)
  then have first: "kern (demo []) (?acc # trace w) = \<lparr>rax = 5, out_ptr = 0, out_bytes = []\<rparr>"
    by (simp add: demo_kernel_reply reply calls_before_def)
  have "server_handle (demo []) 0 s w = Inr (s, w\<lparr>trace := ?acc # close_call 5 #
      write_call 5 (lit (demo []) limit_conn_msg) (bytes_of limit_conn_msg) # ?acc # trace w\<rparr>)"
    by (rule full_server_refuses[OF demo_platform g(1) con])
      (simp_all add: first succeeded_def drained_def demo_kernel_reply reply calls_before_def none word_le_nat_alt)
  with con show ?thesis by (intro exI conjI) (assumption | simp add: max_pools_def max_clients_in_pool_def)+
qed

end
