(* ===== verification/Leaving.thy ===== *)
theory Leaving
  imports Listening
begin

text \<open>
  Clients that hang up, and the progress of the loop. The end of a connection is a read of no bytes;
  a read into a full buffer, which asks for none, looks the same to the program.
\<close>

section \<open>The end of a connection\<close>

context client_reader
begin

lemma loop_ends:
  fixes w :: world
  assumes plat: "platform_ok P" and b: "b \<le> N" and d: "arrives P (trace w) (read_at (wmem w) b) []"
  shows "loop (Suc i) (of_nat b) s w = at_end s (w\<lparr>trace := read_at (wmem w) b # trace w\<rparr>)"
proof -
  have kern: "kernel_ok (kern P)" using plat by (simp add: platform_ok_def)
  from arrived_read(1)[OF kern d] show ?thesis by (simp add: loop_Suc read_args[OF b])
qed

end

text \<open>The farewell does not depend on what is written outside the names and descriptors.\<close>

lemma left_calls_same:
  assumes g: "good P w s pls" and c: "c \<in> set (clients pls)"
    and tail: "agree (span (c + 520) 48) (wmem w) m"
    and fds: "\<And>d. d \<in> set (clients pls) \<Longrightarrow> d \<noteq> c \<Longrightarrow> cl_fd m d = cl_fd (wmem w) d"
  shows "left_calls P m c pls = left_calls P (wmem w) c pls"
proof -
  obtain n where n: "cl_name_used (wmem w) c = of_nat n" "n \<le> 32" using counter_bounds[OF g c] by metis
  then have sn: "nat (sint (cl_name_used (wmem w) c)) = n" using sint_of_nat32[of n] by simp
  have "agree (span (cl_name c) n) (wmem w) m"
    unfolding cl_name_def using n(2) by (intro agree_mono[OF tail span_mono]) simp
  then have "ld_bytes m (cl_name c) n = ld_bytes (wmem w) (cl_name c) n"
    using n(2) by (intro ld_bytes_cong) (auto simp: agree_def span_def)
  then have "used_name m c = used_name (wmem w) c"
    by (simp add: used_name_def tail_agree(1)[OF tail] sn)
  moreover have "to_others P m buf tx c pls = to_others P (wmem w) buf tx c pls" for buf tx
    using fds by (simp add: to_others_def)
  ultimately show ?thesis by (simp add: left_calls_def tail_agree(2)[OF tail])
qed

text \<open>The last line of a client, if a complete one is pending, and the calls that send it.\<close>

definition last_line :: "platform \<Rightarrow> world \<Rightarrow> u64 \<Rightarrow> pools \<Rightarrow> sys_call list \<Rightarrow> bool" where
  "last_line P w c pls cs \<longleftrightarrow>
    (if cl_name_ok (wmem w) c = 1 \<and> 10 \<in> set (pending (wmem w) c) then
       let stamp = clock_stamp P (trace w); tx = name_of (wmem w) c @ stamp_text stamp @ first_line (pending (wmem w) c)
       in \<exists>ts. stamp_calls P stamp ts \<and> cs = to_others P (wmem w) (stk P ''check_line_and_send.msg'') tx c pls @ ts
     else cs = [])"

lemma last_line_sent:
  assumes plat: "platform_ok P" and g: "good P w s pls" and c: "c \<in> set (clients pls)"
    and named: "cl_name_ok (wmem w) c = 1"
  obtains w' cs where "check_line_and_send P c s w = Inr w'" "good P w' s pls" "last_line P w c pls cs"
    "trace w' = cs @ trace w" "cl_fd (wmem w') c = cl_fd (wmem w) c" "left_calls P (wmem w') c pls = left_calls P (wmem w) c pls"
proof (cases "10 \<in> set (pending (wmem w) c)")
  case True
  note G = good_parts[OF g]
  have lay: "layout_ok P" using plat by (simp add: platform_ok_def)
  let ?tx = "name_of (wmem w) c @ stamp_text (clock_stamp P (trace w)) @ first_line (pending (wmem w) c)"
  let ?to = "to_others P (wmem w) (stk P ''check_line_and_send.msg'') ?tx c pls"
  obtain w' ts where r: "check_line_and_send P c s w = Inr w'" "stamp_calls P (clock_stamp P (trace w)) ts"
    "trace w' = ?to @ ts @ trace w" "only (span (c + 4) 556 \<union> scratch P) (wmem w) (wmem w')"
    "agree (span (c + 520) 48) (wmem w) (wmem w')"
    using check_line_Some[OF plat G(1,3) c named True] by blast
  have good: "good P w' s pls" using check_line_good[OF plat g c named] r(1) by (metis sum.inject(2))
  have slot: "is_slot pls d" if "d \<in> set (clients pls)" for d using clients_slots[OF G(1) that] .
  have fds: "cl_fd (wmem w') d = cl_fd (wmem w) d" if d: "d \<in> set (clients pls)" for d
  proof (cases "d = c")
    case True
    have "span c 4 \<inter> span (c + 4) 556 = {}" by (rule disj_spans) (simp add: disj_def)
    moreover have "span c 4 \<inter> scratch P = {}"
      using scratch_outside(1)[OF G(1) slot[OF c]] client_part[of 0 4 c] by (auto simp: statics_def)
    ultimately show ?thesis unfolding True cl_fd_def by (intro c32.only_ld[OF r(4)]) auto
  next
    case False
    have "client_span d \<inter> (span (c + 4) 556 \<union> scratch P) = {}"
      using slots_disjoint[OF G(1) slot[OF d] slot[OF c] False] scratch_outside(1)[OF G(1) slot[OF d]]
        client_part[of 4 556 c] by (auto simp: statics_def)
    then show ?thesis by (rule client_agree(1)[OF only_agree[OF r(4)]])
  qed
  have "last_line P w c pls (?to @ ts)" using r(2) named True by (auto simp: last_line_def Let_def)
  from that[OF r(1) good this] r(3) fds c left_calls_same[OF g c r(5) fds] show ?thesis by simp
next
  case False
  from that[OF check_line_None[OF False] g, of "[]"] False show ?thesis by (simp add: last_line_def)
qed

section \<open>Hanging up\<close>

lemma closes_after:
  assumes plat: "platform_ok P" and g: "good P w s pls" and c: "c \<in> set (clients pls)"
  obtains s' w' pls' cs where "session_close P c s w = Inr (s', w')" "good P w' s' pls'"
    "clients pls' = filter (\<lambda>d. d \<noteq> c) (clients pls)" "gave_up P c pls pls' cs"
    "trace w' = cs @ close_call (cl_fd (wmem w) c) # left_calls P (wmem w) c pls @ trace w"
proof -
  have live: "live_ok (wmem w) d" if "d \<in> set (clients pls)" "d \<noteq> c" for d using good_live[OF g that(1)] .
  from close_settles[OF plat good_parts(4,5)[OF g] c live] that show ?thesis unfolding settled_def by metis
qed

definition next_read :: "platform \<Rightarrow> mem \<Rightarrow> u64 \<Rightarrow> sys_call" where
  "next_read P m c = (if cl_name_ok m c = 0 then name_reading P m c else line_reading P m c)"

lemma reading_ends:
  assumes plat: "platform_ok P" and g: "good P w s pls" and c: "c \<in> set (clients pls)"
    and d: "arrives P (trace w) (next_read P (wmem w) c) []"
  defines "w1 \<equiv> w\<lparr>trace := next_read P (wmem w) c # trace w\<rparr>"
  shows "(if cl_name_ok (wmem w) c = 0 then session_name_read P c s w else session_line_read P c s w) =
    andthen (if cl_name_ok (wmem w) c = 0 then Inr w1 else check_line_and_send P c s w1) (session_close P c s)"
proof -
  obtain b n where b: "cl_buf_used (wmem w) c = of_nat b" "b \<le> 512" and n: "cl_name_used (wmem w) c = of_nat n" "n \<le> 32"
    using counter_bounds[OF g c] .
  have sb: "nat (sint (cl_buf_used (wmem w) c)) = b" "nat (sint (cl_name_used (wmem w) c)) = n"
    using b n sint_of_nat32[of b] sint_of_nat32[of n] by simp_all
  obtain f where f: "fuel P = Suc f" using fuel_two[OF plat] by metis
  show ?thesis
  proof (cases "cl_name_ok (wmem w) c = 0")
    case True
    have nr: "next_read P (wmem w) c = read_call (cl_fd (wmem w) c) (c + 520 + of_nat n) (of_nat (32 - n))"
      using True sb(2) by (simp add: next_read_def name_reading_def received_def cl_name_def max_name_len_def)
    from name_reader.loop_ends[OF plat n(2) d[unfolded nr], where s = s] True nr show ?thesis
      by (cases "session_close P c s w1")
        (simp_all add: session_name_read_def n(1) f close_and_stop_def w1_def split_def)
  next
    case False
    have nr: "next_read P (wmem w) c = read_call (cl_fd (wmem w) c) (c + 8 + of_nat b) (of_nat (512 - b))"
      using False sb(1) by (simp add: next_read_def line_reading_def pending_def cl_buf_def max_line_len_def)
    from line_reader.loop_ends[OF plat b(2) d[unfolded nr], where s = s] False nr show ?thesis
      by (cases "check_line_and_send P c s w1")
        (auto simp: session_line_read_def b(1) f close_and_stop_def w1_def andthen_def split: sum.split prod.split)
  qed
qed

text \<open>
  C12: A client that hangs up, named or not. If it is named and a complete line is pending, the first
  such line is sent on; then, if it is named, every other client is told that it has left; its
  descriptor is closed, once, and exactly this client is removed. The calls appear in this order,
  newest first, and there are no others but the unmapping of a pool that has become empty.
\<close>

theorem hangup_announced:
  assumes "platform_ok P" and "good P w s pls" and "c \<in> set (clients pls)"
    and "arrives P (trace w) (next_read P (wmem w) c) []"
  defines "w1 \<equiv> w\<lparr>trace := next_read P (wmem w) c # trace w\<rparr>"
  shows "\<exists>s' w' pls' us said. (if cl_name_ok (wmem w) c = 0 then session_name_read P c s w else session_line_read P c s w) =
      Inr (s', w') \<and> good P w' s' pls' \<and>
    connected s' (wmem w') = filter (\<lambda>d. d \<noteq> c) (connected s (wmem w)) \<and>
    trace w' = us @ close_call (cl_fd (wmem w) c) #
      (if cl_name_ok (wmem w) c = 1
       then to_others P (wmem w) (stk P ''session_close.msg'') (used_name (wmem w) c @ bytes_of left_msg) c pls
       else []) @ said @ trace w1 \<and>
    last_line P w1 c pls said \<and> gave_up P c pls pls' us"
proof -
  have "ordinary (next_read P (wmem w) c)"
    by (simp add: ordinary_def next_read_def name_reading_def line_reading_def Let_def read_call_def syscall_numbers)
  then have g1: "good P w1 s pls" unfolding w1_def by (rule calm_good[OF calmI assms(2)])
  have m1: "wmem w1 = wmem w" by (simp add: w1_def)
  note ends = reading_ends[OF assms(1-4), folded w1_def]
  obtain w2 said where w2: "(if cl_name_ok (wmem w) c = 0 then Inr w1 else check_line_and_send P c s w1) = Inr w2"
    "good P w2 s pls" "last_line P w1 c pls said" "trace w2 = said @ trace w1" "cl_fd (wmem w2) c = cl_fd (wmem w) c"
    "left_calls P (wmem w2) c pls = left_calls P (wmem w) c pls"
  proof (cases "cl_name_ok (wmem w) c = 0")
    case True
    then show ?thesis using that[of w1 "[]"] g1 by (simp add: last_line_def m1)
  next
    case False
    then have "cl_name_ok (wmem w1) c = 1" using good_stale[OF assms(2,3)] by (simp add: stale_ok_def m1)
    from last_line_sent[OF assms(1) g1 assms(3) this] that False show ?thesis unfolding m1 by auto
  qed
  obtain s' w' pls' us where r: "session_close P c s w2 = Inr (s', w')" "good P w' s' pls'"
    "clients pls' = filter (\<lambda>d. d \<noteq> c) (clients pls)" "gave_up P c pls pls' us"
    "trace w' = us @ close_call (cl_fd (wmem w2) c) # left_calls P (wmem w2) c pls @ trace w2"
    by (rule closes_after[OF assms(1) w2(2) assms(3)])
  show ?thesis
    unfolding ends w2(1) andthen_simps
    using r w2(3-6) good_connected[OF r(2)] good_connected[OF assms(2)]
    by (intro exI[of _ s'] exI[of _ w'] exI[of _ pls'] exI[of _ us] exI[of _ said]) (simp add: left_calls_def)
qed

theorem hangup_announced_witness:
  "\<exists>s w s' w' c d us tx h. session_line_read (demo [[]]) c s w = Inr (s', w') \<and>
    connected s (wmem w) = [c, d] \<and> connected s' (wmem w') = [d] \<and> pending (wmem w) c = [104, 105, 10] \<and>
    trace w' = us @ close_call (cl_fd (wmem w) c) #
      write_call (cl_fd (wmem w) d) (demo_stk ''session_close.msg'') (used_name (wmem w) c @ bytes_of left_msg) #
      write_call (cl_fd (wmem w) d) (demo_stk ''check_line_and_send.msg'') (tx @ [104, 105, 10]) # h"
proof -
  let ?P = "demo [[]]"
  obtain s w pls c d where g: "good ?P w s pls" "clients pls = [c, d]" "c \<noteq> d" "trace w = [pool_map_call]"
    "cl_name_ok (wmem w) c = 1" "pending (wmem w) c = [104, 105, 10]" by (rule demo_line)
  have c: "c \<in> set (clients pls)" using g(2) by simp
  have "delivers ?P (trace w) (next_read ?P (wmem w) c) []"
    unfolding g(4) next_read_def line_reading_def g(6) Let_def using g(5)
    by (simp only: if_False one_neq_zero) (rule demo_delivers[OF demo_first_read], simp_all)
  then have a: "arrives ?P (trace w) (next_read ?P (wmem w) c) []" by (simp add: delivers_def)
  let ?w1 = "w\<lparr>trace := next_read ?P (wmem w) c # trace w\<rparr>"
  obtain s' w' pls' us said where r: "session_line_read ?P c s w = Inr (s', w')"
    "connected s' (wmem w') = filter (\<lambda>d. d \<noteq> c) (connected s (wmem w))" "last_line ?P ?w1 c pls said"
    "trace w' = us @ close_call (cl_fd (wmem w) c) #
      to_others ?P (wmem w) (demo_stk ''session_close.msg'') (used_name (wmem w) c @ bytes_of left_msg) c pls @
      said @ trace ?w1"
    using hangup_announced[OF demo_platform g(1) c a] g(5) by auto
  let ?tx = "name_of (wmem w) c @ stamp_text (clock_stamp ?P (trace ?w1))"
  obtain ts where "said = to_others ?P (wmem w) (demo_stk ''check_line_and_send.msg'') (?tx @ [104, 105, 10]) c pls @ ts"
    using r(3) g(5,6) by (auto simp: last_line_def first_line_def Let_def)
  then have "trace w' = us @ close_call (cl_fd (wmem w) c) #
      write_call (cl_fd (wmem w) d) (demo_stk ''session_close.msg'') (used_name (wmem w) c @ bytes_of left_msg) #
      write_call (cl_fd (wmem w) d) (demo_stk ''check_line_and_send.msg'') (?tx @ [104, 105, 10]) # ts @ trace ?w1"
    using r(4) g(2,3) by (simp add: to_others_def)
  moreover have "connected s (wmem w) = [c, d]" using good_connected[OF g(1)] g(2) by simp
  ultimately show ?thesis using r(1,2) g(3,6) by (intro exI conjI) (assumption | simp)+
qed

section \<open>The loop goes on\<close>

text \<open>
  The only event whose handling may not end is that of the listening socket: the kernel may go on
  answering with connections or errors for longer than the fuel, or refuse memory for a new pool.
\<close>

definition accepting_stops :: "platform \<Rightarrow> u32 \<Rightarrow> phase \<Rightarrow> bool" where
  "accepting_stops P epfd ph \<longleftrightarrow> (\<exists>i n s w. ph = Handling i n s w \<and> i < n \<and>
     event_ptr (wmem w) (evt_at P) i = serv_ptr P \<and>
     server_handle P epfd s w \<in> {Inl Out_of_fuel, Inl (Exited 1)})"

lemma wait_goes_on:
  assumes env: "env_ok P" and ok: "phase_ok P (Waiting s w)"
  shows "\<exists>ph. go_step P epfd (Waiting s w) ph"
proof -
  have plat: "platform_ok P" using env by (simp add: env_ok_def)
  obtain pls where g: "good P w s pls" using ok by (auto simp: phase_ok_def)
  obtain v err w1 where c: "sys_epoll_wait P w epfd (evt_at P) (of_nat max_events) (-1) = (v, err, w1)"
    by (metis prod_cases3)
  show ?thesis
  proof (cases err)
    case None
    with c show ?thesis by (blast intro: woken)
  next
    case (Some e)
    show ?thesis
    proof (cases "err_code e = EINTR")
      case True
      with c Some show ?thesis by (blast intro: interrupted)
    next
      case False
      have g1: "good P w1 s pls" by (rule waited_ok(1)[OF env g c])
      obtain j w2 where "fmt_fprintf P w1 stderr (lit P wait_error_format) [lit P (err_msg e)] = Inr (j, w2)"
        by (rule report_good[OF plat g1 literals_in(13) format_args(8), where args = "[lit P (err_msg e)]"]) auto
      with c Some False show ?thesis by (blast intro: failed)
    qed
  qed
qed

lemma handling_goes_on:
  assumes env: "env_ok P" and un: "uninterrupted P" and ok: "phase_ok P (Handling i n s w)" and i: "i < n"
  shows "(\<exists>s' w'. go_step P epfd (Handling i n s w) (Handling (Suc i) n s' w')) \<or> accepting_stops P epfd (Handling i n s w)"
proof -
  have plat: "platform_ok P" and fresh: "kernel_fresh (kern P) (statics P)" using env by (simp_all add: env_ok_def)
  obtain pls where g: "good P w s pls" and ev: "events_known P i n w (clients pls)" using ok by (auto simp: phase_ok_def)
  let ?e = "event_ptr (wmem w) (evt_at P) i"
  have "?e \<in> set (events_left P i n w)" using i by (simp add: events_left_def)
  then have e: "?e = serv_ptr P \<or> ?e \<in> set (clients pls)" using ev by (auto simp: events_known_def)
  show ?thesis
  proof (cases "?e = serv_ptr P")
    case True
    then have run: "handle_event P epfd ?e s w = server_handle P epfd s w" by (simp add: handle_event_def serv_ptr_def)
    show ?thesis
    proof (cases rule: handle_event_spec[OF plat fresh g e, of epfd])
      case (3 s' w' pls')
      then show ?thesis using handled[OF i 3(1)] by blast
    qed (use run i True in \<open>auto simp: accepting_stops_def\<close>)
  next
    case False
    then have c: "?e \<in> set (clients pls)" using e by simp
    have "\<exists>y. handle_event P epfd ?e s w = Inr y"
    proof (cases "cl_name_ok (wmem w) ?e = 0")
      case True
      then show ?thesis
        using session_name_read_spec(2)[OF plat g c True un] False by (simp add: handle_event_def serv_ptr_def)
    next
      case named: False
      then have "cl_name_ok (wmem w) ?e = 1" using good_stale[OF g c] by (auto simp: stale_ok_def)
      then show ?thesis
        using session_line_read_spec(2)[OF plat g c _ un] False named by (simp add: handle_event_def serv_ptr_def)
    qed
    then obtain s' w' where "handle_event P epfd ?e s w = Inr (s', w')" by auto
    from handled[OF i this] show ?thesis by blast
  qed
qed

lemma batch_ends:
  assumes env: "env_ok P" and un: "uninterrupted P" and ok: "phase_ok P (Handling i n s w)"
  shows "(\<exists>s' w'. (go_step P epfd)\<^sup>*\<^sup>* (Handling i n s w) (Waiting s' w')) \<or>
    (\<exists>ph. (go_step P epfd)\<^sup>*\<^sup>* (Handling i n s w) ph \<and> accepting_stops P epfd ph)"
  using ok
proof (induction "n - i" arbitrary: i s w)
  case 0
  then have "i = n" by (auto simp: phase_ok_def events_known_def)
  then show ?case using finished[of P epfd n s w] by blast
next
  case (Suc k)
  then have i: "i < n" "k = n - Suc i" by simp_all
  from handling_goes_on[OF env un Suc.prems i(1), of epfd] show ?case
  proof (elim disjE exE)
    fix s' w' assume st: "go_step P epfd (Handling i n s w) (Handling (Suc i) n s' w')"
    from Suc.hyps(1)[OF i(2) phase_inv_step(1)[OF env Suc.prems st]] show ?thesis
      using converse_rtranclp_into_rtranclp[of "go_step P epfd", OF st] by blast
  qed blast
qed

text \<open>
  C4: As long as reads are not interrupted, the loop always comes back: from every state that it
  can reach, the batch of events at hand is handled to its end, the loop waits, and the wait is
  followed by a next step. The only way not to is the handling of the listening socket, if the
  kernel keeps it busy beyond the fuel or refuses memory for a new pool.
\<close>

theorem loop_comes_back:
  assumes "env_ok P" and "uninterrupted P" and "booted P epfd ph0" and "(go_step P epfd)\<^sup>*\<^sup>* ph0 ph"
  shows "(\<exists>s w ph'. (go_step P epfd)\<^sup>*\<^sup>* ph (Waiting s w) \<and> go_step P epfd (Waiting s w) ph') \<or>
    (\<exists>ph'. (go_step P epfd)\<^sup>*\<^sup>* ph ph' \<and> accepting_stops P epfd ph')"
proof -
  have inv: "phase_ok P ph'" if "(go_step P epfd)\<^sup>*\<^sup>* ph ph'" for ph'
    using chat.inv_reachable[OF _ rtranclp_trans[OF assms(4) that]] assms(1,3) by simp
  have "(\<exists>s w. (go_step P epfd)\<^sup>*\<^sup>* ph (Waiting s w)) \<or> (\<exists>ph'. (go_step P epfd)\<^sup>*\<^sup>* ph ph' \<and> accepting_stops P epfd ph')"
  proof (cases ph)
    case (Handling i n s w)
    with batch_ends[OF assms(1,2)] inv[OF rtranclp.rtrancl_refl] show ?thesis by metis
  qed blast
  with inv wait_goes_on[OF assms(1)] show ?thesis by metis
qed

theorem loop_comes_back_witness:
  "\<exists>ph0 ph. booted (demo []) 0 ph0 \<and> go_step (demo []) 0 ph0 ph \<and>
    ((\<exists>s w ph'. (go_step (demo []) 0)\<^sup>*\<^sup>* ph (Waiting s w) \<and> go_step (demo []) 0 (Waiting s w) ph') \<or>
     (\<exists>ph'. (go_step (demo []) 0)\<^sup>*\<^sup>* ph ph' \<and> accepting_stops (demo []) 0 ph'))"
proof -
  obtain s w s' w' where b: "booted (demo []) 0 (Waiting s w)" "go_step (demo []) 0 (Waiting s w) (Handling 0 1 s' w')"
    by (rule demo_booted[of "[]"]) (elim exE, rule that)
  have "(go_step (demo []) 0)\<^sup>*\<^sup>* (Waiting s w) (Handling 0 1 s' w')" by (rule r_into_rtranclp) (rule b(2))
  from b(1) b(2) loop_comes_back[OF demo_env demo_uninterrupted b(1) this] show ?thesis by (intro exI conjI)
qed

end
