(* ===== verification/Rounds.thy ===== *)
theory Rounds
  imports Leaving
begin

text \<open>
  A whole round of the loop of \<^verbatim>\<open>server_go\<close>, from the wait to the writes: the path of a line
  through \<^verbatim>\<open>epoll_wait\<close>, the dispatch of the event, the read and the broadcast.
\<close>

section \<open>The wait leaves the clients alone\<close>

lemma events_outside:
  assumes g: "good P w s pls" and c: "c \<in> set (clients pls)" and o: "only (events_area P) (wmem w) m"
  shows "agree (client_span c) (wmem w) m" and "pending m c = pending (wmem w) c"
    and "name_of m c = name_of (wmem w) c"
proof -
  note ok = good_parts(1)[OF g]
  have apart: "client_span c \<inter> events_area P = {}"
    using scratch_outside(1)[OF ok clients_slots[OF ok c]] by (auto simp: statics_def)
  show a: "agree (client_span c) (wmem w) m" by (rule only_agree[OF o apart])
  have part: "ld_bytes m (c + k) n = ld_bytes (wmem w) (c + k) n" if "unat k + n \<le> 568" for k n
    using apart client_part[OF that, of c] that by (intro only_ld_bytes[OF o]) auto
  obtain b where b: "cl_buf_used (wmem w) c = of_nat b" "b \<le> 512" using counter_bounds[OF g c] by metis
  show "pending m c = pending (wmem w) c"
    using part[of 8 b] b by (simp add: pending_def client_agree(2)[OF a] cl_buf_def small_count)
  show "name_of m c = name_of (wmem w) c"
    using part[of 520 32] by (simp add: name_of_def cl_name_def max_name_len_def)
qed

text \<open>The call of the wait, and its result when one event is reported.\<close>

definition wait_call :: "platform \<Rightarrow> u32 \<Rightarrow> sys_call" where
  "wait_call P epfd = epoll_wait_call epfd (evt_at P) (of_nat max_events) (-1)"

lemma wait_world:
  assumes env: "env_ok P" and c: "sys_epoll_wait P w epfd (evt_at P) (of_nat max_events) (-1) = (v, None, w1)"
  shows "only (events_area P) (wmem w) (wmem w1)" and "trace w1 = wait_call P epfd # trace w"
proof -
  have kern: "kernel_ok (kern P)" and ep: "epoll_ok (kern P)" using env by (simp_all add: env_ok_def platform_ok_def)
  have "only (events_area P) (wmem w) (wmem w1)"
  proof (cases rule: wait_cases[OF kern ep, of w epfd])
    case (2 v' bs ws x)
    have "span (evt_at P) (length bs) \<subseteq> events_area P"
      unfolding events_area_def using 2(4,5) by (intro span_mono) simp
    then have "only (events_area P) (wmem w) (st_bytes (wmem w) (evt_at P) bs)" by (rule only_mono[OF only_st_bytes])
    then show ?thesis using 2(1) c by simp
  qed (use c in simp)
  moreover have "trace w1 = wait_call P epfd # trace w"
    using c by (auto simp: sys_epoll_wait_def syscall6_def syscall_raw_def epoll_wait_call_def wait_call_def
        split_def Let_def)
  ultimately show "only (events_area P) (wmem w) (wmem w1)" "trace w1 = wait_call P epfd # trace w" .
qed

lemma round_of_one:
  assumes "sys_epoll_wait P w epfd (evt_at P) (of_nat max_events) (-1) = (1, None, w1)"
    and "event_ptr (wmem w1) (evt_at P) 0 = c" and "c \<noteq> serv_ptr P" and "cl_name_ok (wmem w1) c = 1"
  shows "server_round P epfd s w = session_line_read P c s w1"
  using assms by (cases "session_line_read P c s w1")
    (auto simp: server_round_def handle_event_def serv_ptr_def Let_def)

section \<open>The path of a line\<close>

text \<open>
  C13: A line on its whole way through the program, in one round of the endless loop: the kernel wakes
  the server with one event, which names a client that has given its name, and one read delivers
  bytes that complete a line. Then the round ends, having made the wait, two reads, the call of the
  clock with its error message if that fails, and exactly one write to every other connected client
  of the sender's name, the time and the first complete line; the line is no longer pending, nobody
  has joined or left, and the server is in a good state again.
\<close>

theorem round_delivers_line:
  assumes "env_ok P" and "good P w s pls" and "c \<in> set (clients pls)" and "c \<noteq> serv_ptr P"
    and "cl_name_ok (wmem w) c = 1"
    and "sys_epoll_wait P w epfd (evt_at P) (of_nat max_events) (-1) = (1, None, w1)"
    and "event_ptr (wmem w1) (evt_at P) 0 = c"
    and "bs \<noteq> []" and "delivers P (wait_call P epfd # trace w) (line_reading P (wmem w) c) bs"
    and "10 \<in> set (pending (wmem w) c @ bs)"
  shows "let total = pending (wmem w) c @ bs; cl = line_reading P (wmem w) c;
      before = cl # cl # wait_call P epfd # trace w; stamp = clock_stamp P before;
      tx = name_of (wmem w) c @ stamp_text stamp @ first_line total
    in \<exists>w' cs. server_round P epfd s w = Inr (s, w') \<and> good P w' s pls \<and> stamp_calls P stamp cs \<and>
      pending (wmem w') c = drop (length (first_line total)) total \<and>
      trace w' = to_others P (wmem w) (stk P ''check_line_and_send.msg'') tx c pls @ cs @ before"
proof -
  have plat: "platform_ok P" using assms(1) by (simp add: env_ok_def)
  note W = wait_world[OF assms(1,6)]
  have g1: "good P w1 s pls" by (rule waited_ok(1)[OF assms(1,2,6)])
  note same = events_outside[OF assms(2) _ W(1)]
  note a = client_agree[OF same(1)[OF assms(3)]]
  have named: "cl_name_ok (wmem w1) c = 1" using a(4) assms(5) by simp
  have lr: "line_reading P (wmem w1) c = line_reading P (wmem w) c"
    by (simp only: line_reading_def same(2)[OF assms(3)] a(1))
  have fds: "to_others P (wmem w1) m tx c pls = to_others P (wmem w) m tx c pls" for m tx
    using client_agree(1)[OF same(1)] by (auto simp: to_others_def)
  have "delivers P (trace w1) (line_reading P (wmem w1) c) bs" unfolding W(2) lr by (rule assms(9))
  from line_delivered[OF plat g1 assms(3) named assms(8) this] show ?thesis
    unfolding round_of_one[OF assms(6,7,4) named] lr same(2,3)[OF assms(3)] fds W(2)
    using assms(10) by (auto simp: Let_def)
qed

text \<open>
  On the demonstration platform: the named client is registered, so the next wait reports it, and
  the first read delivers its line.
\<close>

lemma demo_client_place:
  assumes g: "good (demo rs) w s pls" and c: "c \<in> set (clients pls)" and t: "trace w = [pool_map_call]"
  shows "c \<noteq> serv_ptr (demo rs)"
proof
  assume eq: "c = serv_ptr (demo rs)"
  have "span c 1 \<subseteq> client_span c" using client_part[of 0 1 c] by simp
  then have "c \<in> client_span c" using in_span_of_nat[of 0 1 c] by auto
  then have "c \<in> mapped (demo_kernel rs) [pool_map_call]"
    using client_area[OF good_parts(1)[OF g] c] good_parts(2)[OF g] unfolding blocks_mapped_def t demo_simps
    by blast
  moreover have nr: "sc_nr pool_map_call = s_mmap" by (simp add: pool_map_call_def mmap_call_def)
  ultimately have "c \<in> span (demo_region 0) (unat (sc_args pool_map_call ! 1))"
    using demo_map_succeeds(1)[OF nr demo_maps[of 0 rs, simplified]] demo_maps[of 0 rs] by (simp add: maps_of_def)
  moreover have "unat (sc_args pool_map_call ! 1) \<le> 0x10000000000"
    using demo_map_succeeds(3)[OF nr demo_maps[of 0 rs, simplified]] .
  ultimately have "0x10000000 \<le> unat c" by (subst (asm) demo_map_span) simp_all
  moreover have "serv_ptr (demo rs) = 0x501000 + of_nat (4096 * index_of ''_start.serv'' (map fst locals))"
    by (simp add: serv_ptr_def demo_stk_def)
  then have "serv_ptr (demo rs) = 0x50A000" by (simp add: index_of_def locals_def)
  ultimately show False using eq by simp
qed

lemma demo_registered:
  obtains s w pls c d where "good (demo rs) w s pls" "clients pls = [c, d]" "c \<noteq> d"
    "cl_name_ok (wmem w) c = 1" "pending (wmem w) c = []" "c \<noteq> serv_ptr (demo rs)"
    "\<exists>m. trace w = [ctl_call (demo rs) m 0 (cl_fd (wmem w) c) (demo_stk ''server_go.ev''), pool_map_call] \<and>
       event_data (ld_bytes m (demo_stk ''server_go.ev'') 12) = c"
proof -
  obtain s w pls c d where g: "good (demo rs) w s pls" "clients pls = [c, d]" "c \<noteq> d" "trace w = [pool_map_call]"
    "cl_name_ok (wmem w) c = 1" "pending (wmem w) c = []" by (rule demo_members)
  have c: "c \<in> set (clients pls)" using g(2) by simp
  let ?ev = "demo_stk ''server_go.ev''"
  have st: "only (scratch (demo rs)) m (store_event ?ev e p m)" for m e p
    using store_event_only[OF locals_in(7), of "demo rs" m e p] by simp
  have g2: "good (demo rs) (on_mem (store_event ?ev EPOLLIN_EPOLLET c) w) s pls"
    by (rule good_mem[OF demo_platform g(1)]) (rule st)
  define w2 where "w2 = on_mem (store_event ?ev EPOLLIN_EPOLLET c) w"
  have t2: "trace w2 = [pool_map_call]" by (simp add: w2_def on_mem_def g(4))
  let ?x = "ctl_call (demo rs) (wmem w2) 0 (cl_fd (wmem w2) c) ?ev"
  have d: "event_data (ld_bytes (wmem w2) ?ev 12) = c" by (simp add: on_mem_def store_event_data w2_def)
  have g2': "good (demo rs) w2 s pls" using g2 by (simp add: w2_def)
  note G = good_parts[OF g2']
  let ?w3 = "w2\<lparr>trace := ?x # trace w2\<rparr>"
  have nr: "sc_nr ?x = s_epoll_ctl" "sc_args ?x ! 2 = int_arg (cl_fd (wmem w2) c)" "sc_data ?x = ld_bytes (wmem w2) ?ev 12"
    by (simp_all add: ctl_call_def)
  have "state_ok (demo rs) ?w3 s pls"
    using G(4) nr(1) by (auto simp: state_ok_def blocks_mapped_def syscall_numbers)
  moreover have "watched (demo rs) ?w3 pls"
    using G(5) c d by (auto simp: watched_def nr int_arg_def ucast_back syscall_numbers split: if_splits)
  ultimately have g3: "good (demo rs) ?w3 s pls" using G(3) by (simp add: good_def)
  have o: "only (scratch (demo rs)) (wmem w) (wmem w2)" by (simp add: w2_def on_mem_def st)
  have ap: "client_span c \<inter> scratch (demo rs) = {}"
    using scratch_outside(1)[OF good_parts(1)[OF g(1)] clients_slots[OF good_parts(1)[OF g(1)] c]]
    by (auto simp: statics_def)
  have ag: "agree (client_span c) (wmem w) (wmem w2)" by (rule only_agree[OF o ap])
  have "cl_buf_used (wmem w) c = 0"
  proof -
    obtain b where b: "cl_buf_used (wmem w) c = of_nat b" "b \<le> 512" using counter_bounds[OF g(1) c] by metis
    have "length (pending (wmem w) c) = b" using b by (simp add: pending_def small_count)
    then show ?thesis using g(6) b(1) by simp
  qed
  then have "pending (wmem w2) c = []" by (simp add: pending_def client_agree(2)[OF ag])
  moreover have "cl_name_ok (wmem w2) c = 1" using client_agree(4)[OF ag] g(5) by simp
  moreover have "c \<noteq> serv_ptr (demo rs)" by (rule demo_client_place[OF g(1) c g(4)])
  moreover have "\<exists>m. trace ?w3 = [ctl_call (demo rs) m 0 (cl_fd (wmem ?w3) c) ?ev, pool_map_call] \<and>
      event_data (ld_bytes m ?ev 12) = c"
    using d by (intro exI[of _ "wmem w2"]) (simp add: t2)
  ultimately show ?thesis using that[OF g3 g(2,3)] by simp
qed

theorem round_delivers_line_witness:
  "\<exists>s w w' c d. server_round (demo [[104, 105, 10, 120]]) 0 s w = Inr (s, w') \<and> pending (wmem w) c = [] \<and>
    pending (wmem w') c = [120] \<and> (\<exists>tx h. trace w' =
      write_call (cl_fd (wmem w) d) (demo_stk ''check_line_and_send.msg'') (tx @ [104, 105, 10]) # h)"
proof -
  let ?P = "demo [[104, 105, 10, 120]]" and ?bs = "[104, 105, 10, 120] :: u8 list"
  obtain s w pls c d m where g: "good ?P w s pls" "clients pls = [c, d]" "c \<noteq> d"
    "cl_name_ok (wmem w) c = 1" "pending (wmem w) c = []" "c \<noteq> serv_ptr ?P"
    and t: "trace w = [ctl_call ?P m 0 (cl_fd (wmem w) c) (demo_stk ''server_go.ev''), pool_map_call]"
    and ev: "event_data (ld_bytes m (demo_stk ''server_go.ev'') 12) = c"
    by (rule demo_registered) blast
  have c: "c \<in> set (clients pls)" using g(2) by simp
  let ?data = "ld_bytes m (demo_stk ''server_go.ev'') 12" and ?x = "wait_call ?P 0"
  have data: "ctl_data (trace w) = ?data" unfolding t by (simp add: ctl_data_def ctl_call_def)
  have "?data \<noteq> []" using length_ld_bytes[of m "demo_stk ''server_go.ev''" 12] by (metis list.size(3) numeral_eq_Suc nat.distinct(1))
  then have reply: "demo_reply [?bs] ?x (trace w) = (1, evt_at ?P, ?data)"
    by (auto simp: demo_reply_def Let_def data wait_call_def epoll_wait_call_def syscall_numbers int_arg_def max_events_def)
  define w1 where "w1 = w\<lparr>wmem := st_bytes (wmem w) (evt_at ?P) ?data, trace := ?x # trace w\<rparr>"
  have raw: "syscall_raw ?P w ?x = (\<lparr>r1 = 1, errno = 0\<rparr>, w1)"
    by (simp add: syscall_raw_def demo_kernel_reply reply Let_def decode_rax_def word_le_nat_alt w1_def)
  have wait: "sys_epoll_wait ?P w 0 (evt_at ?P) (of_nat max_events) (-1) = (1, None, w1)"
    using raw unfolding wait_call_def
    by (simp add: sys_epoll_wait_def syscall6_def epoll_wait_call_def split_def Let_def)
  have "event_ptrs ?data = [c]" using ev by (simp add: event_ptrs_def)
  then have ptr: "event_ptr (wmem w1) (evt_at ?P) 0 = c"
    using stored_events[of ?data 1 0 "wmem w" "evt_at ?P"] by (simp add: w1_def max_events_def)
  have none: "calls_before (read_call fd a n) (?x # trace w) = 0" for fd a n
    by (simp add: t calls_before_def read_call_def pool_map_call_def mmap_call_def ctl_call_def wait_call_def
        epoll_wait_call_def syscall_numbers)
  have del: "delivers ?P (?x # trace w) (line_reading ?P (wmem w) c) ?bs"
    unfolding line_reading_def g(5) Let_def by (rule demo_delivers[OF none]) (simp_all add: max_line_len_def)
  let ?cl = "line_reading ?P (wmem w) c"
  let ?tx = "name_of (wmem w) c @ stamp_text (clock_stamp ?P (?cl # ?cl # ?x # trace w))"
  obtain w' cs where "server_round ?P 0 s w = Inr (s, w')" "pending (wmem w') c = [120]"
    "trace w' = to_others ?P (wmem w) (demo_stk ''check_line_and_send.msg'') (?tx @ [104, 105, 10]) c pls @
      cs @ ?cl # ?cl # ?x # trace w"
    using round_delivers_line[OF demo_env g(1) c g(6,4) wait ptr _ del]
    by (simp add: Let_def g(5) first_line_def) blast
  then show ?thesis using g(2,3,5)
    by (intro exI[of _ s] exI[of _ w] exI[of _ w'] exI[of _ c] exI[of _ d])
      (auto simp: to_others_def intro!: exI[of _ ?tx])
qed

end
