(* ===== verification/Slice_Alloc.thy ===== *)
theory Slice_Alloc
  imports Arena
begin

text \<open>
  The slices that \<^verbatim>\<open>lib/cfa/src/builtin.c\<close> allocates in its global arena: \<^verbatim>\<open>make_slice\<close>,
  \<^verbatim>\<open>grow_slice\<close> with its capacity rule, \<^verbatim>\<open>sl_to_str_new_base\<close> and \<^verbatim>\<open>panic\<close>. The
  global arena is an argument and part of the result; the trap of \<^verbatim>\<open>panic\<close> ends the program.
\<close>

section \<open>Panic\<close>

definition max_alloc :: u64 where
  "max_alloc = scast (push_bit 31 1 :: u32)"

definition panic_message :: "platform \<Rightarrow> string \<Rightarrow> world \<Rightarrow> halt + world" where
  "panic_message P msg w =
    andthen (c_strlen (wmem w) (lit P msg)) (\<lambda>n. Inr (snd (snd (sys_write P w stderr (lit P msg) n))))"

definition panic :: "platform \<Rightarrow> string \<Rightarrow> world \<Rightarrow> halt + 'a" where
  "panic P msg w = andthen (panic_message P msg w) (\<lambda>_. Inl (Panicked msg))"

definition len_panic :: string where
  "len_panic = ''builtin.c (make_slice): len out of range'' @ newline"

definition cap_panic :: string where
  "cap_panic = ''builtin.c (make_slice): cap out of range'' @ newline"

definition grow_panic :: string where
  "grow_panic = ''builtin.c (grow_slice): len out of range'' @ newline"

definition unmap_failed_format :: string where
  "unmap_failed_format = ''sys_munmap failed (builtin.c): %s'' @ newline"

section \<open>Making a slice\<close>

definition move_arena :: "platform \<Rightarrow> arena \<Rightarrow> world \<Rightarrow> halt + arena \<times> world" where
  "move_arena P ga w =
    andthen (arena_create P w (a_buf_len ga * 2)) (\<lambda>(new_arena, w).
    let w = w\<lparr>wmem := snd (memcpy (wmem w) (a_buf new_arena) (a_buf ga) (a_buf_len ga))\<rparr>;
        (err, w) = sys_munmap P w (a_buf ga) (a_buf_len ga)
    in andthen (case err of
          Some e \<Rightarrow> fmt_fprintf P w stderr (lit P unmap_failed_format) [lit P (err_msg e)]
        | None \<Rightarrow> Inr (0, w)) (\<lambda>(_, w).
    let ga = ga\<lparr>a_buf := a_buf new_arena\<rparr>;
        ga = ga\<lparr>a_buf_len := a_buf_len new_arena\<rparr>
    in Inr (arena_free_all ga, w)))"

definition make_slice :: "platform \<Rightarrow> u64 \<Rightarrow> u64 \<Rightarrow> u64 \<Rightarrow> arena \<Rightarrow> world \<Rightarrow> halt + slice \<times> arena \<times> world" where
  "make_slice P type_size len cap ga w =
    (let mem = type_size * cap
     in if mem > max_alloc then
          if type_size * len > max_alloc then panic P len_panic w
          else panic P cap_panic w
        else
          andthen (if a_buf ga = 0 then arena_create P w (mem * 2) else Inr (ga, w)) (\<lambda>(ga, w).
          andthen (arena_alloc ga mem) (\<lambda>(base, ga).
          if base \<noteq> 0 then Inr (\<lparr>sl_base = base, sl_len = len, sl_cap = cap\<rparr>, ga, w)
          else andthen (move_arena P ga w) (\<lambda>(ga, w).
               andthen (arena_alloc ga mem) (\<lambda>(base, ga).
               Inr (\<lparr>sl_base = base, sl_len = len, sl_cap = cap\<rparr>, ga, w))))))"

section \<open>Growing a slice\<close>

text \<open>
  The loop of \<^verbatim>\<open>new_slice_cap\<close>; it does not return for every capacity, but it does for those it
  is called with.
\<close>

partial_function (option) grow_cap :: "u64 \<Rightarrow> u64 \<Rightarrow> u64 option" where
  "grow_cap new_len new_cap =
    (let old_new_cap = new_cap;
         new_cap = new_cap + drop_bit 2 (new_cap + 3 * 256)
     in if new_cap < old_new_cap then Some new_len
        else if new_cap \<ge> new_len then Some new_cap
        else grow_cap new_len new_cap)"

definition new_slice_cap :: "u64 \<Rightarrow> u64 \<Rightarrow> u64 option" where
  "new_slice_cap new_len old_cap =
    (let double_cap = old_cap + old_cap
     in if new_len > double_cap then Some new_len
        else if old_cap < 256 then Some double_cap
        else grow_cap new_len old_cap)"

definition grow_slice :: "platform \<Rightarrow> slice \<Rightarrow> u64 \<Rightarrow> u64 \<Rightarrow> arena \<Rightarrow> world \<Rightarrow> halt + slice \<times> arena \<times> world" where
  "grow_slice P old_s new_len type_size ga w =
    (case new_slice_cap new_len (sl_cap old_s) of None \<Rightarrow> Inl Out_of_fuel
     | Some new_cap \<Rightarrow>
         let new_cap_mem = new_cap * type_size
         in if new_cap_mem > max_alloc then panic P grow_panic w
            else andthen (arena_resize (wmem w) ga (sl_base old_s) (sl_cap old_s) new_cap_mem) (\<lambda>(p, ga, m).
            if p = 0 \<and> sl_len old_s * type_size \<noteq> 0 then Inl Undefined
            else Inr (\<lparr>sl_base = p, sl_len = new_len, sl_cap = new_cap\<rparr>, ga,
              w\<lparr>wmem := snd (memmove m p (sl_base old_s) (sl_len old_s * type_size))\<rparr>)))"

definition sl_to_str_new_base :: "slice \<Rightarrow> arena \<Rightarrow> mem \<Rightarrow> halt + str \<times> arena \<times> mem" where
  "sl_to_str_new_base s ga m =
    andthen (arena_alloc ga (sl_len s)) (\<lambda>(mem, ga).
    if mem = 0 then Inl (Assert_failed ''builtin.c'' 424)
    else let ret = \<lparr>str_base = mem, str_len = sl_len s\<rparr>
         in Inr (ret, ga, snd (copy_slice m (get_slice ret) s)))"

section \<open>The capacity rule\<close>

definition grown :: "nat \<Rightarrow> nat" where
  "grown n = n + (n + 768) div 4"

lemma grown_bounds: "4 * grown n \<le> 5 * n + 768" "5 * n + 768 \<le> 4 * grown n + 3"
proof -
  have "4 * ((n + 768) div 4) \<le> n + 768" "n + 768 \<le> 4 * ((n + 768) div 4) + 3" by presburger+
  then show "4 * grown n \<le> 5 * n + 768" "5 * n + 768 \<le> 4 * grown n + 3" by (simp_all add: grown_def)
qed

lemma grow_step:
  assumes "unat v + 768 < 2 ^ 64"
  shows "grow_cap l v = (if 2 ^ 64 \<le> grown (unat v) then Some l
    else if unat l \<le> grown (unat v) then Some (of_nat (grown (unat v))) else grow_cap l (of_nat (grown (unat v))))"
proof -
  let ?n = "grown (unat v)"
  have s: "unat (v + 768) = unat v + 768" using unat_plus_less[of v 768] assms by simp
  have d: "unat (drop_bit 2 (v + 768)) = (unat v + 768) div 4"
    by (simp add: drop_bit_eq_div unat_div_distrib s)
  have e: "v + drop_bit 2 (v + 3 * 256) = of_nat ?n"
    unfolding grown_def of_nat_add using d by (simp flip: d)
  have u: "unat (of_nat ?n :: u64) = ?n mod 2 ^ 64" by (simp add: unat_of_nat)
  note b = grown_bounds[of "unat v"]
  have lt: "?n < 2 * 2 ^ 64" using assms b(1) by linarith
  have o: "(of_nat ?n :: u64) < v \<longleftrightarrow> 2 ^ 64 \<le> ?n"
  proof (cases "2 ^ 64 \<le> ?n")
    case True
    then have "?n mod 2 ^ 64 = ?n - 2 ^ 64" using lt by (simp add: mod_if)
    moreover have "?n - 2 ^ 64 < unat v" using assms b(1) True by linarith
    ultimately show ?thesis using True u by (simp add: word_less_nat_alt)
  next
    case False
    then have "?n mod 2 ^ 64 = ?n" by simp
    then show ?thesis using False u by (simp add: word_less_nat_alt grown_def)
  qed
  have l: "l \<le> (of_nat ?n :: u64) \<longleftrightarrow> unat l \<le> ?n" if "?n < 2 ^ 64"
    using that u by (simp add: word_le_nat_alt)
  have "grow_cap l v = (if (of_nat ?n :: u64) < v then Some l
      else if l \<le> of_nat ?n then Some (of_nat ?n) else grow_cap l (of_nat ?n))"
    by (subst grow_cap.simps) (simp only: Let_def e)
  then show ?thesis unfolding o using l by (cases "2 ^ 64 \<le> ?n") (simp_all only: if_True if_False not_le[symmetric] simp_thms not_False_eq_True)
qed

lemma grow_step_returns:
  assumes "unat v + 768 < 2 ^ 64" and "grown (unat v) < 2 ^ 64 \<Longrightarrow> grown (unat v) < unat l \<Longrightarrow>
    \<exists>c. grow_cap l (of_nat (grown (unat v))) = Some c \<and> l \<le> c"
  shows "\<exists>c. grow_cap l v = Some c \<and> l \<le> c"
proof -
  have "l \<le> (of_nat (grown (unat v)) :: u64)" if "grown (unat v) < 2 ^ 64" "unat l \<le> grown (unat v)"
    using that by (simp add: word_le_nat_alt unat_of_nat)
  then show ?thesis using grow_step[OF assms(1), of l] assms(2) by (auto simp: not_le)
qed

lemma grow_cap_returns:
  assumes "unat l + 768 \<le> 2 ^ 64"
  shows "unat v + 768 < 2 ^ 64 \<Longrightarrow> \<exists>c. grow_cap l v = Some c \<and> l \<le> c"
proof (induction "2 ^ 64 - unat v" arbitrary: v rule: less_induct)
  case less
  show ?case
  proof (rule grow_step_returns[OF less.prems])
    assume n: "grown (unat v) < 2 ^ 64" "grown (unat v) < unat l"
    then have u: "unat (of_nat (grown (unat v)) :: u64) = grown (unat v)" by (simp add: unat_of_nat)
    have "unat v < grown (unat v)" by (simp add: grown_def)
    then have "2 ^ 64 - unat (of_nat (grown (unat v)) :: u64) < 2 ^ 64 - unat v"
      "unat (of_nat (grown (unat v)) :: u64) + 768 < 2 ^ 64" unfolding u using n assms less.prems by linarith+
    then show "\<exists>c. grow_cap l (of_nat (grown (unat v))) = Some c \<and> l \<le> c" by (rule less.hyps)
  qed
qed

text \<open>Near the top of the address space three steps do not overflow and the fourth does.\<close>

lemma grow_cap_top:
  assumes v: "2 ^ 63 - 384 \<le> unat v" "unat v < 2 ^ 63"
  shows "\<exists>c. grow_cap l v = Some c \<and> l \<le> c"
proof -
  define a where "a = grown (unat v)"
  define b where "b = grown a"
  define c where "c = grown b"
  note g = grown_bounds[of "unat v", folded a_def] grown_bounds[of a, folded b_def] grown_bounds[of b, folded c_def]
    grown_bounds[of c]
  have n: "(2 :: nat) ^ 63 = 9223372036854775808" "(2 :: nat) ^ 64 = 18446744073709551616" by simp_all
  have a: "a < 2 ^ 64 - 768" and b: "b < 2 ^ 64 - 768" and c: "c < 2 ^ 64 - 768" and d: "2 ^ 64 \<le> grown c"
    using v g unfolding n by linarith+
  have u: "unat (of_nat a :: u64) = a" "unat (of_nat b :: u64) = b" "unat (of_nat c :: u64) = c"
    using a b c by (simp_all add: unat_of_nat)
  note s = grow_step_returns[of "of_nat c" l, unfolded u] grow_step_returns[of "of_nat b" l, unfolded u, folded c_def]
    grow_step_returns[of "of_nat a" l, unfolded u, folded b_def] grow_step_returns[of v l, folded a_def]
  have room: "c + 768 < 2 ^ 64" "b + 768 < 2 ^ 64" "a + 768 < 2 ^ 64" "unat v + 768 < 2 ^ 64"
    using a b c v unfolding n by linarith+
  have "\<not> grown c < 2 ^ 64" using d by simp
  then have "\<exists>r. grow_cap l (of_nat c) = Some r \<and> l \<le> r" using s(1)[OF room(1)] by blast
  then have "\<exists>r. grow_cap l (of_nat b) = Some r \<and> l \<le> r" by (rule s(2)[OF room(2)])
  then have "\<exists>r. grow_cap l (of_nat a) = Some r \<and> l \<le> r" by (rule s(3)[OF room(3)])
  then show ?thesis by (rule s(4)[OF room(4)])
qed

lemma grow_cap_first:
  assumes "l \<le> v" and "2 ^ 63 \<le> unat v"
  shows "\<exists>c. grow_cap l v = Some c \<and> l \<le> c"
proof (cases "v + drop_bit 2 (v + 3 * 256) < v")
  case True
  then show ?thesis by (subst grow_cap.simps) (simp add: Let_def)
next
  case False
  then have "l \<le> v + drop_bit 2 (v + 3 * 256)" using assms(1) by simp
  then show ?thesis using False by (subst grow_cap.simps) (simp add: Let_def)
qed

lemma new_slice_cap_returns: "\<exists>c. new_slice_cap new_len old_cap = Some c \<and> new_len \<le> c"
proof -
  let ?d = "old_cap + old_cap"
  show ?thesis
  proof (cases "new_len > ?d \<or> old_cap < 256")
    case True
    then show ?thesis by (auto simp: new_slice_cap_def Let_def not_less)
  next
    case False
    then have n: "new_slice_cap new_len old_cap = grow_cap new_len old_cap" and le: "new_len \<le> ?d"
      by (auto simp: new_slice_cap_def Let_def)
    have "\<exists>c. grow_cap new_len old_cap = Some c \<and> new_len \<le> c"
    proof (cases "unat old_cap < 2 ^ 63")
      case small: True
      then have "unat ?d = 2 * unat old_cap" using unat_plus_less[of old_cap old_cap] by simp
      then have l: "unat new_len \<le> 2 * unat old_cap" using le by (simp add: word_le_nat_alt)
      show ?thesis
      proof (cases "unat old_cap < 2 ^ 63 - 384")
        case True
        then show ?thesis using l by (intro grow_cap_returns) simp_all
      qed (use small in \<open>auto intro: grow_cap_top\<close>)
    next
      case False
      have "unat old_cap < 2 ^ 64" using unsigned_less[of old_cap, where ?'a = nat] by simp
      moreover have "(x + x) mod 2 ^ 64 < x" if "2 ^ 63 \<le> x" "x < 2 ^ 64" for x :: nat
        using that by (subst mod_if) simp
      ultimately have "(unat old_cap + unat old_cap) mod 2 ^ 64 < unat old_cap" using False by (simp only: not_less)
      then have "?d < old_cap" by (simp only: word_less_nat_alt unat_word_ariths) simp
      then show ?thesis using le False by (intro grow_cap_first) simp_all
    qed
    then show ?thesis by (simp add: n)
  qed
qed

text \<open>
  C36: The capacity rule always ends, for every old capacity and every new length, also where the sums
  of the code wrap around, and the capacity it gives holds the new length; a capacity below 256 that
  can be doubled is doubled.
\<close>

theorem new_slice_cap_enough:
  "(\<exists>c. new_slice_cap new_len old_cap = Some c \<and> new_len \<le> c) \<and>
   (unat old_cap < 256 \<and> unat new_len \<le> 2 * unat old_cap \<longrightarrow> new_slice_cap new_len old_cap = Some (2 * old_cap))"
proof
  let ?d = "old_cap + old_cap"
  show "\<exists>c. new_slice_cap new_len old_cap = Some c \<and> new_len \<le> c" by (rule new_slice_cap_returns)
  show "unat old_cap < 256 \<and> unat new_len \<le> 2 * unat old_cap \<longrightarrow> new_slice_cap new_len old_cap = Some (2 * old_cap)"
  proof
    assume a: "unat old_cap < 256 \<and> unat new_len \<le> 2 * unat old_cap"
    then have "unat ?d = 2 * unat old_cap" using unat_plus_less[of old_cap old_cap] by simp
    then have "\<not> new_len > ?d" "old_cap < 256" using a by (simp_all add: word_less_nat_alt)
    then show "new_slice_cap new_len old_cap = Some (2 * old_cap)" by (simp add: new_slice_cap_def Let_def)
  qed
qed

theorem new_slice_cap_enough_witness:
  "new_slice_cap 300 200 = Some 400 \<and> (\<exists>c. new_slice_cap 1500 1000 = Some c \<and> 1500 \<le> c)"
  using new_slice_cap_enough[of 300 200] new_slice_cap_enough[of 1500 1000] by simp

section \<open>Slices in the arena\<close>

lemma max_alloc_value: "max_alloc = 0xFFFFFFFF80000000"
  by code_simp

lemma mult_exact: "unat a * unat b < 2 ^ 64 \<Longrightarrow> unat (a * b :: u64) = unat a * unat b"
  by (simp add: unat_word_ariths)

lemma small_request: "unat n \<le> 2 ^ 40 \<Longrightarrow> \<not> n > max_alloc"
  by (simp add: max_alloc_value word_less_nat_alt)

lemma arena_alloc_room:
  assumes ok: "arena_ok a" and n: "unat n \<le> 2 ^ 40" and room: "unat (a_curr_off a) + unat n + 8 \<le> unat (a_buf_len a)"
  obtains p a' where "arena_alloc a n = Inr (p, a')" "p \<noteq> 0" "8 dvd unat p" "arena_ok a'" "arena_area a' = arena_area a"
    "span p (unat n) \<inter> arena_used a = {}" "arena_used a \<union> span p (unat n) \<subseteq> arena_used a'"
    "span p (unat n) \<subseteq> arena_area a"
proof -
  have fits: "arena_fits n" using n by (simp add: arena_fits_def)
  obtain p a' where r: "arena_alloc_align a n (2 ^ 3) = Inr (p, a')" "arena_ok a'" "arena_area a' = arena_area a"
    "block (p, n) \<inter> arena_used a = {}" "arena_used a \<union> block (p, n) \<subseteq> arena_used a'" "2 ^ 3 dvd unat p"
    "p = 0 \<longrightarrow> a' = a \<and> unat (a_buf_len a) < unat (a_curr_off a) + unat n + 2 ^ 3"
    using arena_alloc_align_block[OF ok _ fits, of 3] by auto
  have p: "p \<noteq> 0" using r(7) room by auto
  have "span p (unat n) \<subseteq> arena_area a" using r(5) ar.used_area[OF r(2)] r(3) p by (auto simp: block_def)
  then show ?thesis using that[of p a'] r p by (simp add: block_def arena_alloc_def default_alignment_def)
qed

text \<open>
  C38: With room in the global arena, making a slice calls nothing and changes no byte: the slice has
  the length and the capacity asked for, its elements lie in the arena at an aligned address apart
  from everything handed out before, and the arena remembers them as used.
\<close>

theorem make_slice_fresh:
  assumes "arena_ok ga" and "unat type_size * unat cap \<le> 2 ^ 40"
    and "unat (a_curr_off ga) + unat type_size * unat cap + 8 \<le> unat (a_buf_len ga)"
  shows "\<exists>p ga'. make_slice P type_size len cap ga w = Inr (\<lparr>sl_base = p, sl_len = len, sl_cap = cap\<rparr>, ga', w) \<and>
    p \<noteq> 0 \<and> 8 dvd unat p \<and> arena_ok ga' \<and> arena_area ga' = arena_area ga \<and>
    span p (unat type_size * unat cap) \<subseteq> arena_area ga - arena_used ga \<and>
    arena_used ga \<union> span p (unat type_size * unat cap) \<subseteq> arena_used ga'"
proof -
  have m: "unat (type_size * cap) = unat type_size * unat cap" using assms(2) by (intro mult_exact) simp
  have buf: "a_buf ga \<noteq> 0" using assms(1) by (auto simp: arena_ok_def)
  have sz: "unat (type_size * cap) \<le> 2 ^ 40" using assms(2) m by simp
  have room: "unat (a_curr_off ga) + unat (type_size * cap) + 8 \<le> unat (a_buf_len ga)" using assms(3) m by simp
  obtain p ga' where "arena_alloc ga (type_size * cap) = Inr (p, ga')" "p \<noteq> 0" "8 dvd unat p" "arena_ok ga'"
    "arena_area ga' = arena_area ga" "span p (unat (type_size * cap)) \<inter> arena_used ga = {}"
    "arena_used ga \<union> span p (unat (type_size * cap)) \<subseteq> arena_used ga'"
    "span p (unat (type_size * cap)) \<subseteq> arena_area ga"
    by (rule arena_alloc_room[OF assms(1) sz room])
  then show ?thesis unfolding m using small_request[OF sz] buf
    by (intro exI[of _ p] exI[of _ ga']) (auto simp: make_slice_def Let_def)
qed

theorem make_slice_fresh_witness:
  "\<forall>P w. \<exists>p ga'. make_slice P 4 2 3 (arena_init 4096 64) w = Inr (\<lparr>sl_base = p, sl_len = 2, sl_cap = 3\<rparr>, ga', w) \<and>
     p \<noteq> 0 \<and> span p 12 \<subseteq> span 4096 64"
proof (intro allI)
  fix P w
  show "\<exists>p ga'. make_slice P 4 2 3 (arena_init 4096 64) w = Inr (\<lparr>sl_base = p, sl_len = 2, sl_cap = 3\<rparr>, ga', w) \<and>
     p \<noteq> 0 \<and> span p 12 \<subseteq> span 4096 64"
    using make_slice_fresh[of "arena_init 4096 64" 4 3 P 2 w]
    by (auto simp: arena_ok_def arena_init_def arena_area_def)
qed

text \<open>
  C39: Growing a slice in an arena with room keeps its elements: the result has the new length and the
  capacity of the rule, at least the new length, and the bytes of the old elements are the first of
  the new ones, whether the block grows in place or moves.
\<close>

theorem grow_slice_keeps:
  assumes "arena_ok ga" and "new_slice_cap new_len (sl_cap s) = Some c" and "unat c * unat type_size \<le> 2 ^ 40"
    and "unat (a_curr_off ga) + unat c * unat type_size + 8 \<le> unat (a_buf_len ga)"
    and "sl_base s \<noteq> 0" and "sl_cap s \<noteq> 0" and "sl_len s \<le> c"
    and "a_buf ga \<le> sl_base s" and "sl_base s < a_buf ga + a_buf_len ga"
    and "span (sl_base s) (unat (sl_len s) * unat type_size) \<subseteq> arena_used ga"
  shows "\<exists>p ga' w'. grow_slice P s new_len type_size ga w = Inr (\<lparr>sl_base = p, sl_len = new_len, sl_cap = c\<rparr>, ga', w') \<and>
    new_len \<le> c \<and> ld_bytes (wmem w') p (unat (sl_len s) * unat type_size) =
      ld_bytes (wmem w) (sl_base s) (unat (sl_len s) * unat type_size)"
proof -
  let ?n = "unat (sl_len s) * unat type_size" and ?mem = "c * type_size"
  have m: "unat ?mem = unat c * unat type_size" using assms(3) by (intro mult_exact) simp
  have nm: "?n \<le> unat ?mem" using assms(7) m by (simp add: word_le_nat_alt)
  have n40: "?n \<le> 2 ^ 40" by (rule le_trans[OF nm[unfolded m] assms(3)])
  have l: "unat (sl_len s * type_size) = ?n" by (rule mult_exact) (rule le_less_trans[OF n40], simp)
  have sz: "unat ?mem \<le> 2 ^ 40" using assms(3) m by simp
  have room: "unat (a_curr_off ga) + unat ?mem + 8 \<le> unat (a_buf_len ga)" using assms(4) m by simp
  have cap: "new_len \<le> c" using new_slice_cap_returns[of new_len "sl_cap s"] assms(2) by simp
  have two: "is_power_of_two 8" using is_power_of_two_exp[of 3] by simp
  have top: "unat (a_buf ga) + unat (a_buf_len ga) \<le> 2 ^ 63" using assms(1) by (simp add: arena_ok_def)
  then have "unat (a_buf ga + a_buf_len ga) \<le> 2 ^ 63" by (subst unat_plus_less) simp_all
  then have b63: "unat (sl_base s) < 2 ^ 63" using assms(9) by (simp add: word_less_nat_alt)
  have base: "unat (sl_base s) + k \<le> 2 ^ 64" if "k \<le> 2 ^ 40" for k using b63 that by simp
  show ?thesis
  proof (cases "a_buf ga + a_prev_off ga = sl_base s")
    case True
    let ?ga = "ga\<lparr>a_curr_off := a_prev_off ga + ?mem\<rparr>"
    have "arena_resize (wmem w) ga (sl_base s) (sl_cap s) ?mem = Inr (sl_base s, ?ga, wmem w)"
      using True two assms(5,6,8,9) by (simp add: arena_resize_def arena_resize_align_def default_alignment_def Let_def)
    then show ?thesis using assms(2,5) cap small_request[OF sz] l
      by (simp add: grow_slice_def Let_def memmove_def memcpy_def)
  next
    case False
    obtain p ga' where a: "arena_alloc ga ?mem = Inr (p, ga')" "p \<noteq> 0" "8 dvd unat p" "arena_ok ga'"
      "arena_area ga' = arena_area ga" "span p (unat ?mem) \<inter> arena_used ga = {}"
      "arena_used ga \<union> span p (unat ?mem) \<subseteq> arena_used ga'" "span p (unat ?mem) \<subseteq> arena_area ga"
      by (rule arena_alloc_room[OF assms(1) sz room])
    let ?k = "if sl_cap s < ?mem then sl_cap s else ?mem"
    have k: "unat ?k \<le> unat ?mem" by (simp add: word_less_nat_alt)
    have p64: "unat p + j \<le> 2 ^ 64" if "j \<le> unat ?mem" for j
    proof (cases "unat ?mem = 0")
      case True
      then show ?thesis using that less_imp_le[OF unat_lt_2p64[of p]] by simp
    next
      case False
      then have "p \<in> span p (unat ?mem)" by (simp add: span_def)
      then have "p \<in> arena_area ga" using a(8) by blast
      then have "unat p < 2 ^ 63" using top unfolding arena_area_def by (subst (asm) span_nowrap) simp_all
      then show ?thesis using that sz by simp
    qed
    define m1 where "m1 = snd (memmove (wmem w) p (sl_base s) ?k)"
    have m1: "m1 = st_bytes (wmem w) p (ld_bytes (wmem w) (sl_base s) (unat ?k))"
      unfolding m1_def memmove_def memcpy_block_move[OF p64[OF k] base[OF le_trans[OF k sz]]] by simp
    have "only (span p (unat ?k)) (wmem w) m1" unfolding m1 using only_st_bytes[of p "ld_bytes (wmem w) (sl_base s) (unat ?k)" "wmem w"] by simp
    moreover have "span (sl_base s) ?n \<inter> span p (unat ?k) = {}" using assms(10) a(6) span_mono[OF k, of p] by blast
    ultimately have old: "ld_bytes m1 (sl_base s) ?n = ld_bytes (wmem w) (sl_base s) ?n"
      by (rule only_ld_bytes) (use n40 in simp)
    define m2 where "m2 = snd (memmove m1 p (sl_base s) (sl_len s * type_size))"
    have "m2 = st_bytes m1 p (ld_bytes m1 (sl_base s) ?n)"
      unfolding m2_def memmove_def using base[OF n40] p64[OF nm] by (subst memcpy_block_move) (simp_all add: l)
    then have m2: "ld_bytes m2 p ?n = ld_bytes (wmem w) (sl_base s) ?n"
      using ld_bytes_st_bytes_same[of "ld_bytes m1 (sl_base s) ?n" m1 p] n40 old by simp
    have "arena_resize (wmem w) ga (sl_base s) (sl_cap s) ?mem = Inr (p, ga', m1)"
      using False two assms(5,6,8,9) a(1,2)
      by (simp add: arena_resize_def arena_resize_align_def default_alignment_def arena_alloc_def Let_def m1_def)
    then show ?thesis using assms(2) cap small_request[OF sz] a(2) m2
      by (intro exI[of _ p] exI[of _ ga'] exI[of _ "w\<lparr>wmem := m2\<rparr>"]) (simp add: grow_slice_def Let_def m2_def)
  qed
qed

theorem grow_slice_keeps_witness:
  "\<forall>P. \<exists>p ga' w'. grow_slice P \<lparr>sl_base = 4096, sl_len = 3, sl_cap = 4\<rparr> 5 1
      \<lparr>a_buf = 4096, a_buf_len = 64, a_prev_off = 8, a_curr_off = 16\<rparr> \<lparr>wmem = \<lambda>a. ucast a, trace = []\<rparr> =
      Inr (\<lparr>sl_base = p, sl_len = 5, sl_cap = 8\<rparr>, ga', w') \<and> ld_bytes (wmem w') p 3 = [0, 1, 2]"
proof
  fix P
  let ?ga = "\<lparr>a_buf = 4096, a_buf_len = 64, a_prev_off = 8, a_curr_off = 16\<rparr>"
    and ?s = "\<lparr>sl_base = 4096, sl_len = 3, sl_cap = 4\<rparr>"
  have "new_slice_cap 5 4 = Some 8" by (simp add: new_slice_cap_def Let_def)
  moreover have "ld_bytes (\<lambda>a. ucast a) 4096 3 = [0, 1, 2]" by (simp add: ld_bytes_def upt_conv_Cons)
  moreover have "span 4096 3 \<subseteq> span (4096 :: u64) 16" by (rule span_mono) simp
  ultimately show "\<exists>p ga' w'. grow_slice P ?s 5 1 ?ga \<lparr>wmem = \<lambda>a. ucast a, trace = []\<rparr> =
      Inr (\<lparr>sl_base = p, sl_len = 5, sl_cap = 8\<rparr>, ga', w') \<and> ld_bytes (wmem w') p 3 = [0, 1, 2]"
    using grow_slice_keeps[of ?ga 5 ?s 8 1 P "\<lparr>wmem = \<lambda>a. ucast a, trace = []\<rparr>"]
    by (simp add: arena_ok_def arena_used_def)
qed

text \<open>
  C37: A string on a new base is a copy: with room for the bytes and their alignment in the global
  arena the result has the bytes of the slice at a fresh address, the slice keeps its own, and
  nothing else changes; when the bytes do not fit behind what is in use, the assertion stops the
  program.
\<close>

theorem sl_to_str_copies:
  assumes "arena_ok ga" and "unat (sl_len s) \<le> 2 ^ 40" and "unat (sl_base s) + unat (sl_len s) \<le> 2 ^ 64"
    and "span (sl_base s) (unat (sl_len s)) \<inter> (arena_area ga - arena_used ga) = {}"
  shows "if unat (a_curr_off ga) + unat (sl_len s) + 8 \<le> unat (a_buf_len ga)
    then \<exists>p ga' m'. sl_to_str_new_base s ga m = Inr (\<lparr>str_base = p, str_len = sl_len s\<rparr>, ga', m') \<and>
      ld_bytes m' p (unat (sl_len s)) = ld_bytes m (sl_base s) (unat (sl_len s)) \<and>
      ld_bytes m' (sl_base s) (unat (sl_len s)) = ld_bytes m (sl_base s) (unat (sl_len s)) \<and>
      span p (unat (sl_len s)) \<subseteq> arena_area ga - arena_used ga \<and> only (span p (unat (sl_len s))) m m'
    else unat (a_buf_len ga) < unat (a_curr_off ga) + unat (sl_len s) \<longrightarrow>
      sl_to_str_new_base s ga m = Inl (Assert_failed ''builtin.c'' 424)"
proof (cases "unat (a_curr_off ga) + unat (sl_len s) + 8 \<le> unat (a_buf_len ga)")
  case True
  let ?n = "unat (sl_len s)"
  obtain p ga' where a: "arena_alloc ga (sl_len s) = Inr (p, ga')" "p \<noteq> 0" "8 dvd unat p" "arena_ok ga'"
    "arena_area ga' = arena_area ga" "span p ?n \<inter> arena_used ga = {}" "arena_used ga \<union> span p ?n \<subseteq> arena_used ga'"
    "span p ?n \<subseteq> arena_area ga" by (rule arena_alloc_room[OF assms(1,2) True])
  have top: "unat (a_buf ga) + unat (a_buf_len ga) \<le> 2 ^ 63" using assms(1) by (simp add: arena_ok_def)
  have p64: "unat p + ?n \<le> 2 ^ 64"
  proof (cases "?n = 0")
    case True
    then show ?thesis using less_imp_le[OF unat_lt_2p64[of p]] by simp
  next
    case False
    then have "p \<in> arena_area ga" using a(8) by (auto simp: span_def)
    then have "unat p < 2 ^ 63" using top unfolding arena_area_def by (subst (asm) span_nowrap) simp_all
    then show ?thesis using assms(2) by simp
  qed
  let ?m = "st_bytes m p (ld_bytes m (sl_base s) ?n)"
  have "snd (copy_slice m (get_slice \<lparr>str_base = p, str_len = sl_len s\<rparr>) s) = ?m"
    using memcpy_block_move[OF p64 assms(3), of m] by (simp add: copy_slice_def get_slice_def Let_def)
  then have run: "sl_to_str_new_base s ga m = Inr (\<lparr>str_base = p, str_len = sl_len s\<rparr>, ga', ?m)"
    using a(1,2) by (simp add: sl_to_str_new_base_def Let_def)
  have o: "only (span p ?n) m ?m" using only_st_bytes[of p "ld_bytes m (sl_base s) ?n" m] by simp
  have "span (sl_base s) ?n \<inter> span p ?n = {}" using assms(4) a(6,8) by blast
  then have "ld_bytes ?m (sl_base s) ?n = ld_bytes m (sl_base s) ?n"
    by (rule only_ld_bytes[OF o]) (use assms(2) in simp)
  moreover have "ld_bytes ?m p ?n = ld_bytes m (sl_base s) ?n"
    using ld_bytes_st_bytes_same[of "ld_bytes m (sl_base s) ?n" m p] assms(2) by simp
  ultimately show ?thesis using True run o a(6,8) by auto
next
  case False
  have "sl_to_str_new_base s ga m = Inl (Assert_failed ''builtin.c'' 424)"
    if "unat (a_buf_len ga) < unat (a_curr_off ga) + unat (sl_len s)"
  proof -
    have sz: "unat (sl_len s) \<le> 2 ^ 62" and three: "(3 :: nat) \<le> 61" using assms(2) by simp_all
    obtain off where "unat (a_curr_off ga) \<le> unat off" "arena_alloc_align ga (sl_len s) (2 ^ 3) = Inr
      (if unat off + unat (sl_len s) \<le> unat (a_buf_len ga)
       then (a_buf ga + off, ga\<lparr>a_prev_off := off, a_curr_off := off + sl_len s\<rparr>) else (0, ga))"
      by (rule arena_alloc_align_cases[OF assms(1) three sz]) (rule that)
    then show ?thesis using that
      by (simp add: sl_to_str_new_base_def arena_alloc_def default_alignment_def)
  qed
  then show ?thesis using False by simp
qed

theorem sl_to_str_copies_witness:
  "\<exists>p ga' m'. sl_to_str_new_base \<lparr>sl_base = 4096, sl_len = 3, sl_cap = 3\<rparr>
      \<lparr>a_buf = 4096, a_buf_len = 64, a_prev_off = 0, a_curr_off = 16\<rparr> (\<lambda>a. ucast a) =
      Inr (\<lparr>str_base = p, str_len = 3\<rparr>, ga', m') \<and> ld_bytes m' p 3 = [0, 1, 2]"
proof -
  let ?ga = "\<lparr>a_buf = 4096, a_buf_len = 64, a_prev_off = 0, a_curr_off = 16\<rparr>"
    and ?s = "\<lparr>sl_base = 4096, sl_len = 3, sl_cap = 3\<rparr>"
  have "ld_bytes (\<lambda>a. ucast a) 4096 3 = [0, 1, 2]" by (simp add: ld_bytes_def upt_conv_Cons)
  moreover have "span 4096 3 \<subseteq> span (4096 :: u64) 16" by (rule span_mono) simp
  ultimately show ?thesis
    using sl_to_str_copies[of ?ga ?s "\<lambda>a. ucast a"] by (auto simp: arena_ok_def arena_used_def arena_area_def)
qed

section \<open>Moving the arena\<close>

lemma arena_create_Inr:
  assumes kern: "kernel_ok (kern P)" and r: "arena_create P w n = Inr (a, w1)"
  obtains p where "a = arena_init p (page_round n)" "p \<noteq> 0" "4096 dvd unat p" "unat p + unat (page_round n) \<le> 2 ^ 47"
    "wmem w1 = st_bytes (wmem w) p (replicate (unat (page_round n)) 0)"
    "trace w1 = mmap_call [0, page_round n, prot_read_write, map_private_anonymous, -1, 0] # trace w"
    "p = rax (kern P (mmap_call [0, page_round n, prot_read_write, map_private_anonymous, -1, 0] # trace w))"
proof (cases rule: sys_mmap_cases[OF kern, of w 0 "page_round n" prot_read_write map_private_anonymous "-1" 0])
  case (1 v e)
  then show ?thesis using r by (simp add: arena_create_def sys_exit_def Let_def andthen_Inr_iff)
next
  case (2 p)
  have e: "arena_init p (page_round n) = a" "w\<lparr>wmem := st_bytes (wmem w) p (replicate (unat (page_round n)) 0),
      trace := mmap_call [0, page_round n, prot_read_write, map_private_anonymous, -1, 0] # trace w\<rparr> = w1"
    using r 2(1) by (simp_all add: arena_create_def Let_def)
  show ?thesis by (rule that[OF e(1)[symmetric] 2(2-4) _ _ 2(6)]) (simp_all flip: e(2))
qed

lemma arena_alloc_start:
  assumes ok: "arena_ok a" and start: "a_curr_off a = 0" "8 dvd unat (a_buf a)"
    and n: "unat n \<le> 2 ^ 40" "unat n \<le> unat (a_buf_len a)"
  shows "arena_alloc a n = Inr (a_buf a, a\<lparr>a_prev_off := 0, a_curr_off := n\<rparr>)"
proof -
  have sz: "unat n \<le> 2 ^ 62" and three: "(3 :: nat) \<le> 61" using n(1) by simp_all
  obtain off where off: "unat off < unat (a_curr_off a) + 2 ^ 3" "2 ^ 3 dvd unat (a_buf a + off)"
    "arena_alloc_align a n (2 ^ 3) = Inr
      (if unat off + unat n \<le> unat (a_buf_len a)
       then (a_buf a + off, a\<lparr>a_prev_off := off, a_curr_off := off + n\<rparr>) else (0, a))"
    "unat (a_buf a) + unat off < 2 ^ 64"
    by (rule arena_alloc_align_cases[OF ok three sz]) (rule that)
  have "8 dvd unat (a_buf a) + unat off" using off(2,4) by (simp add: unat_plus_less)
  then have "8 dvd unat off" using start(2) by (metis dvd_add_right_iff)
  moreover have "unat off < 8" using off(1) start(1) by simp
  ultimately have "unat off = 0" by (metis dvd_imp_le gr0I not_le)
  then have "off = 0" by (simp add: word_unat_eq_iff)
  then show ?thesis using off(3) n(2) by (simp add: arena_alloc_def default_alignment_def)
qed

text \<open>
  C40: When the global arena is full, making a slice invalidates every slice made before: the old
  region is copied to a new one and unmapped, the addresses in the old slices are not changed, and
  the new slice is handed out at the start of the new region, over the copy of the oldest slices.
\<close>

theorem make_slice_moves:
  fixes w :: world
  assumes "kernel_ok (kern P)" and "arena_ok ga" and "unat type_size * unat cap \<le> 2 ^ 40"
    and "unat (a_buf_len ga) < unat (a_curr_off ga) + unat type_size * unat cap"
    and "arena_create P w (a_buf_len ga * 2) = Inr (na, w1)" and "arena_area na \<inter> arena_area ga = {}"
    and "unat type_size * unat cap \<le> unat (a_buf_len na)" and "unat (a_buf_len ga) \<le> unat (a_buf_len na)"
    and "succeeded (kern P (unmap_call (a_buf ga) (a_buf_len ga) # trace w1))"
  shows "\<exists>ga' w'. make_slice P type_size len cap ga w =
      Inr (\<lparr>sl_base = a_buf na, sl_len = len, sl_cap = cap\<rparr>, ga', w') \<and>
    arena_used ga' = span (a_buf na) (unat type_size * unat cap) \<and>
    ld_bytes (wmem w') (a_buf na) (unat (a_buf_len ga)) = ld_bytes (wmem w) (a_buf ga) (unat (a_buf_len ga)) \<and>
    trace w' = unmap_call (a_buf ga) (a_buf_len ga) # trace w1"
proof -
  let ?mem = "type_size * cap" and ?L = "unat (a_buf_len ga)"
  have m: "unat ?mem = unat type_size * unat cap" using assms(3) by (intro mult_exact) simp
  have sz: "unat ?mem \<le> 2 ^ 40" using assms(3) m by simp
  then have sz62: "unat ?mem \<le> 2 ^ 62" and three: "(3 :: nat) \<le> 61" by simp_all
  have buf: "a_buf ga \<noteq> 0" "unat (a_buf ga) + ?L \<le> 2 ^ 63" using assms(2) by (auto simp: arena_ok_def)
  obtain off where "unat (a_curr_off ga) \<le> unat off" "arena_alloc_align ga ?mem (2 ^ 3) = Inr
      (if unat off + unat ?mem \<le> ?L
       then (a_buf ga + off, ga\<lparr>a_prev_off := off, a_curr_off := off + ?mem\<rparr>) else (0, ga))"
    by (rule arena_alloc_align_cases[OF assms(2) three sz62]) (rule that)
  then have full: "arena_alloc ga ?mem = Inr (0, ga)"
    using assms(4) m by (simp add: arena_alloc_def default_alignment_def)
  obtain p where p: "na = arena_init p (page_round (a_buf_len ga * 2))" "p \<noteq> 0" "4096 dvd unat p"
    "unat p + unat (page_round (a_buf_len ga * 2)) \<le> 2 ^ 47"
    "wmem w1 = st_bytes (wmem w) p (replicate (unat (page_round (a_buf_len ga * 2))) 0)"
    by (rule arena_create_Inr[OF assms(1,5)])
  have na: "a_buf na = p" "a_buf_len na = page_round (a_buf_len ga * 2)" by (simp_all add: p(1) arena_init_def)
  have "arena_ok na" unfolding p(1) by (rule arena_init_ok[OF p(2,4)])
  let ?m2 = "st_bytes (wmem w1) p (ld_bytes (wmem w1) (a_buf ga) ?L)"
  let ?w2 = "w1\<lparr>wmem := ?m2\<rparr>" and ?c = "unmap_call (a_buf ga) (a_buf_len ga)"
  have copy: "snd (memcpy (wmem w1) p (a_buf ga) (a_buf_len ga)) = ?m2"
    using memcpy_block_move[of p "a_buf_len ga" "a_buf ga" "wmem w1"] p(4) assms(8) na(2) buf(2) by simp
  have "fst (syscall_raw P ?w2 ?c) = \<lparr>r1 = rax (kern P (?c # trace w1)), errno = 0\<rparr>"
    using syscall_raw_succeeded[of P ?c ?w2] assms(9) by simp
  then have unmap: "sys_munmap P ?w2 (a_buf ga) (a_buf_len ga) = (None, ?w2\<lparr>trace := ?c # trace w1\<rparr>)"
    using sys_munmap_world[OF assms(1), of ?w2 "a_buf ga" "a_buf_len ga"]
    by (simp add: sys_munmap_def syscall3_def unmap_call_def split_def Let_def)
  let ?ga = "arena_free_all (ga\<lparr>a_buf := p, a_buf_len := a_buf_len na\<rparr>)"
  have move: "move_arena P ga w = Inr (?ga, ?w2\<lparr>trace := ?c # trace w1\<rparr>)"
    using assms(5) by (simp add: move_arena_def na(1) copy unmap Let_def)
  have ok': "arena_ok ?ga" "a_curr_off ?ga = 0" "a_buf ?ga = p" "a_buf_len ?ga = a_buf_len na"
    using \<open>arena_ok na\<close> na(1) by (simp_all add: arena_ok_def arena_free_all_def)
  have "(8 :: nat) dvd 4096" by simp
  then have d8: "8 dvd unat (a_buf ?ga)" unfolding ok'(3) using p(3) by (rule dvd_trans)
  have le: "unat ?mem \<le> unat (a_buf_len ?ga)" using assms(7) m ok'(4) by simp
  note start = arena_alloc_start[OF ok'(1,2) d8 sz le]
  have run: "make_slice P type_size len cap ga w = Inr (\<lparr>sl_base = p, sl_len = len, sl_cap = cap\<rparr>,
      ?ga\<lparr>a_prev_off := 0, a_curr_off := ?mem\<rparr>, ?w2\<lparr>trace := ?c # trace w1\<rparr>)"
    using small_request[OF sz] buf(1) full move start ok'(3) by (simp add: make_slice_def Let_def)
  have "arena_used (?ga\<lparr>a_prev_off := 0, a_curr_off := ?mem\<rparr>) = span p (unat ?mem)"
    using ok'(3) by (simp add: arena_used_def)
  moreover have "ld_bytes ?m2 p ?L = ld_bytes (wmem w) (a_buf ga) ?L"
  proof -
    have "ld_bytes ?m2 p ?L = ld_bytes (wmem w1) (a_buf ga) ?L"
      using ld_bytes_st_bytes_same[of "ld_bytes (wmem w1) (a_buf ga) ?L" "wmem w1" p] less_imp_le[OF unat_lt_2p64] by simp
    moreover have "ld_bytes (wmem w1) (a_buf ga) ?L = ld_bytes (wmem w) (a_buf ga) ?L"
      unfolding p(5)
    proof (rule only_ld_bytes)
      show "only (arena_area na) (wmem w) (st_bytes (wmem w) p (replicate (unat (page_round (a_buf_len ga * 2))) 0))"
        using only_st_bytes[of p "replicate (unat (page_round (a_buf_len ga * 2))) 0" "wmem w"] by (simp add: arena_area_def na)
      show "span (a_buf ga) ?L \<inter> arena_area na = {}" using assms(6) by (auto simp: arena_area_def)
      show "?L \<le> 2 ^ 64" by (rule less_imp_le[OF unat_lt_2p64])
    qed
    ultimately show ?thesis by simp
  qed
  ultimately show ?thesis using run m na(1)
    by (intro exI[of _ "?ga\<lparr>a_prev_off := 0, a_curr_off := ?mem\<rparr>"] exI[of _ "?w2\<lparr>trace := ?c # trace w1\<rparr>"]) simp
qed

definition demo_slices :: platform where
  "demo_slices = \<lparr>kern = demo_kernel [], lit = \<lambda>_. 0, stk = \<lambda>_. 0, fuel = 0\<rparr>"

theorem make_slice_moves_witness:
  "\<exists>p ga' w'. make_slice demo_slices 8 2 3 \<lparr>a_buf = 4096, a_buf_len = 64, a_prev_off = 40, a_curr_off = 64\<rparr>
      \<lparr>wmem = \<lambda>a. ucast a, trace = []\<rparr> = Inr (\<lparr>sl_base = p, sl_len = 2, sl_cap = 3\<rparr>, ga', w') \<and>
    ld_bytes (wmem w') p 64 = ld_bytes (\<lambda>a. ucast a) 4096 64 \<and> arena_used ga' = span p 24"
proof -
  let ?ga = "\<lparr>a_buf = 4096, a_buf_len = 64, a_prev_off = 40, a_curr_off = 64\<rparr>"
    and ?w = "\<lparr>wmem = \<lambda>a. ucast a, trace = []\<rparr>"
  have kern: "kernel_ok (kern demo_slices)" by (simp add: demo_slices_def demo_kernel_ok)
  have round: "page_round 128 = 4096" by (simp add: page_round_def page_size_def)
  let ?c = "mmap_call [0, 4096, prot_read_write, map_private_anonymous, -1, 0]"
  have nr: "sc_nr ?c = s_mmap" by (simp add: mmap_call_def)
  have "\<not> (16 \<le> calls_before ?c [] \<or> 0x10000000000 < sc_args ?c ! 1)"
    by (simp add: calls_before_def mmap_call_def)
  then have d: "demo_reply [] ?c [] = (demo_region 0, demo_region 0, replicate (unat (sc_args ?c ! 1)) 0)"
    by (simp only: demo_reply_map[OF nr] if_False) (simp add: calls_before_def)
  then have s: "succeeded (kern demo_slices (?c # trace ?w))" "rax (kern demo_slices (?c # trace ?w)) = 0x10000000"
    using demo_region_bounds(2)[of 0] by (simp_all add: demo_slices_def demo_kernel_reply succeeded_def demo_region_def)
  obtain na w1 where c: "arena_create demo_slices ?w 128 = Inr (na, w1)"
  proof (cases rule: sys_mmap_cases[OF kern, of ?w 0 4096 prot_read_write map_private_anonymous "-1" 0])
    case 1
    then show ?thesis using s by blast
  next
    case 2
    then show ?thesis using that by (simp add: arena_create_def round Let_def)
  qed
  have na: "na = arena_init 0x10000000 4096"
    by (rule arena_create_Inr[OF kern c]) (use s(2) in \<open>simp add: round\<close>)
  have "x \<notin> span 0x10000000 4096" if "x \<in> span 4096 64" for x :: u64
    using that by (subst (asm) span_nowrap, simp) (subst span_nowrap, auto)
  then have apart: "arena_area na \<inter> arena_area ?ga = {}"
    by (auto simp: arena_area_def na arena_init_def)
  have "succeeded (kern demo_slices (unmap_call 4096 64 # trace w1))"
    by (simp add: demo_slices_def demo_kernel_reply demo_reply_def succeeded_def unmap_call_def syscall_numbers Let_def)
  then show ?thesis
    using make_slice_moves[OF kern, of ?ga 8 3 ?w na w1 2] c apart
    by (fastforce simp: arena_ok_def na arena_init_def)
qed

end
