(* ===== verification/Buffer.thy ===== *)
theory Buffer
  imports Syscall
begin

text \<open>
  The circular buffer of \<^verbatim>\<open>lib/cfa/src/buffer.c\<close>: a region of twice the asked size with the
  offsets of its first unconsumed byte and of the byte behind the last. Its invariant, its counts as
  those of a bounded queue (through the locale of such queues), its bytes as a queue of bytes, and
  what happens when the offsets are moved back by half of the region.
\<close>

section \<open>The operations\<close>

record circular_buffer =
  cb_buf :: u64
  cb_len :: u64
  cb_head :: u64
  cb_tail :: u64

definition new_circular_buffer ::
  "platform \<Rightarrow> world \<Rightarrow> u64 \<Rightarrow> circular_buffer \<times> c_error option \<times> world" where
  "new_circular_buffer P w sz =
    (let cb = \<lparr>cb_buf = 0, cb_len = 0, cb_head = 0, cb_tail = 0\<rparr>;
         (buf, e, w) = sys_mmap P w 0 (2 * sz) prot_read_write map_private_anonymous (-1) 0
     in case e of
          Some e \<Rightarrow> (cb, Some e, w)
        | None \<Rightarrow> (cb\<lparr>cb_buf := buf, cb_len := 2 * sz\<rparr>, None, w))"

definition consume :: "u64 \<Rightarrow> circular_buffer \<Rightarrow> circular_buffer" where
  "consume n cb =
    (let cb = cb\<lparr>cb_head := cb_head cb + n\<rparr>
     in if cb_head cb > cb_len cb div 2
        then cb\<lparr>cb_head := cb_head cb - cb_len cb div 2, cb_tail := cb_tail cb - cb_len cb div 2\<rparr>
        else cb)"

definition produce :: "u64 \<Rightarrow> circular_buffer \<Rightarrow> circular_buffer" where
  "produce n cb = cb\<lparr>cb_tail := cb_tail cb + n\<rparr>"

definition remaining_slice :: "circular_buffer \<Rightarrow> halt + slice" where
  "remaining_slice cb =
    slice_left_right (unsafe_slice (cb_buf cb) (cb_len cb)) (cb_tail cb) (cb_head cb + cb_len cb div 2)"

definition remaining_space :: "circular_buffer \<Rightarrow> u64" where
  "remaining_space cb = cb_len cb div 2 - (cb_tail cb - cb_head cb)"

definition reset :: "circular_buffer \<Rightarrow> circular_buffer" where
  "reset cb = cb\<lparr>cb_head := 0, cb_tail := 0\<rparr>"

definition unconsumed_len :: "circular_buffer \<Rightarrow> u64" where
  "unconsumed_len cb = cb_tail cb - cb_head cb"

definition unconsumed_slice :: "circular_buffer \<Rightarrow> slice" where
  "unconsumed_slice cb = unsafe_slice (cb_buf cb + cb_head cb) (unconsumed_len cb)"

definition unconsumed_string :: "circular_buffer \<Rightarrow> str" where
  "unconsumed_string cb = unsafe_string (cb_buf cb + cb_head cb) (unconsumed_len cb)"

section \<open>The invariant\<close>

definition cb_half :: "circular_buffer \<Rightarrow> nat" where
  "cb_half cb = unat (cb_len cb) div 2"

text \<open>The head is in the first half, and at most half of the region is unconsumed.\<close>

definition cb_ok :: "circular_buffer \<Rightarrow> bool" where
  "cb_ok cb \<longleftrightarrow> unat (cb_buf cb) + unat (cb_len cb) \<le> 2 ^ 63 \<and> unat (cb_head cb) \<le> cb_half cb \<and>
     unat (cb_head cb) \<le> unat (cb_tail cb) \<and> unat (cb_tail cb) \<le> unat (cb_head cb) + cb_half cb"

lemma unat_half: "unat (cb_len cb div 2) = cb_half cb"
  by (simp add: cb_half_def unat_div_distrib)

lemma cb_bounds:
  assumes "cb_ok cb"
  shows "cb_half cb \<le> 2 ^ 62" "2 * cb_half cb \<le> unat (cb_len cb)" "unat (cb_tail cb) \<le> 2 * cb_half cb"
    "unat (unconsumed_len cb) = unat (cb_tail cb) - unat (cb_head cb)"
    "unat (unconsumed_len cb) \<le> cb_half cb"
    "unat (remaining_space cb) = cb_half cb - (unat (cb_tail cb) - unat (cb_head cb))"
proof -
  have u: "unat (cb_len cb) \<le> 2 ^ 63" using assms by (simp add: cb_ok_def)
  then show "cb_half cb \<le> 2 ^ 62" by (simp add: cb_half_def)
  show "2 * cb_half cb \<le> unat (cb_len cb)" by (simp add: cb_half_def)
  show "unat (cb_tail cb) \<le> 2 * cb_half cb" using assms by (simp add: cb_ok_def)
  have "cb_head cb \<le> cb_tail cb" using assms by (simp add: cb_ok_def word_le_nat_alt)
  then show l: "unat (unconsumed_len cb) = unat (cb_tail cb) - unat (cb_head cb)"
    by (simp add: unconsumed_len_def unat_sub)
  then show h: "unat (unconsumed_len cb) \<le> cb_half cb" using assms unfolding cb_ok_def by linarith
  then have "cb_tail cb - cb_head cb \<le> cb_len cb div 2"
    by (simp add: word_le_nat_alt unat_half unconsumed_len_def)
  from unat_sub[OF this] l
  show "unat (remaining_space cb) = cb_half cb - (unat (cb_tail cb) - unat (cb_head cb))"
    by (simp add: remaining_space_def unat_half unconsumed_len_def)
qed

lemma produce_keeps:
  "cb_buf (produce n cb) = cb_buf cb" "cb_head (produce n cb) = cb_head cb" "cb_len (produce n cb) = cb_len cb"
  by (simp_all add: produce_def)

lemma produce_ok:
  assumes ok: "cb_ok cb" and n: "unat (unconsumed_len cb) + unat n \<le> cb_half cb"
  shows "cb_ok (produce n cb)" "unat (unconsumed_len (produce n cb)) = unat (unconsumed_len cb) + unat n"
    "cb_half (produce n cb) = cb_half cb"
proof -
  note b = cb_bounds[OF ok]
  have h: "unat (cb_head cb) \<le> unat (cb_tail cb)" using ok by (simp add: cb_ok_def)
  have "unat (cb_tail cb) + unat n \<le> unat (cb_head cb) + cb_half cb" using n b(4) h by linarith
  moreover from this have "unat (cb_tail cb) + unat n < 2 ^ 64" using b(1) ok by (simp add: cb_ok_def)
  then have "unat (cb_tail cb + n) = unat (cb_tail cb) + unat n" by (rule unat_plus_less)
  ultimately show ok': "cb_ok (produce n cb)" using ok by (simp add: cb_ok_def produce_def cb_half_def)
  show "unat (unconsumed_len (produce n cb)) = unat (unconsumed_len cb) + unat n"
    using cb_bounds(4)[OF ok'] b(4) h \<open>unat (cb_tail cb + n) = _\<close> by (simp add: produce_def)
  show "cb_half (produce n cb) = cb_half cb" by (simp add: produce_def cb_half_def)
qed

text \<open>After consuming, the head is again in the first half.\<close>

lemma consume_offsets:
  assumes ok: "cb_ok cb" and n: "unat n \<le> unat (unconsumed_len cb)"
  shows "cb_buf (consume n cb) = cb_buf cb" "cb_len (consume n cb) = cb_len cb"
    and "unat (cb_head (consume n cb)) = (if unat (cb_head cb) + unat n \<le> cb_half cb
      then unat (cb_head cb) + unat n else unat (cb_head cb) + unat n - cb_half cb)"
    and "unat (cb_tail (consume n cb)) = (if unat (cb_head cb) + unat n \<le> cb_half cb
      then unat (cb_tail cb) else unat (cb_tail cb) - cb_half cb)"
proof -
  note b = cb_bounds[OF ok]
  have h: "unat (cb_head cb) \<le> cb_half cb" "unat (cb_head cb) \<le> unat (cb_tail cb)" using ok by (simp_all add: cb_ok_def)
  have le: "unat (cb_head cb) + unat n \<le> unat (cb_tail cb)" using n b(4) h(2) by linarith
  have "unat (cb_head cb) + unat n < 2 ^ 64" using le b(1,3) by simp
  then have s: "unat (cb_head cb + n) = unat (cb_head cb) + unat n" by (rule unat_plus_less)
  have c: "cb_len cb div 2 < cb_head cb + n \<longleftrightarrow> \<not> unat (cb_head cb) + unat n \<le> cb_half cb"
    by (auto simp: word_less_nat_alt unat_half s)
  show "cb_buf (consume n cb) = cb_buf cb" "cb_len (consume n cb) = cb_len cb" by (simp_all add: consume_def Let_def)
  show "unat (cb_head (consume n cb)) = (if unat (cb_head cb) + unat n \<le> cb_half cb
      then unat (cb_head cb) + unat n else unat (cb_head cb) + unat n - cb_half cb)"
    using c s by (simp add: consume_def Let_def unat_sub word_le_nat_alt unat_half)
  show "unat (cb_tail (consume n cb)) = (if unat (cb_head cb) + unat n \<le> cb_half cb
      then unat (cb_tail cb) else unat (cb_tail cb) - cb_half cb)"
    using c s le by (simp add: consume_def Let_def unat_sub word_le_nat_alt unat_half)
qed

lemma consume_ok:
  assumes ok: "cb_ok cb" and n: "unat n \<le> unat (unconsumed_len cb)"
  shows "cb_ok (consume n cb)" "unat (unconsumed_len (consume n cb)) = unat (unconsumed_len cb) - unat n"
    "cb_half (consume n cb) = cb_half cb"
proof -
  note b = cb_bounds[OF ok] and c = consume_offsets[OF assms]
  have h: "unat (cb_head cb) \<le> cb_half cb" "unat (cb_head cb) \<le> unat (cb_tail cb)"
    "unat (cb_tail cb) \<le> unat (cb_head cb) + cb_half cb" using ok by (simp_all add: cb_ok_def)
  show half: "cb_half (consume n cb) = cb_half cb" by (simp add: cb_half_def c(2))
  have le: "unat (cb_head cb) + unat n \<le> unat (cb_tail cb)" using n b(4) h(2) by linarith
  show ok': "cb_ok (consume n cb)"
    using ok h le unfolding cb_ok_def half c by auto
  show "unat (unconsumed_len (consume n cb)) = unat (unconsumed_len cb) - unat n"
    unfolding cb_bounds(4)[OF ok'] b(4) c using le by auto
qed

lemma reset_ok: "cb_ok cb \<Longrightarrow> cb_ok (reset cb) \<and> unconsumed_len (reset cb) = 0 \<and> cb_half (reset cb) = cb_half cb"
  by (simp add: cb_ok_def reset_def unconsumed_len_def cb_half_def)

section \<open>Bounded queues\<close>

text \<open>
  The interface of a queue of which only the number of elements matters: what is put is added while
  there is room, what is got is taken away while there is something.
\<close>

datatype queue_op = Put u64 | Get u64 | Clear

fun level :: "nat \<Rightarrow> queue_op list \<Rightarrow> nat \<Rightarrow> nat option" where
  "level cap [] u = Some u"
| "level cap (Put n # ops) u = (if u + unat n \<le> cap then level cap ops (u + unat n) else None)"
| "level cap (Get n # ops) u = (if unat n \<le> u then level cap ops (u - unat n) else None)"
| "level cap (Clear # ops) u = level cap ops 0"

fun run_ops :: "(u64 \<Rightarrow> 's \<Rightarrow> 's) \<Rightarrow> (u64 \<Rightarrow> 's \<Rightarrow> 's) \<Rightarrow> ('s \<Rightarrow> 's) \<Rightarrow> queue_op list \<Rightarrow> 's \<Rightarrow> 's" where
  "run_ops put get clear [] s = s"
| "run_ops put get clear (Put n # ops) s = run_ops put get clear ops (put n s)"
| "run_ops put get clear (Get n # ops) s = run_ops put get clear ops (get n s)"
| "run_ops put get clear (Clear # ops) s = run_ops put get clear ops (clear s)"

locale bounded_queue =
  fixes ok :: "'s \<Rightarrow> bool" and cap :: "'s \<Rightarrow> nat" and used :: "'s \<Rightarrow> nat"
    and put :: "u64 \<Rightarrow> 's \<Rightarrow> 's" and get :: "u64 \<Rightarrow> 's \<Rightarrow> 's" and clear :: "'s \<Rightarrow> 's"
  assumes put_law: "ok s \<Longrightarrow> used s + unat n \<le> cap s \<Longrightarrow>
      ok (put n s) \<and> used (put n s) = used s + unat n \<and> cap (put n s) = cap s"
    and get_law: "ok s \<Longrightarrow> unat n \<le> used s \<Longrightarrow>
      ok (get n s) \<and> used (get n s) = used s - unat n \<and> cap (get n s) = cap s"
    and clear_law: "ok s \<Longrightarrow> ok (clear s) \<and> used (clear s) = 0 \<and> cap (clear s) = cap s"
begin

lemma run_level:
  "ok s \<Longrightarrow> level (cap s) ops (used s) = Some u \<Longrightarrow>
   ok (run_ops put get clear ops s) \<and> used (run_ops put get clear ops s) = u \<and> cap (run_ops put get clear ops s) = cap s"
proof (induction ops arbitrary: s)
  case (Cons x ops)
  show ?case
  proof (cases x)
    case (Put n)
    then show ?thesis using Cons put_law[of s n] by (auto split: if_splits)
  next
    case (Get n)
    then show ?thesis using Cons get_law[of s n] by (auto split: if_splits)
  next
    case Clear
    then show ?thesis using Cons clear_law[of s] by auto
  qed
qed simp

end

interpretation cb: bounded_queue cb_ok cb_half "\<lambda>cb. unat (unconsumed_len cb)" produce consume reset
  by unfold_locales (use produce_ok consume_ok reset_ok in auto)

text \<open>
  C33: Over any sequence of operations that never produces more than the remaining space and never
  consumes more than there is, the circular buffer keeps its invariant and counts like a bounded
  queue of half its region: the unconsumed length is what was produced and not consumed since the
  last reset, the remaining space is the rest of the half, and the slice for the next bytes lies
  inside the region, directly behind the unconsumed bytes, and has exactly this many bytes.
\<close>

theorem circular_buffer_counts:
  assumes "cb_ok cb" and "level (cb_half cb) ops (unat (unconsumed_len cb)) = Some u"
  shows "let cb' = run_ops produce consume reset ops cb in
    cb_ok cb' \<and> unat (unconsumed_len cb') = u \<and> unat (remaining_space cb') = cb_half cb - u \<and>
    (\<exists>sl. remaining_slice cb' = Inr sl \<and> sl_base sl = cb_buf cb' + cb_tail cb' \<and>
       sl_len sl = remaining_space cb' \<and> unat (cb_tail cb') + unat (sl_len sl) \<le> unat (cb_len cb'))"
proof -
  let ?cb = "run_ops produce consume reset ops cb"
  have r: "cb_ok ?cb" "unat (unconsumed_len ?cb) = u" "cb_half ?cb = cb_half cb" using cb.run_level[OF assms] by simp_all
  note b = cb_bounds[OF r(1)]
  have h: "unat (cb_head ?cb) \<le> cb_half ?cb" "unat (cb_head ?cb) \<le> unat (cb_tail ?cb)"
    "unat (cb_tail ?cb) \<le> unat (cb_head ?cb) + cb_half ?cb" using r(1) by (simp_all add: cb_ok_def)
  have "unat (cb_head ?cb) + unat (cb_len ?cb div 2) < 2 ^ 64" using h(1) b(1) by (simp add: unat_half)
  then have e: "unat (cb_head ?cb + cb_len ?cb div 2) = unat (cb_head ?cb) + cb_half ?cb"
    by (simp add: unat_plus_less unat_half)
  have "cb_head ?cb + cb_len ?cb div 2 \<le> cb_len ?cb" using h(1) b(2) by (simp add: word_le_nat_alt e)
  moreover have "cb_head ?cb + cb_len ?cb div 2 - cb_tail ?cb = remaining_space ?cb" by (simp add: remaining_space_def)
  moreover have "unat (cb_tail ?cb) + unat (remaining_space ?cb) \<le> unat (cb_len ?cb)"
    using b(2,6) h by linarith
  moreover have "unat (remaining_space ?cb) = cb_half cb - u" using b(4,6) r(2,3) by simp
  ultimately show ?thesis
    using r by (simp add: Let_def remaining_slice_def slice_left_right_def unsafe_slice_def)
qed

theorem circular_buffer_counts_witness:
  "let cb' = run_ops produce consume reset [Put 4, Get 4, Put 3, Get 1]
      \<lparr>cb_buf = 4096, cb_len = 8, cb_head = 0, cb_tail = 0\<rparr> in
    cb_ok cb' \<and> unat (unconsumed_len cb') = 2 \<and> cb_head cb' = 1 \<and> cb_tail cb' = 3"
  using circular_buffer_counts[of "\<lparr>cb_buf = 4096, cb_len = 8, cb_head = 0, cb_tail = 0\<rparr>" "[Put 4, Get 4, Put 3, Get 1]" 2]
  by (simp add: cb_ok_def cb_half_def unconsumed_len_def consume_def produce_def Let_def)

section \<open>The bytes\<close>

definition unconsumed_bytes :: "mem \<Rightarrow> circular_buffer \<Rightarrow> u8 list" where
  "unconsumed_bytes m cb = ld_bytes m (sl_base (unconsumed_slice cb)) (unat (sl_len (unconsumed_slice cb)))"

lemma unconsumed_alt:
  "unconsumed_bytes m cb = ld_bytes m (cb_buf cb + cb_head cb) (unat (unconsumed_len cb))"
  by (simp add: unconsumed_bytes_def unconsumed_slice_def unsafe_slice_def)

text \<open>
  C34: While the head stays in the first half, the buffer is a queue of bytes: bytes stored in the
  remaining slice and then produced are appended to the unconsumed bytes, the string view shows the
  same bytes as the slice view, and consuming takes bytes from the front.
\<close>

theorem circular_buffer_fifo:
  assumes "cb_ok cb" and "length bs \<le> unat (remaining_space cb)" and "unat n \<le> unat (unconsumed_len cb)"
    and "unat (cb_head cb) + unat n \<le> cb_half cb"
  shows "unconsumed_bytes (st_bytes m (cb_buf cb + cb_tail cb) bs) (produce (of_nat (length bs)) cb) =
      unconsumed_bytes m cb @ bs \<and>
    unconsumed_bytes m (consume n cb) = drop (unat n) (unconsumed_bytes m cb) \<and>
    get_slice (unconsumed_string cb) = unconsumed_slice cb"
proof (intro conjI)
  note ok = assms(1) and b = cb_bounds[OF assms(1)]
  let ?u = "unat (unconsumed_len cb)" and ?a = "cb_buf cb + cb_head cb"
  have len: "length bs < 2 ^ 64" using assms(2) b(1,6) by simp
  then have n: "unat (of_nat (length bs) :: u64) = length bs" by (rule unat_of_nat_less)
  have room: "?u + length bs \<le> cb_half cb" using assms(2) b(4,5,6) by linarith
  have p: "unat (unconsumed_len (produce (of_nat (length bs)) cb)) = ?u + length bs"
    using produce_ok(2)[OF ok] room n by simp
  have small: "?u + length bs \<le> 2 ^ 62" using room b(1) by simp
  have w: "(of_nat ?u :: u64) = unconsumed_len cb" by simp
  have tail: "?a + of_nat ?u = cb_buf cb + cb_tail cb" unfolding w by (simp add: unconsumed_len_def)
  let ?m = "st_bytes m (cb_buf cb + cb_tail cb) bs"
  have same: "ld_bytes ?m ?a ?u = ld_bytes m ?a ?u"
  proof (cases "?u = 0")
    case False
    have "span ?a ?u \<inter> span (cb_buf cb + cb_tail cb) (length bs) = {}"
    proof -
      have "unconsumed_len cb \<noteq> 0" using False by auto
      from unat_diff_swap[OF this] have "unat (- unconsumed_len cb) = 2 ^ 64 - ?u" by simp
      then have "disj ?a ?u (?a + of_nat ?u) (length bs)" unfolding w using small by (simp add: disj_def)
      from disj_spans[OF this] show ?thesis by (simp only: tail)
    qed
    then show ?thesis by (rule only_ld_bytes[OF only_st_bytes]) (use small in simp)
  qed simp
  have "ld_bytes ?m (cb_buf cb + cb_tail cb) (length bs) = bs" by (rule ld_bytes_st_bytes_same) (use len in simp)
  then show "unconsumed_bytes ?m (produce (of_nat (length bs)) cb) = unconsumed_bytes m cb @ bs"
    unfolding unconsumed_alt p ld_bytes_add produce_keeps tail same by simp
  have rn: "(of_nat (unat n) :: u64) = n" by simp
  have "unat (cb_head cb) + unat n < 2 ^ 64" using assms(4) b(1) by simp
  then have c: "cb_head (consume n cb) = cb_head cb + n"
    using assms(4) consume_offsets(3)[OF ok assms(3)] by (simp add: word_unat_eq_iff unat_plus_less)
  have "?u = unat n + (?u - unat n)" using assms(3) by simp
  then have "unconsumed_bytes m cb = ld_bytes m ?a (unat n) @ ld_bytes m (?a + n) (?u - unat n)"
    unfolding unconsumed_alt by (metis ld_bytes_add rn)
  then show "unconsumed_bytes m (consume n cb) = drop (unat n) (unconsumed_bytes m cb)"
    unfolding unconsumed_alt consume_ok(2)[OF ok assms(3)] consume_offsets(1)[OF ok assms(3)] c
    by (simp add: add.assoc)
  show "get_slice (unconsumed_string cb) = unconsumed_slice cb"
    by (simp add: get_slice_def unconsumed_string_def unconsumed_slice_def unsafe_string_def unsafe_slice_def)
qed

theorem circular_buffer_fifo_witness:
  "unconsumed_bytes (st_bytes (\<lambda>a. ucast a) 4098 [7, 8]) (produce 2
      \<lparr>cb_buf = 4096, cb_len = 8, cb_head = 0, cb_tail = 2\<rparr>) = [0, 1, 7, 8] \<and>
   unconsumed_bytes (\<lambda>a. ucast a) (consume 1 \<lparr>cb_buf = 4096, cb_len = 8, cb_head = 0, cb_tail = 2\<rparr>) = [1]"
proof -
  let ?cb = "\<lparr>cb_buf = 4096, cb_len = 8, cb_head = 0, cb_tail = 2\<rparr>"
  have "unconsumed_bytes (\<lambda>a. ucast a) ?cb = [0, 1]"
    by (simp add: unconsumed_alt unconsumed_len_def ld_bytes_def upt_conv_Cons)
  moreover have "cb_ok ?cb" "unat (remaining_space ?cb) = 2" "unat (unconsumed_len ?cb) = 2" "cb_half ?cb = 4"
    by (simp_all add: cb_ok_def remaining_space_def unconsumed_len_def cb_half_def)
  ultimately show ?thesis
    using circular_buffer_fifo[of ?cb "[7, 8]" 1 "\<lambda>a. ucast a"] by simp
qed

text \<open>
  C35: When the head passes the middle, both offsets move back by half of the region, and the
  unconsumed bytes are from then on read half of the region below where they were stored. Nothing
  maps the two halves to the same memory, so these are other bytes.
\<close>

theorem circular_buffer_wraps:
  assumes "cb_ok cb" and "unat n \<le> unat (unconsumed_len cb)" and "cb_half cb < unat (cb_head cb) + unat n"
  shows "unconsumed_bytes m (consume n cb) =
      ld_bytes m (cb_buf cb + cb_head cb + n - cb_len cb div 2) (unat (unconsumed_len cb) - unat n) \<and>
    drop (unat n) (unconsumed_bytes m cb) =
      ld_bytes m (cb_buf cb + cb_head cb + n) (unat (unconsumed_len cb) - unat n)"
proof
  note c = consume_offsets[OF assms(1,2)] and b = cb_bounds[OF assms(1)]
  have h: "unat (cb_head cb) \<le> unat (cb_tail cb)" using assms(1) by (simp add: cb_ok_def)
  have "unat n \<le> cb_half cb" "unat (cb_head cb) \<le> cb_half cb" using assms(1,2) b(5) by (simp_all add: cb_ok_def)
  then have "unat (cb_head cb) + unat n < 2 ^ 64" using b(1) by simp
  then have s: "unat (cb_head cb + n) = unat (cb_head cb) + unat n" by (rule unat_plus_less)
  have "cb_head (consume n cb) = cb_head cb + n - cb_len cb div 2"
    using assms(3) by (simp add: consume_def Let_def word_less_nat_alt unat_half[symmetric] s)
  then have e: "cb_buf cb + cb_head (consume n cb) = cb_buf cb + cb_head cb + n - cb_len cb div 2" by simp
  show "unconsumed_bytes m (consume n cb) =
      ld_bytes m (cb_buf cb + cb_head cb + n - cb_len cb div 2) (unat (unconsumed_len cb) - unat n)"
    unfolding unconsumed_alt consume_ok(2)[OF assms(1,2)] c(1) e ..
  have rn: "(of_nat (unat n) :: u64) = n" by simp
  have "unat (unconsumed_len cb) = unat n + (unat (unconsumed_len cb) - unat n)" using assms(2) by simp
  then show "drop (unat n) (unconsumed_bytes m cb) =
      ld_bytes m (cb_buf cb + cb_head cb + n) (unat (unconsumed_len cb) - unat n)"
    unfolding unconsumed_alt by (metis ld_bytes_add append_eq_conv_conj length_ld_bytes rn)
qed

theorem circular_buffer_wraps_witness:
  "let cb = \<lparr>cb_buf = 4096, cb_len = 8, cb_head = 4, cb_tail = 7\<rparr>; m = (\<lambda>a. ucast a) in
     drop 1 (unconsumed_bytes m cb) = [5, 6] \<and> unconsumed_bytes m (consume 1 cb) = [1, 2]"
proof -
  let ?cb = "\<lparr>cb_buf = 4096, cb_len = 8, cb_head = 4, cb_tail = 7\<rparr>"
  have "cb_ok ?cb" "unat (unconsumed_len ?cb) = 3" "cb_half ?cb = 4"
    by (simp_all add: cb_ok_def unconsumed_len_def cb_half_def)
  then show ?thesis
    using circular_buffer_wraps[of ?cb 1 "\<lambda>a. ucast a"] by (simp add: ld_bytes_def upt_conv_Cons Let_def)
qed

text \<open>
  A new circular buffer is either refused with the kernel's error and then empty and without
  memory, or an empty buffer over a fresh zeroed region of twice the asked size, in which the
  invariant holds, half of which is the remaining space.
\<close>

theorem new_circular_buffer_outcome:
  assumes "kernel_ok (kern P)" and "0 < unat sz" and "unat sz \<le> 2 ^ 46"
  shows "case new_circular_buffer P w sz of (cb, e, w') \<Rightarrow>
    trace w' = mmap_call [0, 2 * sz, prot_read_write, map_private_anonymous, -1, 0] # trace w \<and>
    (case e of Some _ \<Rightarrow> cb_buf cb = 0 \<and> cb_len cb = 0 \<and> wmem w' = wmem w
     | None \<Rightarrow> cb_buf cb \<noteq> 0 \<and> cb_ok cb \<and> unconsumed_len cb = 0 \<and> unat (remaining_space cb) = unat sz \<and>
         ld_bytes (wmem w') (cb_buf cb) (2 * unat sz) = replicate (2 * unat sz) 0)"
proof -
  have d: "unat (2 * sz) = 2 * unat sz" using assms(3) by (intro unat_mult_lem[THEN iffD1, of 2 sz, simplified]) simp
  show ?thesis
  proof (cases rule: sys_mmap_cases[OF assms(1), of w 0 "2 * sz" prot_read_write map_private_anonymous "-1" 0])
    case (1 v e)
    then show ?thesis by (simp add: new_circular_buffer_def)
  next
    case (2 p)
    let ?cb = "\<lparr>cb_buf = p, cb_len = 2 * sz, cb_head = 0, cb_tail = 0\<rparr>"
    have half: "cb_half ?cb = unat sz" by (simp add: cb_half_def d)
    have ok: "cb_ok ?cb" using 2(4) d by (simp add: cb_ok_def)
    have "length (replicate (2 * unat sz) (0 :: u8)) = 2 * unat sz" by simp
    then have "ld_bytes (st_bytes (wmem w) p (replicate (2 * unat sz) 0)) p (2 * unat sz) = replicate (2 * unat sz) 0"
      using ld_bytes_st_bytes_same[of "replicate (2 * unat sz) 0" "wmem w" p] assms(3) by simp
    then show ?thesis
      using 2 ok half cb_bounds(6)[OF ok] by (simp add: new_circular_buffer_def d unconsumed_len_def)
  qed
qed

definition demo_cb :: platform where
  "demo_cb = \<lparr>kern = demo_kernel [], lit = \<lambda>_. 0, stk = \<lambda>_. 0, fuel = 0\<rparr>"

theorem new_circular_buffer_outcome_witness:
  "\<exists>cb w'. new_circular_buffer demo_cb \<lparr>wmem = \<lambda>_. 7, trace = []\<rparr> 4096 = (cb, None, w') \<and>
     cb_buf cb \<noteq> 0 \<and> cb_ok cb \<and> unat (remaining_space cb) = 4096"
proof -
  let ?w = "\<lparr>wmem = \<lambda>_. 7, trace = []\<rparr>"
  have ok: "kernel_ok (kern demo_cb)" by (simp add: demo_cb_def demo_kernel_ok)
  let ?c = "mmap_call [0, 8192, prot_read_write, map_private_anonymous, -1, 0]"
  have nr: "sc_nr ?c = s_mmap" by (simp add: mmap_call_def)
  have "\<not> (16 \<le> calls_before ?c [] \<or> 0x10000000000 < sc_args ?c ! 1)"
    by (simp add: calls_before_def mmap_call_def)
  then have "demo_reply [] ?c [] = (demo_region 0, demo_region 0, replicate (unat (sc_args ?c ! 1)) 0)"
    by (simp only: demo_reply_map[OF nr] if_False) (simp add: calls_before_def)
  then have s: "succeeded (kern demo_cb (?c # trace ?w))"
    using demo_region_bounds(2)[of 0] by (simp add: demo_cb_def demo_kernel_reply succeeded_def)
  obtain cb e w' where r: "new_circular_buffer demo_cb ?w 4096 = (cb, e, w')" by (metis prod_cases3)
  have "e = None"
  proof (cases rule: sys_mmap_cases[OF ok, of ?w 0 8192 prot_read_write map_private_anonymous "-1" 0])
    case 1
    then show ?thesis using s by blast
  next
    case 2
    then show ?thesis using r by (simp add: new_circular_buffer_def)
  qed
  then have n: "new_circular_buffer demo_cb ?w 4096 = (cb, None, w')" using r by simp
  have "cb_buf cb \<noteq> 0 \<and> cb_ok cb \<and> unat (remaining_space cb) = 4096"
    using new_circular_buffer_outcome[OF ok, of 4096 ?w] by (simp add: n)
  with n show ?thesis by blast
qed

end
