(* ===== verification/Spec2Isabelle.thy ===== *)
theory Spec2Isabelle
  imports Rounds Slice_Alloc Buffer
begin

text \<open>
  A chat server for Linux on x86-64 that uses no C library, \<^verbatim>\<open>src/chat_server.c\<close>, and
  the small library it is built on, \<^verbatim>\<open>lib/cfa\<close>. All file names below are relative to
  the root of the repository.

  \<^bold>\<open>The program.\<close> \<^verbatim>\<open>_start\<close> makes a pool of clients
  (\<^verbatim>\<open>session_new_clp\<close>), sets up a listening socket (\<^verbatim>\<open>server_init\<close>) and
  enters an endless loop of \<^verbatim>\<open>epoll_wait\<close> (\<^verbatim>\<open>server_go\<close>). An event of the
  listening socket accepts all waiting connections (\<^verbatim>\<open>server_handle\<close>,
  \<^verbatim>\<open>session_new\<close>); an event of a client reads its name or its lines
  (\<^verbatim>\<open>session_name_read\<close>, \<^verbatim>\<open>session_line_read\<close>); a complete line goes
  with name and time to all other clients (\<^verbatim>\<open>check_line_and_send\<close>,
  \<^verbatim>\<open>session_send_all\<close>); the end of a connection closes the session
  (\<^verbatim>\<open>session_close\<close>), and a pool that has become empty is given back. Clients are
  chunks of at most 16 pools of 1023, each in a region of its own; the clients in use of a pool form
  a linked list, and so do the free chunks. Names, lines and counters are fields of the chunk. The
  library supplies the pool and arena allocators, slices and strings, \<^verbatim>\<open>memcpy\<close>, number and time
  formats, \<^verbatim>\<open>fmt_fprintf\<close> and the system calls.

  \<^bold>\<open>How C is modelled.\<close> The memory of the process is a function from 64-bit addresses to
  bytes, and everything the program reaches through a pointer lives in it at the offsets of the
  x86-64 layout: clients, pools and their lists, buffers, events, socket addresses. Structures that
  are passed by value or whose address is not taken (slices, strings, arenas, the circular buffer,
  the \<^verbatim>\<open>tm\<close>, the server) are records. Machine integers are words of their width, read
  with \<open>sint\<close> where C reads a signed one; counters that are provably small are numbers. A function
  that may not return gives \<open>halt + 'a\<close>: a failed assertion, a panic, an exit with its code,
  undefined behaviour (an index outside \<^verbatim>\<open>first_clp\<close>, a store through a null client,
  a signed sum or negation that overflows in \<^verbatim>\<open>time_to_tm\<close>, \<^verbatim>\<open>int_in_slice\<close>
  and the printed dates), or a bound on iterations that is used up. \<open>andthen\<close> chains such functions. A \<open>platform\<close> gathers
  what is not in the sources: the kernel, a function from the history of system calls to a reply;
  the addresses of the string literals and of the locals that the program passes on by address; and the
  bound on iterations. A \<open>world\<close> is the memory and the history of calls, each with its
  arguments and the bytes that the kernel reads.

  \<^bold>\<open>Theories.\<close>
  \<^item> \<open>Prelude\<close>: the integer types of \<^verbatim>\<open>include/u.h\<close>, \<open>halt\<close>, \<open>andthen\<close>, and the
    collections \<open>syscall_numbers\<close>, \<open>layout_defs\<close> and \<open>text_built\<close> that later theories fill.
  \<^item> \<open>Memory\<close>: bytes, little-endian cells (locale \<open>cell\<close>, interpreted for 32 and 64
    bits), regions, what a write changes (\<open>only\<close>, \<open>agree\<close>), linked lists (\<open>chain\<close>).
  \<^item> \<open>Memcpy\<close>: \<^verbatim>\<open>memcpy\<close>, \<^verbatim>\<open>memmove\<close>, \<^verbatim>\<open>memequal\<close> of
    \<^verbatim>\<open>builtin.c\<close>, with the byte and the word loops in both directions. The lemmas show that each
    loop is a part of one simultaneous move of the block.
  \<^item> \<open>Builtin\<close>, \<open>Decimal\<close>: the slices, strings and numbers of \<^verbatim>\<open>builtin.c\<close>, and
    \<^verbatim>\<open>iovec.c\<close>; what \<^verbatim>\<open>int_in_slice\<close> and \<^verbatim>\<open>c_strncpy\<close> write.
    The locale \<open>slice_writer\<close> is the contract of the functions that append text at a counter;
    its instances are numbers, strings and (in \<open>Broadcast\<close>) the short time.
  \<^item> \<open>Time_Tm\<close>, \<open>Time_Format\<close>: \<^verbatim>\<open>time.c\<close>, against the Gregorian calendar
    and the printed forms. Neither reference uses the code's tables: months have their lengths, and
    the abbreviations are the beginnings of the English names.
  \<^item> \<open>Syscall\<close>: \<^verbatim>\<open>syscall.c\<close>, \<^verbatim>\<open>include/errno.h\<close>, the
    flags of \<^verbatim>\<open>include/syscall.h\<close>, and a demonstration kernel.
  \<^item> \<open>Fmt\<close>: \<^verbatim>\<open>fmt.c\<close> and \<^verbatim>\<open>assert.c\<close>.
  \<^item> \<open>Pool\<close>, \<open>Arena\<close>: \<^verbatim>\<open>pool.c\<close> (locale \<open>chunk_stack\<close>) and
    \<^verbatim>\<open>arena.c\<close> (locale \<open>bump_allocator\<close>), each interpreted on the code's own operations.
  \<^item> \<open>Slice_Alloc\<close>: \<^verbatim>\<open>panic\<close>, \<^verbatim>\<open>make_slice\<close>,
    \<^verbatim>\<open>new_slice_cap\<close>, \<^verbatim>\<open>grow_slice\<close> and
    \<^verbatim>\<open>sl_to_str_new_base\<close> of \<^verbatim>\<open>builtin.c\<close>; its static
    \<^verbatim>\<open>global_arena\<close> is an argument and a result.
  \<^item> \<open>Buffer\<close>: \<^verbatim>\<open>buffer.c\<close>, as an instance of the locale
    \<open>bounded_queue\<close>.
  \<^item> \<open>Session\<close>, \<open>Server\<close>: \<^verbatim>\<open>src/chat_server.c\<close>, one definition
    per function and one per loop, in its order.
  \<^item> \<open>Server_State\<close>: the invariant of the server. \<open>server_ok\<close> describes every pool with
    its free chunks and its clients, \<open>good\<close> adds the bounds of the counters and that the
    kernel watches only the listening socket and connected clients.
  \<^item> \<open>Broadcast\<close>, \<open>Closing\<close>, \<open>Opening\<close>, \<open>Reading\<close>, \<open>Serving\<close>: every
    function of the program keeps the invariant, on every branch and for every answer of the kernel.
    The two read loops are instances of the locale \<open>client_reader\<close>.
  \<^item> \<open>Delivery\<close>: what the handlers do with bytes that arrive.
  \<^item> \<open>Demo\<close>: a platform and states on which all hypotheses hold together; the witnesses use it.
  \<^item> \<open>Machine\<close>: the endless loop as an inductive step relation, the locales
    \<open>invariant_system\<close> and \<open>refined_system\<close> with the server as their instance, and the
    abstract machine \<open>chat_step\<close> of connected clients and pending events.
  \<^item> \<open>Chat\<close>, \<open>Talk\<close>, \<open>Listening\<close>, \<open>Leaving\<close>: the properties of the server;
    the last also shows that the loop always comes back to its wait.
  \<^item> \<open>Rounds\<close>: the path of a line through one whole round of the loop.

  \<^bold>\<open>What is assumed.\<close> \<open>kernel_ok\<close>: the documented results of \<^verbatim>\<open>read\<close>,
  \<^verbatim>\<open>mmap\<close>, \<^verbatim>\<open>clock_gettime\<close> and \<^verbatim>\<open>epoll_wait\<close>, and that
  other calls store nothing. \<open>kernel_fresh\<close>: a new mapping overlaps nothing in use.
  \<open>epoll_ok\<close>: the events of one wait belong to distinct registered descriptors, and closing a
  descriptor ends its registration. \<open>layout_ok\<close> and \<open>literals_ok\<close>: literals and locals have
  addresses that do not overlap where it matters, and the literals are in memory. All are
  properties of the environment, and \<open>Demo\<close> satisfies them.

  \<^bold>\<open>Bounds.\<close> Lists of clients are walked with the fuel of the platform, which is at least
  1024 (\<open>platform_ok\<close>): a list has at most 1023 clients, so this never runs out, and the
  properties of single functions show that they return. The loops that end when the kernel says so
  (reading, accepting, the rounds of \<^verbatim>\<open>server_go\<close>) have the same fuel; there
  \<open>Out_of_fuel\<close> means that they are still running. The properties hold for every fuel from 1024
  on, and \<open>Machine\<close> states the endless loop without a bound. The loop of
  \<^verbatim>\<open>new_slice_cap\<close> is a partial function, proved to return for all arguments; all
  other loops are total with a measure.

  \<^bold>\<open>The properties.\<close> The program never gets stuck; its reachable states keep the invariant,
  each of its steps is one of the abstract machine, which says who joins and who leaves, and it
  always waits again. A line goes from the wait to all other clients in one round. Each function of the server: what it sends and to whom, what
  it changes and what not, in success, failure and with all places taken. Of the library: the
  allocators give disjoint blocks, copies are simultaneous moves, dates and numbers read back,
  output stays in its buffer, capacities grow enough. Some properties state what the code does
  where it misses its purpose: pieces of a line that overwrite each other, pools of which one page
  is unmapped, the range check of \<^verbatim>\<open>pool_put\<close>, the sum that wraps in
  \<^verbatim>\<open>arena_alloc\<close>, the arena that moves under its slices, the circular buffer past its
  middle.

  \<^bold>\<open>Not modelled.\<close> The inline assembly that enters the kernel, beyond its decoding of the
  result; the code under \<^verbatim>\<open>DEBUG_PRINT\<close>; the constants of
  \<^verbatim>\<open>include/syscall.h\<close> and the floating-point types that no source uses; the lines 109 to 179 of
  \<^verbatim>\<open>time.c\<close>, which are a comment; the test programs and the build files. The macro
  \<^verbatim>\<open>assert\<close> is written out where it is used. Threads and signals do not occur in the program.
\<close>

end
